(* ===== verification/Prelude.thy ===== *)
theory Prelude
  imports Main "HOL-Library.Word" "HOL-Library.Multiset" "HOL-Library.List_Lexorder"
begin

text \<open>
  Shared vocabulary of the development: the machine integers and byte strings of the crate,
  Rust's three-way \<open>Ordering\<close>, the parts of the Rust standard library the modelled code calls
  (\<open>sort_by\<close>, \<open>binary_search_by\<close>, \<open>partition_point\<close>, \<open>Vec::insert\<close>, the \<open>BTreeMap\<close>
  operations), the error values, and the generic lemmas about them.
\<close>

named_theorems btree_simps \<open>lookup, invariant and last-key facts about the ordered map\<close>
named_theorems cmp_simps \<open>orientation facts about three-way comparison\<close>

subsection \<open>Machine types\<close>

type_synonym u8 = "8 word"
type_synonym u32 = "32 word"
type_synonym u64 = "64 word"
type_synonym user_key = "u8 list"
type_synonym user_value = "u8 list"
type_synonym seqno = u64

subsection \<open>Three-way ordering\<close>

datatype ordering = Less | Equal | Greater

fun then_with :: "ordering \<Rightarrow> ordering \<Rightarrow> ordering" where
  "then_with Equal c = c"
| "then_with Less c = Less"
| "then_with Greater c = Greater"

fun reverse_ord :: "ordering \<Rightarrow> ordering" where
  "reverse_ord Less = Greater"
| "reverse_ord Equal = Equal"
| "reverse_ord Greater = Less"

definition ord_cmp :: "'a::linorder \<Rightarrow> 'a \<Rightarrow> ordering" where
  "ord_cmp a b = (if a < b then Less else if a = b then Equal else Greater)"

text \<open>The lexicographic order of byte slices, \<open>Ord for [u8]\<close>.\<close>

fun slice_cmp :: "u8 list \<Rightarrow> u8 list \<Rightarrow> ordering" where
  "slice_cmp [] [] = Equal"
| "slice_cmp [] (b # bs) = Less"
| "slice_cmp (a # as) [] = Greater"
| "slice_cmp (a # as) (b # bs) = then_with (ord_cmp a b) (slice_cmp as bs)"

subsection \<open>Errors\<close>

text \<open>
  The variants of \<open>crate::Error\<close> (\<open>error.rs\<close>) the modelled code raises or passes on. A Rust
  panic (a failed \<open>assert!\<close> or \<open>expect\<close>) is the extra value \<open>Panicked\<close>.
\<close>

datatype lsm_error =
    Panicked
  | Io nat
  | Unrecoverable
  | MergeOperator
  | SnapshotBelowRetention seqno seqno
  | InvalidTag u8
  | InvalidTrailer
  | MixedOperationBatch
  | FeatureUnsupported
  | MemtableKvChecksumMismatch seqno u64 u64
  | MemtableKvChecksumCorruptAlgorithm seqno u8

subsection \<open>Standard library: sorting and searching\<close>

text \<open>\<open>slice::sort_by\<close> is a stable sort; its result is determined by the comparison alone.\<close>

fun insert_by :: "('a \<Rightarrow> 'a \<Rightarrow> ordering) \<Rightarrow> 'a \<Rightarrow> 'a list \<Rightarrow> 'a list" where
  "insert_by c x [] = [x]"
| "insert_by c x (y # ys) = (if c x y = Greater then y # insert_by c x ys else x # y # ys)"

definition sort_by :: "('a \<Rightarrow> 'a \<Rightarrow> ordering) \<Rightarrow> 'a list \<Rightarrow> 'a list" where
  "sort_by c xs = foldr (insert_by c) xs []"

text \<open>\<open>slice::binary_search_by\<close>: the halving loop, then one comparison at the base.\<close>

function bs_loop :: "(nat \<Rightarrow> ordering) \<Rightarrow> nat \<Rightarrow> nat \<Rightarrow> nat" where
  "bs_loop f base n =
     (if 1 < n then
        (let half = n div 2; mid = base + half
         in bs_loop f (if f mid = Greater then base else mid) (n - half))
      else base)"
  by pat_completeness auto
termination
  by (relation "measure (\<lambda>(f, base, n). n)") auto

declare bs_loop.simps [simp del]

definition binary_search_by :: "('a \<Rightarrow> ordering) \<Rightarrow> 'a list \<Rightarrow> nat + nat" where
  "binary_search_by f xs =
     (if xs = [] then Inl 0
      else (let base = bs_loop (\<lambda>i. f (xs ! i)) 0 (length xs); c = f (xs ! base)
            in if c = Equal then Inr base else Inl (if c = Less then Suc base else base)))"

text \<open>\<open>unwrap_or_else(|idx| idx)\<close>: the hit index or the insertion point.\<close>

fun search_index :: "nat + nat \<Rightarrow> nat" where
  "search_index (Inl i) = i"
| "search_index (Inr i) = i"

definition partition_point :: "('a \<Rightarrow> bool) \<Rightarrow> 'a list \<Rightarrow> nat" where
  "partition_point p xs = search_index (binary_search_by (\<lambda>x. if p x then Less else Greater) xs)"

text \<open>\<open>Vec::insert\<close>.\<close>

definition vec_insert :: "nat \<Rightarrow> 'a \<Rightarrow> 'a list \<Rightarrow> 'a list" where
  "vec_insert i x xs = take i xs @ x # drop i xs"

subsection \<open>Standard library: the ordered map\<close>

text \<open>A \<open>BTreeMap\<close> is the list of its entries in strictly ascending key order.\<close>

type_synonym ('k, 'v) btree_map = "('k \<times> 'v) list"

definition bt_inv :: "('k::linorder, 'v) btree_map \<Rightarrow> bool" where
  "bt_inv m \<longleftrightarrow> sorted_wrt (<) (map fst m)"

definition bt_get :: "('k, 'v) btree_map \<Rightarrow> 'k \<Rightarrow> 'v option" where
  "bt_get m k = map_of m k"

fun bt_insert :: "'k::linorder \<Rightarrow> 'v \<Rightarrow> ('k, 'v) btree_map \<Rightarrow> ('k, 'v) btree_map" where
  "bt_insert k v [] = [(k, v)]"
| "bt_insert k v ((k', v') # m) =
     (case ord_cmp k k' of
        Less \<Rightarrow> (k, v) # (k', v') # m
      | Equal \<Rightarrow> (k, v) # m
      | Greater \<Rightarrow> (k', v') # bt_insert k v m)"

definition bt_remove :: "'k \<Rightarrow> ('k, 'v) btree_map \<Rightarrow> ('k, 'v) btree_map" where
  "bt_remove k m = filter (\<lambda>e. fst e \<noteq> k) m"

text \<open>\<open>keys().next_back()\<close>.\<close>

definition bt_last_key :: "('k, 'v) btree_map \<Rightarrow> 'k option" where
  "bt_last_key m = (if m = [] then None else Some (fst (last m)))"

subsection \<open>Facts about three-way ordering\<close>

lemma ord_cmp_simps [simp]:
  "ord_cmp a b = Less \<longleftrightarrow> a < b"
  "ord_cmp a b = Equal \<longleftrightarrow> a = b"
  "ord_cmp a b = Greater \<longleftrightarrow> b < a"
  by (auto simp: ord_cmp_def)

lemma then_with_eq [simp]:
  "then_with c d = Less \<longleftrightarrow> c = Less \<or> c = Equal \<and> d = Less"
  "then_with c d = Equal \<longleftrightarrow> c = Equal \<and> d = Equal"
  "then_with c d = Greater \<longleftrightarrow> c = Greater \<or> c = Equal \<and> d = Greater"
  by (cases c; simp)+

lemma reverse_ord_eq [simp]:
  "reverse_ord c = Less \<longleftrightarrow> c = Greater"
  "reverse_ord c = Equal \<longleftrightarrow> c = Equal"
  "reverse_ord c = Greater \<longleftrightarrow> c = Less"
  by (cases c; simp)+

lemma ordering_neq [cmp_simps]:
  "c \<noteq> Greater \<longleftrightarrow> c = Less \<or> c = Equal"
  "c \<noteq> Less \<longleftrightarrow> c = Greater \<or> c = Equal"
  "c \<noteq> Equal \<longleftrightarrow> c = Less \<or> c = Greater"
  by (cases c; simp)+

lemma slice_cmp_ord_cmp: "slice_cmp a b = ord_cmp a b"
  by (induction a b rule: slice_cmp.induct) (auto simp: ord_cmp_def)

subsection \<open>Facts about sorting\<close>

lemma mset_insert_by [simp]: "mset (insert_by c x xs) = add_mset x (mset xs)"
  by (induction xs) auto

lemma set_insert_by [simp]: "set (insert_by c x xs) = insert x (set xs)"
  by (induction xs) auto

lemma mset_sort_by [simp]: "mset (sort_by c xs) = mset xs"
  by (induction xs) (auto simp: sort_by_def)

lemma set_sort_by [simp]: "set (sort_by c xs) = set xs"
  using mset_eq_setD [OF mset_sort_by] .

lemma length_sort_by [simp]: "length (sort_by c xs) = length xs"
  using mset_eq_length [OF mset_sort_by] .

text \<open>
  A comparison whose non-\<open>Greater\<close> side is total and transitive sorts. The hypothesis is stated
  on the relation, so every comparison built from a lawful key comparator discharges it once.
\<close>

definition cmp_preorder :: "('a \<Rightarrow> 'a \<Rightarrow> ordering) \<Rightarrow> bool" where
  "cmp_preorder c \<longleftrightarrow>
     (\<forall>x y. c x y = Greater \<longrightarrow> c y x \<noteq> Greater) \<and>
     (\<forall>x y z. c x y \<noteq> Greater \<longrightarrow> c y z \<noteq> Greater \<longrightarrow> c x z \<noteq> Greater)"

lemma cmp_preorderD:
  assumes "cmp_preorder c"
  shows "c x y = Greater \<Longrightarrow> c y x \<noteq> Greater"
    and "c x y \<noteq> Greater \<Longrightarrow> c y z \<noteq> Greater \<Longrightarrow> c x z \<noteq> Greater"
  using assms unfolding cmp_preorder_def by blast+

lemma sorted_insert_by:
  assumes c: "cmp_preorder c"
  shows "sorted_wrt (\<lambda>x y. c x y \<noteq> Greater) xs \<Longrightarrow>
    sorted_wrt (\<lambda>x y. c x y \<noteq> Greater) (insert_by c x xs)"
proof (induction xs)
  case (Cons y ys)
  then have ys: "sorted_wrt (\<lambda>x y. c x y \<noteq> Greater) (insert_by c x ys)"
    and y: "\<And>z. z \<in> set ys \<Longrightarrow> c y z \<noteq> Greater"
    by auto
  show ?case
  proof (cases "c x y = Greater")
    case True
    with ys y cmp_preorderD(1) [OF c True] show ?thesis by auto
  next
    case False
    then have "\<And>z. z \<in> set ys \<Longrightarrow> c x z \<noteq> Greater"
      using cmp_preorderD(2) [OF c] y by blast
    with False Cons.prems show ?thesis by simp
  qed
qed simp

lemma sorted_sort_by:
  "cmp_preorder c \<Longrightarrow> sorted_wrt (\<lambda>x y. c x y \<noteq> Greater) (sort_by c xs)"
  by (induction xs) (auto simp: sort_by_def intro: sorted_insert_by)

lemma insert_by_sorted_id:
  "(\<forall>y\<in>set ys. c x y \<noteq> Greater) \<Longrightarrow> insert_by c x ys = x # ys"
  by (cases ys) auto

lemma sort_by_sorted_id:
  "sorted_wrt (\<lambda>x y. c x y \<noteq> Greater) xs \<Longrightarrow> sort_by c xs = xs"
  by (induction xs) (auto simp: sort_by_def insert_by_sorted_id)

text \<open>A strictly ascending list is the only way to sort its elements.\<close>

lemma sorted_unique:
  assumes anti: "\<And>x y. c x y = Less \<Longrightarrow> c y x = Greater"
  shows "sorted_wrt (\<lambda>x y. c x y = Less) xs \<Longrightarrow> sorted_wrt (\<lambda>x y. c x y \<noteq> Greater) ys \<Longrightarrow>
    mset ys = mset xs \<Longrightarrow> ys = xs"
proof (induction xs arbitrary: ys)
  case (Cons x xs)
  then obtain y ys' where ys: "ys = y # ys'" by (cases ys) auto
  have "y = x"
  proof (rule ccontr)
    assume ne: "y \<noteq> x"
    have "set ys = set (x # xs)" using Cons.prems(3) by (metis set_mset_mset)
    then have "y \<in> set xs" "x \<in> set ys'" using ne ys by auto
    then have "c x y = Less" "c y x \<noteq> Greater" using Cons.prems(1,2) ys by auto
    with anti show False by blast
  qed
  with Cons ys show ?case by simp
qed simp

lemma sort_by_unique:
  assumes "cmp_preorder c" "\<And>x y. c x y = Less \<Longrightarrow> c y x = Greater"
    and "sorted_wrt (\<lambda>x y. c x y = Less) xs" "mset ys = mset xs"
  shows "sort_by c ys = xs"
  using sorted_unique [OF assms(2,3) sorted_sort_by [OF assms(1)], of ys] assms(4) by simp

subsection \<open>Facts about searching\<close>

text \<open>What a binary search needs of its probe: once past the target it stays past it.\<close>

definition probe_mono :: "('a \<Rightarrow> ordering) \<Rightarrow> 'a list \<Rightarrow> bool" where
  "probe_mono f xs \<longleftrightarrow>
     (\<forall>i j. i \<le> j \<longrightarrow> j < length xs \<longrightarrow>
        (f (xs ! j) = Less \<longrightarrow> f (xs ! i) = Less) \<and>
        (f (xs ! i) = Greater \<longrightarrow> f (xs ! j) = Greater))"

lemma bs_loop_split:
  "(\<And>i j. i \<le> j \<Longrightarrow> j < N \<Longrightarrow> f i = Greater \<Longrightarrow> f j = Greater) \<Longrightarrow>
    0 < n \<Longrightarrow> base + n \<le> N \<Longrightarrow> base = 0 \<or> f base \<noteq> Greater \<Longrightarrow>
    (\<And>j. base + n \<le> j \<Longrightarrow> j < N \<Longrightarrow> f j = Greater) \<Longrightarrow>
    bs_loop f base n < N \<and> (bs_loop f base n = 0 \<or> f (bs_loop f base n) \<noteq> Greater) \<and>
    (\<forall>j. bs_loop f base n < j \<longrightarrow> j < N \<longrightarrow> f j = Greater)"
proof (induction f base n rule: bs_loop.induct)
  case (1 f base n)
  note mono = "1.prems"(1) and prems = "1.prems"(2-5)
  show ?case
  proof (cases "1 < n")
    case False
    then have "bs_loop f base n = base" by (simp add: bs_loop.simps [of f base n])
    with False prems show ?thesis by auto
  next
    case True
    define mid where "mid = base + n div 2"
    define base' where "base' = (if f mid = Greater then base else mid)"
    have step: "bs_loop f base n = bs_loop f base' (n - n div 2)"
      using True by (simp add: bs_loop.simps [of f base n] base'_def mid_def Let_def)
    have past: "f j = Greater" if "base' + (n - n div 2) \<le> j" "j < N" for j
    proof (cases "f mid = Greater")
      case True
      with that have "mid \<le> j" by (simp add: base'_def mid_def)
      with True that show ?thesis using mono by blast
    next
      case False
      with that have "base + n \<le> j" by (simp add: base'_def mid_def)
      with that prems show ?thesis by blast
    qed
    have bounds: "0 < n - n div 2" "base' + (n - n div 2) \<le> N" "base' = 0 \<or> f base' \<noteq> Greater"
      using True prems by (auto simp: base'_def mid_def)
    show ?thesis unfolding step
      by (rule "1.IH" [OF True refl mid_def, folded base'_def])
        (rule mono, assumption+, rule bounds, rule bounds, rule bounds, rule past)
  qed
qed

lemma binary_search_split:
  assumes "probe_mono f xs"
  defines "k \<equiv> search_index (binary_search_by f xs)"
  shows "k \<le> length xs"
    and "\<And>i. i < k \<Longrightarrow> f (xs ! i) \<noteq> Greater"
    and "\<And>i. k \<le> i \<Longrightarrow> i < length xs \<Longrightarrow> f (xs ! i) \<noteq> Less"
proof -
  have "k \<le> length xs \<and> (\<forall>i<k. f (xs ! i) \<noteq> Greater) \<and>
    (\<forall>i. k \<le> i \<longrightarrow> i < length xs \<longrightarrow> f (xs ! i) \<noteq> Less)"
  proof (cases "xs = []")
    case True
    then show ?thesis by (simp add: k_def binary_search_by_def)
  next
    case False
    define b where "b = bs_loop (\<lambda>i. f (xs ! i)) 0 (length xs)"
    have mono: "f (xs ! j) = Less \<Longrightarrow> f (xs ! i) = Less" "f (xs ! i) = Greater \<Longrightarrow> f (xs ! j) = Greater"
      if "i \<le> j" "j < length xs" for i j
      using assms(1) that unfolding probe_mono_def by blast+
    have "b < length xs \<and> (b = 0 \<or> f (xs ! b) \<noteq> Greater) \<and>
      (\<forall>j. b < j \<longrightarrow> j < length xs \<longrightarrow> f (xs ! j) = Greater)"
      unfolding b_def by (rule bs_loop_split) (use False mono(2) in auto)
    then have b: "b < length xs" "b = 0 \<or> f (xs ! b) \<noteq> Greater"
      "\<And>j. b < j \<Longrightarrow> j < length xs \<Longrightarrow> f (xs ! j) = Greater"
      by blast+
    have k: "k = (if f (xs ! b) = Less then Suc b else b)"
      using False by (auto simp: k_def binary_search_by_def b_def Let_def)
    show ?thesis
    proof (cases "f (xs ! b)")
      case Less
      have "f (xs ! i) = Less" if "i < Suc b" for i
        using mono(1) [of i b] that b(1) Less by simp
      moreover have "f (xs ! i) = Greater" if "Suc b \<le> i" "i < length xs" for i
        using b(3) that by simp
      ultimately show ?thesis using b(1) Less by (simp add: k)
    next
      case Equal
      have "f (xs ! i) \<noteq> Greater" if "i < b" for i
        using mono(2) [of i b] that b(1) Equal by auto
      moreover have "f (xs ! i) \<noteq> Less" if "b \<le> i" "i < length xs" for i
        using mono(1) [of b i] that Equal by auto
      ultimately show ?thesis using b(1) Equal by (simp add: k)
    next
      case Greater
      with b(2) have "b = 0" by simp
      have "f (xs ! i) = Greater" if "i < length xs" for i
        using mono(2) [of b i] that Greater \<open>b = 0\<close> by simp
      then show ?thesis using Greater \<open>b = 0\<close> by (simp add: k)
    qed
  qed
  then show "k \<le> length xs" "\<And>i. i < k \<Longrightarrow> f (xs ! i) \<noteq> Greater"
    "\<And>i. k \<le> i \<Longrightarrow> i < length xs \<Longrightarrow> f (xs ! i) \<noteq> Less"
    by blast+
qed

lemma binary_search_parts:
  assumes "probe_mono f xs"
  defines "k \<equiv> search_index (binary_search_by f xs)"
  shows "\<And>x. x \<in> set (take k xs) \<Longrightarrow> f x \<noteq> Greater"
    and "\<And>x. x \<in> set (drop k xs) \<Longrightarrow> f x \<noteq> Less"
  using binary_search_split [OF assms(1), folded k_def]
  by (auto simp: in_set_conv_nth)

lemma probe_mono_two:
  assumes "\<And>e. e \<in> set xs \<Longrightarrow> f e = (if p e then Less else Greater)"
    and "sorted_wrt (\<lambda>x y. p y \<longrightarrow> p x) xs"
  shows "probe_mono f xs"
  unfolding probe_mono_def
proof (intro allI impI)
  fix i j assume ij: "i \<le> j" "j < length xs"
  then have "p (xs ! j) \<longrightarrow> p (xs ! i)"
    using sorted_wrt_nth_less [OF assms(2), of i j] by (cases "i = j") auto
  with ij show "(f (xs ! j) = Less \<longrightarrow> f (xs ! i) = Less) \<and> (f (xs ! i) = Greater \<longrightarrow> f (xs ! j) = Greater)"
    by (simp add: assms(1))
qed

text \<open>Where a test holds of a prefix, taking and filtering agree.\<close>

lemma filter_split:
  assumes "sorted_wrt (\<lambda>x y. p y \<longrightarrow> p x) xs"
  shows "takeWhile p xs = filter p xs" and "dropWhile p xs = filter (\<lambda>x. \<not> p x) xs"
  using assms by (induction xs) (auto simp: filter_empty_conv filter_id_conv intro!: filter_True [symmetric])

lemma partition_point_takeWhile:
  assumes "\<And>i j. i \<le> j \<Longrightarrow> j < length xs \<Longrightarrow> p (xs ! j) \<Longrightarrow> p (xs ! i)"
  shows "partition_point p xs = length (takeWhile p xs)"
proof -
  let ?f = "\<lambda>x. if p x then Less else Greater"
  have m: "probe_mono ?f xs"
    using assms unfolding probe_mono_def by (auto split: if_splits)
  define k where "k = partition_point p xs"
  note split = binary_search_split [OF m, folded partition_point_def, folded k_def]
  have k: "k \<le> length xs" by (rule split(1))
  have "p (xs ! i)" if "i < k" for i
    using split(2) [OF that] by (auto split: if_splits)
  moreover have "\<not> p (xs ! i)" if "k \<le> i" "i < length xs" for i
    using split(3) [OF that] by (auto split: if_splits)
  ultimately have "takeWhile p xs = take k xs"
    using k by (auto intro!: takeWhile_eq_take_P_nth)
  then show ?thesis using k by (simp add: k_def)
qed

lemma partition_point_sorted:
  assumes "sorted_wrt (\<lambda>x y. p y \<longrightarrow> p x) xs"
  shows "partition_point p xs = length (takeWhile p xs)"
  by (rule partition_point_takeWhile)
    (metis assms le_neq_implies_less sorted_wrt_nth_less)

lemma set_vec_insert [simp]: "set (vec_insert i x xs) = insert x (set xs)"
  by (simp add: vec_insert_def) (metis append_take_drop_id set_append)

lemma mset_vec_insert [simp]: "mset (vec_insert i x xs) = add_mset x (mset xs)"
  by (simp add: vec_insert_def) (metis append_take_drop_id mset_append)

lemma sorted_vec_insert:
  assumes "sorted_wrt R xs" "\<And>y. y \<in> set (take i xs) \<Longrightarrow> R y x" "\<And>y. y \<in> set (drop i xs) \<Longrightarrow> R x y"
  shows "sorted_wrt R (vec_insert i x xs)"
proof -
  have "sorted_wrt R (take i xs @ drop i xs)" using assms(1) by simp
  then show ?thesis
    unfolding vec_insert_def sorted_wrt_append using assms(2,3) by (auto simp: sorted_wrt_append)
qed

subsection \<open>Facts about the ordered map\<close>

lemma bt_inv_Nil [simp]: "bt_inv []"
  by (simp add: bt_inv_def)

lemma bt_inv_Cons: "bt_inv (e # m) \<longleftrightarrow> (\<forall>k\<in>fst ` set m. fst e < k) \<and> bt_inv m"
  by (auto simp: bt_inv_def)

lemma fst_set_bt_insert: "fst ` set (bt_insert k v m) = insert k (fst ` set m)"
  by (induction k v m rule: bt_insert.induct) (auto split: ordering.splits)

lemma bt_inv_insert [btree_simps]: "bt_inv m \<Longrightarrow> bt_inv (bt_insert k v m)"
  by (induction k v m rule: bt_insert.induct)
    (auto simp: bt_inv_Cons fst_set_bt_insert split: ordering.splits)

lemma bt_get_insert [btree_simps]: "bt_get (bt_insert k v m) = (bt_get m)(k \<mapsto> v)"
  by (induction k v m rule: bt_insert.induct)
    (auto simp: bt_get_def fun_eq_iff split: ordering.splits)

lemma bt_inv_remove [btree_simps]: "bt_inv m \<Longrightarrow> bt_inv (bt_remove k m)"
  by (induction m) (auto simp: bt_inv_Cons bt_remove_def)

lemma bt_get_remove [btree_simps]: "bt_get (bt_remove k m) = (bt_get m)(k := None)"
  by (induction m) (auto simp: bt_get_def bt_remove_def fun_eq_iff)

lemma bt_get_dom: "k \<in> fst ` set m \<longleftrightarrow> bt_get m k \<noteq> None"
  by (simp add: bt_get_def map_of_eq_None_iff)

lemma bt_get_Nil [simp]: "bt_get [] k = None"
  by (simp add: bt_get_def)

lemma bt_last_key_None [btree_simps]: "bt_last_key m = None \<longleftrightarrow> (\<forall>k. bt_get m k = None)"
proof (cases m)
  case (Cons e m')
  then have "bt_get m (fst e) \<noteq> None" by (cases e) (simp add: bt_get_def)
  with Cons show ?thesis by (auto simp: bt_last_key_def)
qed (simp add: bt_last_key_def)

lemma bt_last_key_Some:
  assumes "bt_inv m" "bt_last_key m = Some k"
  shows "bt_get m k \<noteq> None" and "\<And>k'. bt_get m k' \<noteq> None \<Longrightarrow> k' \<le> k"
proof -
  from assms(2) have m: "m \<noteq> []" "k = fst (last m)"
    by (auto simp: bt_last_key_def split: if_splits)
  then show "bt_get m k \<noteq> None"
    by (metis bt_get_dom image_eqI last_in_set)
  obtain m' e where e: "m = m' @ [e]"
    using m(1) by (metis rev_exhaust)
  then have "\<forall>k'\<in>fst ` set m. k' \<le> k"
    using assms(1) m(2) by (auto simp: bt_inv_def sorted_wrt_append intro: less_imp_le)
  then show "\<And>k'. bt_get m k' \<noteq> None \<Longrightarrow> k' \<le> k"
    using bt_get_dom by metis
qed

end
