(* ===== verification/User_Comparator.thy ===== *)
theory User_Comparator
  imports Prelude
begin

text \<open>
  \<open>comparator.rs\<close>: user keys are ordered by a comparator the tree is opened with. The trait's
  contract is the locale \<open>user_comparator\<close>; the default comparator (lexicographic byte order)
  interprets it, so every lemma proved in the locale holds for it.
\<close>

type_synonym comparator = "user_key \<Rightarrow> user_key \<Rightarrow> ordering"

definition default_compare :: comparator where
  "default_compare a b = slice_cmp a b"

definition same_user_key :: "user_key \<Rightarrow> user_key \<Rightarrow> bool" where
  "same_user_key a b \<longleftrightarrow> a = b"

text \<open>The order a comparator induces, in the spelling the source uses for its guards.\<close>

definition kle :: "comparator \<Rightarrow> user_key \<Rightarrow> user_key \<Rightarrow> bool" where
  "kle c a b \<longleftrightarrow> c a b \<noteq> Greater"

definition klt :: "comparator \<Rightarrow> user_key \<Rightarrow> user_key \<Rightarrow> bool" where
  "klt c a b \<longleftrightarrow> c a b = Less"

locale user_comparator =
  fixes cmp :: comparator
  assumes cmp_antisym: "cmp a b = Less \<longleftrightarrow> cmp b a = Greater"
    and cmp_trans: "cmp a b = Less \<Longrightarrow> cmp b c = Less \<Longrightarrow> cmp a c = Less"
    and cmp_refl: "cmp a a = Equal"
    and cmp_bytewise: "cmp a b = Equal \<Longrightarrow> a = b"
begin

lemma cmp_Equal: "cmp a b = Equal \<longleftrightarrow> a = b"
  using cmp_refl cmp_bytewise by blast

lemma cmp_klt:
  "cmp a b = Less \<longleftrightarrow> klt cmp a b"
  "cmp a b = Greater \<longleftrightarrow> klt cmp b a"
  using cmp_antisym by (auto simp: klt_def)

lemma klt_kle: "klt cmp a b \<longleftrightarrow> kle cmp a b \<and> \<not> kle cmp b a"
  using cmp_antisym [of a b] cmp_antisym [of b a] by (auto simp: klt_def kle_def)

lemma kle_total: "kle cmp a b \<or> kle cmp b a"
  using cmp_antisym [of a b] cmp_antisym [of b a] by (auto simp: kle_def)

lemma kle_refl: "kle cmp a a"
  by (simp add: kle_def cmp_refl)

lemma kle_antisym: "kle cmp a b \<Longrightarrow> kle cmp b a \<Longrightarrow> a = b"
  using cmp_antisym [of a b] cmp_antisym [of b a] cmp_bytewise
  by (auto simp: kle_def cmp_simps)

lemma kle_trans: "kle cmp a b \<Longrightarrow> kle cmp b c \<Longrightarrow> kle cmp a c"
  using cmp_trans [of a b c] cmp_bytewise by (auto simp: kle_def cmp_simps)

end

sublocale user_comparator \<subseteq> keys: linorder "kle cmp" "klt cmp"
  by unfold_locales (use klt_kle kle_total kle_refl kle_antisym kle_trans in blast)+

context user_comparator begin

lemmas key_order = cmp_klt cmp_Equal keys.not_less keys.not_le

lemma cmp_neq_Greater: "cmp a b \<noteq> Greater \<longleftrightarrow> kle cmp a b"
  by (simp add: kle_def)

lemma cmp_neq_Less: "cmp a b \<noteq> Less \<longleftrightarrow> kle cmp b a"
  by (simp add: key_order)

end

lemma user_comparator_default: "user_comparator default_compare"
  by unfold_locales (auto simp: default_compare_def slice_cmp_ord_cmp)

interpretation default_cmp: user_comparator default_compare
  by (rule user_comparator_default)

end
