(* ===== verification/Internal_Key.thy ===== *)
theory Internal_Key
  imports User_Comparator
begin

text \<open>
  \<open>value_type.rs\<close>, \<open>key.rs\<close> and \<open>value.rs\<close>: the versioned key-value pairs every other
  component carries. An internal key is ordered by user key ascending, then by sequence number
  descending, so that the newest version of a key comes first.
\<close>

subsection \<open>Value types\<close>

datatype value_type = Value | Tombstone | WeakTombstone | MergeOperand | Indirection

definition is_tombstone_type :: "value_type \<Rightarrow> bool" where
  "is_tombstone_type t \<longleftrightarrow> t = Tombstone \<or> t = WeakTombstone"

definition is_merge_operand :: "value_type \<Rightarrow> bool" where
  "is_merge_operand t \<longleftrightarrow> t = MergeOperand"

definition is_indirection :: "value_type \<Rightarrow> bool" where
  "is_indirection t \<longleftrightarrow> t = Indirection"

definition value_type_of_u8 :: "u8 \<Rightarrow> value_type option" where
  "value_type_of_u8 b =
     (if b = 0 then Some Value else if b = 1 then Some Tombstone
      else if b = 2 then Some WeakTombstone else if b = 3 then Some MergeOperand
      else if b = 4 then Some Indirection else None)"

fun u8_of_value_type :: "value_type \<Rightarrow> u8" where
  "u8_of_value_type Value = 0"
| "u8_of_value_type Tombstone = 1"
| "u8_of_value_type WeakTombstone = 2"
| "u8_of_value_type MergeOperand = 3"
| "u8_of_value_type Indirection = 4"

subsection \<open>Internal keys and values\<close>

record internal_key =
  user_key :: user_key
  seqno :: seqno
  value_type :: value_type

record internal_value =
  key :: internal_key
  val :: user_value

abbreviation ukey :: "internal_value \<Rightarrow> user_key" where
  "ukey e \<equiv> user_key (key e)"

abbreviation eseqno :: "internal_value \<Rightarrow> seqno" where
  "eseqno e \<equiv> seqno (key e)"

abbreviation etype :: "internal_value \<Rightarrow> value_type" where
  "etype e \<equiv> value_type (key e)"

text \<open>\<open>PartialEq\<close> ignores the value type.\<close>

definition internal_key_eq :: "internal_key \<Rightarrow> internal_key \<Rightarrow> bool" where
  "internal_key_eq a b \<longleftrightarrow> user_key a = user_key b \<and> seqno a = seqno b"

definition internal_key_new :: "user_key \<Rightarrow> seqno \<Rightarrow> value_type \<Rightarrow> lsm_error + internal_key" where
  "internal_key_new k s t =
     (if length k \<le> 65535 then Inr \<lparr>user_key = k, seqno = s, value_type = t\<rparr> else Inl Panicked)"

definition compare_with :: "comparator \<Rightarrow> internal_key \<Rightarrow> internal_key \<Rightarrow> ordering" where
  "compare_with c a b =
     then_with (c (user_key a) (user_key b)) (ord_cmp (seqno b) (seqno a))"

text \<open>\<open>Ord for InternalKey\<close>: the tuple order on \<open>(user_key, Reverse(seqno))\<close>.\<close>

definition internal_key_cmp :: "internal_key \<Rightarrow> internal_key \<Rightarrow> ordering" where
  "internal_key_cmp a b =
     then_with (slice_cmp (user_key a) (user_key b)) (reverse_ord (ord_cmp (seqno a) (seqno b)))"

definition is_tombstone :: "internal_value \<Rightarrow> bool" where
  "is_tombstone e \<longleftrightarrow> is_tombstone_type (etype e)"

definition internal_value_new :: "internal_key \<Rightarrow> user_value \<Rightarrow> lsm_error + internal_value" where
  "internal_value_new k v =
     (if user_key k = [] then Inl Panicked
      else if length v < 2 ^ 32 then Inr \<lparr>key = k, val = v\<rparr> else Inl Panicked)"

definition from_components ::
  "user_key \<Rightarrow> user_value \<Rightarrow> seqno \<Rightarrow> value_type \<Rightarrow> lsm_error + internal_value" where
  "from_components k v s t =
     (case internal_key_new k s t of Inl e \<Rightarrow> Inl e | Inr ik \<Rightarrow> internal_value_new ik v)"

definition new_tombstone :: "user_key \<Rightarrow> seqno \<Rightarrow> lsm_error + internal_value" where
  "new_tombstone k s = from_components k [] s Tombstone"

definition new_weak_tombstone :: "user_key \<Rightarrow> seqno \<Rightarrow> lsm_error + internal_value" where
  "new_weak_tombstone k s = from_components k [] s WeakTombstone"

definition new_merge_operand :: "user_key \<Rightarrow> user_value \<Rightarrow> seqno \<Rightarrow> lsm_error + internal_value" where
  "new_merge_operand k v s = from_components k v s MergeOperand"

text \<open>A well-formed value: what the constructors admit.\<close>

definition wf_value :: "internal_value \<Rightarrow> bool" where
  "wf_value e \<longleftrightarrow> ukey e \<noteq> [] \<and> length (ukey e) \<le> 65535 \<and> length (val e) < 2 ^ 32"

text \<open>The order of versioned streams: ascending keys, newest version first.\<close>

definition entry_before :: "comparator \<Rightarrow> internal_value \<Rightarrow> internal_value \<Rightarrow> bool" where
  "entry_before c a b \<longleftrightarrow> compare_with c (key a) (key b) = Less"

abbreviation version_sorted :: "comparator \<Rightarrow> internal_value list \<Rightarrow> bool" where
  "version_sorted c \<equiv> sorted_wrt (entry_before c)"

subsection \<open>Lemmas\<close>

lemma from_components_Inr:
  "from_components k v s t = Inr e \<longleftrightarrow>
     e = \<lparr>key = \<lparr>user_key = k, seqno = s, value_type = t\<rparr>, val = v\<rparr> \<and> wf_value e"
  by (auto simp: from_components_def internal_key_new_def internal_value_new_def wf_value_def)

lemma from_components_Inl: "from_components k v s t = Inl e \<Longrightarrow> e = Panicked"
  by (auto simp: from_components_def internal_key_new_def internal_value_new_def split: if_splits)

lemma compare_with_default:
  "compare_with default_compare a b = internal_key_cmp a b"
  by (auto simp: compare_with_def internal_key_cmp_def default_compare_def ord_cmp_def)

context user_comparator begin

lemma entry_before_iff:
  "entry_before cmp a b \<longleftrightarrow> klt cmp (ukey a) (ukey b) \<or> ukey a = ukey b \<and> eseqno b < eseqno a"
  by (simp add: entry_before_def compare_with_def key_order)

lemma compare_with_Equal:
  "compare_with cmp a b = Equal \<longleftrightarrow> internal_key_eq a b"
  by (auto simp: compare_with_def internal_key_eq_def key_order)

lemma compare_with_antisym:
  "compare_with cmp a b = Less \<longleftrightarrow> compare_with cmp b a = Greater"
  by (auto simp: compare_with_def key_order)

lemma compare_with_trans:
  "compare_with cmp a b = Less \<Longrightarrow> compare_with cmp b d = Less \<Longrightarrow> compare_with cmp a d = Less"
  by (auto simp: compare_with_def key_order dest: keys.less_trans)

lemma entry_before_trans:
  "entry_before cmp a b \<Longrightarrow> entry_before cmp b d \<Longrightarrow> entry_before cmp a d"
  unfolding entry_before_def by (rule compare_with_trans)

lemma entry_before_kle: "entry_before cmp a b \<Longrightarrow> kle cmp (ukey a) (ukey b)"
  by (auto simp: entry_before_iff keys.le_less)

end

text \<open>
  The type byte written to disk decodes to the type it was written from, and every byte that
  decodes at all is that type's own byte (so bytes 5 to 255 are rejected).
\<close>

theorem value_type_byte_roundtrip:
  "value_type_of_u8 (u8_of_value_type t) = Some t \<and>
   (value_type_of_u8 b = Some t' \<longleftrightarrow> b = u8_of_value_type t')"
  by (cases t; cases t') (auto simp: value_type_of_u8_def)

text \<open>
  Under every comparator that keeps the trait's contract, the internal key order is a strict
  total order in which keys ascend and, for one user key, sequence numbers descend; equality of
  the order is the equality of \<open>PartialEq\<close> (user key and sequence number, type ignored).
\<close>

theorem internal_key_total_order:
  assumes "user_comparator c"
  shows "(compare_with c a b = Less \<longleftrightarrow>
            klt c (user_key a) (user_key b) \<or> user_key a = user_key b \<and> seqno b < seqno a) \<and>
    (compare_with c a b = Equal \<longleftrightarrow> internal_key_eq a b) \<and>
    (compare_with c a b = Less \<longleftrightarrow> compare_with c b a = Greater) \<and>
    (compare_with c a b = Less \<longrightarrow> compare_with c b d = Less \<longrightarrow> compare_with c a d = Less)"
  using user_comparator.compare_with_Equal [OF assms] user_comparator.compare_with_antisym [OF assms]
    user_comparator.compare_with_trans [OF assms] user_comparator.cmp_Equal [OF assms]
  by (auto simp: compare_with_def klt_def)

theorem internal_key_total_order_witness:
  "compare_with default_compare \<lparr>user_key = [1], seqno = 7, value_type = Value\<rparr>
      \<lparr>user_key = [1], seqno = 5, value_type = Tombstone\<rparr> = Less \<and>
   compare_with default_compare \<lparr>user_key = [1], seqno = 5, value_type = Tombstone\<rparr>
      \<lparr>user_key = [1, 0], seqno = 9, value_type = Value\<rparr> = Less \<and>
   compare_with default_compare \<lparr>user_key = [1], seqno = 7, value_type = Value\<rparr>
      \<lparr>user_key = [1, 0], seqno = 9, value_type = Value\<rparr> = Less"
proof -
  note t = internal_key_total_order [OF user_comparator_default,
      of "\<lparr>user_key = [1], seqno = 7, value_type = Value\<rparr>"
        "\<lparr>user_key = [1], seqno = 5, value_type = Tombstone\<rparr>"
        "\<lparr>user_key = [1, 0], seqno = 9, value_type = Value\<rparr>"]
  have "compare_with default_compare \<lparr>user_key = [1], seqno = 7, value_type = Value\<rparr>
      \<lparr>user_key = [1], seqno = 5, value_type = Tombstone\<rparr> = Less"
    by (simp add: compare_with_def default_compare_def)
  moreover have "compare_with default_compare \<lparr>user_key = [1], seqno = 5, value_type = Tombstone\<rparr>
      \<lparr>user_key = [1, 0], seqno = 9, value_type = Value\<rparr> = Less"
    by (simp add: compare_with_def default_compare_def)
  ultimately show ?thesis using t by blast
qed

end
