(* ===== verification/Seqno_Counter.thy ===== *)
theory Seqno_Counter
  imports Prelude
begin

text \<open>
  \<open>seqno.rs\<close>: the sequence number generator. The trait's contract is the locale
  \<open>seqno_generator\<close>; the atomic counter of the crate (each of its operations is one atomic
  read-modify-write, so a history is a sequence of operations) interprets it.
\<close>

definition MAX_SEQNO :: seqno where
  "MAX_SEQNO = 0x7FFFFFFFFFFFFFFF"

definition counter_new :: "seqno \<Rightarrow> lsm_error + seqno" where
  "counter_new prev = (if prev \<le> MAX_SEQNO then Inr prev else Inl Panicked)"

text \<open>\<open>next\<close>: the value handed out and the counter it leaves; a panic leaves the counter alone.\<close>

definition counter_next :: "seqno \<Rightarrow> (lsm_error + seqno) \<times> seqno" where
  "counter_next current =
     (if MAX_SEQNO \<le> current then (Inl Panicked, current) else (Inr current, current + 1))"

definition counter_get :: "seqno \<Rightarrow> seqno" where
  "counter_get current = current"

definition counter_set :: "seqno \<Rightarrow> seqno \<Rightarrow> (lsm_error + unit) \<times> seqno" where
  "counter_set v current = (if v \<le> MAX_SEQNO then (Inr (), v) else (Inl Panicked, current))"

definition counter_fetch_max :: "seqno \<Rightarrow> seqno \<Rightarrow> seqno" where
  "counter_fetch_max v current = max current (min v MAX_SEQNO)"

text \<open>
  The contract: \<open>next\<close> hands out the current value and moves strictly past it, nothing else moves
  the generator backwards, and no value at or above \<open>MAX_SEQNO\<close> is ever handed out.
\<close>

datatype gen_op = OpNext | OpGet | OpFetchMax seqno

text \<open>The numbers a history of operations hands out, in order.\<close>

fun gen_run ::
  "('g \<Rightarrow> (lsm_error + seqno) \<times> 'g) \<Rightarrow> (seqno \<Rightarrow> 'g \<Rightarrow> 'g) \<Rightarrow> 'g \<Rightarrow> gen_op list \<Rightarrow> seqno list" where
  "gen_run nx fm g [] = []"
| "gen_run nx fm g (OpNext # ops) =
     (case nx g of (Inr s, g') \<Rightarrow> s # gen_run nx fm g' ops | (Inl _, g') \<Rightarrow> gen_run nx fm g' ops)"
| "gen_run nx fm g (OpGet # ops) = gen_run nx fm g ops"
| "gen_run nx fm g (OpFetchMax v # ops) = gen_run nx fm (fm v g) ops"

text \<open>A history of the counter itself, \<open>set\<close> left out (it may move the counter back).\<close>

definition counter_run :: "seqno \<Rightarrow> gen_op list \<Rightarrow> seqno list" where
  "counter_run = gen_run counter_next counter_fetch_max"

locale seqno_generator =
  fixes gen_next :: "'g \<Rightarrow> (lsm_error + seqno) \<times> 'g"
    and gen_get :: "'g \<Rightarrow> seqno"
    and gen_fetch_max :: "seqno \<Rightarrow> 'g \<Rightarrow> 'g"
    and gen_inv :: "'g \<Rightarrow> bool"
  assumes inv_next: "gen_inv g \<Longrightarrow> gen_inv (snd (gen_next g))"
    and inv_fetch_max: "gen_inv g \<Longrightarrow> gen_inv (gen_fetch_max v g)"
    and next_value: "gen_inv g \<Longrightarrow> fst (gen_next g) = Inr s \<Longrightarrow>
      s = gen_get g \<and> s < MAX_SEQNO \<and> s < gen_get (snd (gen_next g))"
    and next_mono: "gen_inv g \<Longrightarrow> gen_get g \<le> gen_get (snd (gen_next g))"
    and fetch_max_mono: "gen_inv g \<Longrightarrow> gen_get g \<le> gen_get (gen_fetch_max v g)"
begin

lemma next_inv: "gen_inv g \<Longrightarrow> gen_next g = (r, g') \<Longrightarrow> gen_inv g' \<and> gen_get g \<le> gen_get g'"
  using inv_next [of g] next_mono [of g] by simp

lemma next_Inr:
  "gen_inv g \<Longrightarrow> gen_next g = (Inr s, g') \<Longrightarrow> s = gen_get g \<and> s < MAX_SEQNO \<and> s < gen_get g'"
  using next_value [of g s] by (metis fst_conv snd_conv)

lemma gen_run_above:
  "gen_inv g \<Longrightarrow> s \<in> set (gen_run gen_next gen_fetch_max g ops) \<Longrightarrow> gen_get g \<le> s \<and> s < MAX_SEQNO"
proof (induction ops arbitrary: g)
  case (Cons op ops)
  show ?case
  proof (cases op)
    case OpNext
    obtain r g' where n: "gen_next g = (r, g')" by fastforce
    with Cons.prems(1) have g': "gen_inv g'" "gen_get g \<le> gen_get g'" using next_inv by blast+
    from Cons.prems(2) OpNext n consider "r = Inr s" | "s \<in> set (gen_run gen_next gen_fetch_max g' ops)"
      by (auto split: sum.splits)
    then show ?thesis
    proof cases
      case 1
      with next_Inr Cons.prems(1) n show ?thesis by auto
    next
      case 2
      with Cons.IH [OF g'(1)] g'(2) show ?thesis by auto
    qed
  next
    case OpGet
    with Cons show ?thesis by simp
  next
    case (OpFetchMax v)
    with Cons.IH [OF inv_fetch_max [OF Cons.prems(1)]] Cons.prems(2)
    have "gen_get (gen_fetch_max v g) \<le> s \<and> s < MAX_SEQNO" by simp
    with fetch_max_mono [OF Cons.prems(1), of v] show ?thesis by auto
  qed
qed simp

lemma gen_run_strict: "gen_inv g \<Longrightarrow> sorted_wrt (<) (gen_run gen_next gen_fetch_max g ops)"
proof (induction ops arbitrary: g)
  case (Cons op ops)
  show ?case
  proof (cases op)
    case OpNext
    obtain r g' where n: "gen_next g = (r, g')" by fastforce
    with Cons.prems have g': "gen_inv g'" using next_inv by blast
    show ?thesis
    proof (cases r)
      case (Inr t)
      with n next_Inr Cons.prems have "t < gen_get g'" by blast
      then have "\<forall>s\<in>set (gen_run gen_next gen_fetch_max g' ops). t < s"
        using gen_run_above [OF g'] by fastforce
      with n Inr OpNext Cons.IH [OF g'] show ?thesis by simp
    qed (use n OpNext Cons.IH [OF g'] in simp)
  qed (use Cons inv_fetch_max in auto)
qed simp

end

lemma counter_plus1: "c < MAX_SEQNO \<Longrightarrow> unat (c + 1) = Suc (unat c)"
  by (simp add: MAX_SEQNO_def word_less_nat_alt unat_word_ariths)

interpretation counter: seqno_generator counter_next counter_get counter_fetch_max
  "\<lambda>c. c \<le> MAX_SEQNO"
proof (unfold_locales, goal_cases)
  case (1 g)
  then show ?case
    by (auto simp: counter_next_def word_le_nat_alt word_less_nat_alt counter_plus1)
next
  case (2 g v)
  then show ?case by (simp add: counter_fetch_max_def)
next
  case (3 g s)
  then show ?case
    by (auto simp: counter_next_def counter_get_def word_less_nat_alt word_le_nat_alt counter_plus1
        split: if_splits)
next
  case (4 g)
  then show ?case
    by (auto simp: counter_next_def counter_get_def word_less_nat_alt word_le_nat_alt counter_plus1)
next
  case (5 g v)
  then show ?case by (simp add: counter_fetch_max_def counter_get_def)
qed

text \<open>
  C28: from every counter the constructor accepts, whatever interleaving of \<open>next\<close>, \<open>get\<close> and
  \<open>fetch_max\<close> runs, the sequence numbers handed out are strictly increasing, at least the
  starting value and below \<open>MAX_SEQNO\<close>, so the reserved top bit is never set.
\<close>

theorem counter_hands_out_increasing:
  assumes "counter_new prev = Inr c"
  shows "sorted_wrt (<) (counter_run c ops) \<and>
    (\<forall>s\<in>set (counter_run c ops). prev \<le> s \<and> s < MAX_SEQNO)"
proof -
  from assms have "c = prev" "c \<le> MAX_SEQNO"
    by (auto simp: counter_new_def split: if_splits)
  then show ?thesis
    using counter.gen_run_strict [of c ops] counter.gen_run_above [of c _ ops]
    by (auto simp: counter_run_def counter_get_def)
qed

theorem counter_hands_out_increasing_witness:
  "counter_new 5 = Inr 5 \<and>
   counter_run 5 [OpNext, OpFetchMax 9, OpGet, OpNext, OpFetchMax 0xFFFFFFFFFFFFFFFF, OpNext] = [5, 9] \<and>
   sorted_wrt (<) (counter_run 5 [OpNext, OpFetchMax 9, OpNext])"
proof -
  have c: "counter_new 5 = Inr 5" by (simp add: counter_new_def MAX_SEQNO_def)
  show ?thesis
    using c counter_hands_out_increasing [OF c, of "[OpNext, OpFetchMax 9, OpNext]"]
    by (simp add: counter_run_def counter_next_def counter_fetch_max_def MAX_SEQNO_def)
qed

end
