(* ===== verification/Range_Tombstone.thy ===== *)
theory Range_Tombstone
  imports Internal_Key
begin

text \<open>
  \<open>range_tombstone.rs\<close>: a range tombstone deletes the keys of a half-open interval at a
  sequence number. The comparator-free operations of the source are the comparator-aware ones at
  the default comparator.
\<close>

record range_tombstone =
  rt_start :: user_key
  rt_end :: user_key
  rt_seqno :: seqno

definition contains_key_with :: "comparator \<Rightarrow> range_tombstone \<Rightarrow> user_key \<Rightarrow> bool" where
  "contains_key_with c rt k \<longleftrightarrow> c (rt_start rt) k \<noteq> Greater \<and> c k (rt_end rt) = Less"

definition contains_key :: "range_tombstone \<Rightarrow> user_key \<Rightarrow> bool" where
  "contains_key rt k \<longleftrightarrow> contains_key_with default_compare rt k"

definition visible_at :: "range_tombstone \<Rightarrow> seqno \<Rightarrow> bool" where
  "visible_at rt read_seqno \<longleftrightarrow> rt_seqno rt < read_seqno"

definition should_suppress_with ::
  "comparator \<Rightarrow> range_tombstone \<Rightarrow> user_key \<Rightarrow> seqno \<Rightarrow> seqno \<Rightarrow> bool" where
  "should_suppress_with c rt k kv_seqno read_seqno \<longleftrightarrow>
     visible_at rt read_seqno \<and> contains_key_with c rt k \<and> kv_seqno < rt_seqno rt"

definition should_suppress :: "range_tombstone \<Rightarrow> user_key \<Rightarrow> seqno \<Rightarrow> seqno \<Rightarrow> bool" where
  "should_suppress rt k kv_seqno read_seqno \<longleftrightarrow>
     should_suppress_with default_compare rt k kv_seqno read_seqno"

definition intersect_opt_with ::
  "comparator \<Rightarrow> range_tombstone \<Rightarrow> user_key \<Rightarrow> user_key \<Rightarrow> range_tombstone option" where
  "intersect_opt_with c rt mn mx =
     (let new_start = (if c (rt_start rt) mn = Greater then rt_start rt else mn);
          new_end = (if c (rt_end rt) mx = Less then rt_end rt else mx)
      in if c new_start new_end = Less
         then Some \<lparr>rt_start = new_start, rt_end = new_end, rt_seqno = rt_seqno rt\<rparr>
         else None)"

definition fully_covers_with :: "comparator \<Rightarrow> range_tombstone \<Rightarrow> user_key \<Rightarrow> user_key \<Rightarrow> bool" where
  "fully_covers_with c rt mn mx \<longleftrightarrow> c (rt_start rt) mn \<noteq> Greater \<and> c mx (rt_end rt) = Less"

definition cmp_with_comparator :: "comparator \<Rightarrow> range_tombstone \<Rightarrow> range_tombstone \<Rightarrow> ordering" where
  "cmp_with_comparator c a b =
     then_with (then_with (c (rt_start a) (rt_start b)) (ord_cmp (rt_seqno b) (rt_seqno a)))
       (c (rt_end a) (rt_end b))"

text \<open>\<open>Iterator::min_by\<close> keeps the first of equal minima.\<close>

fun min_by :: "('a \<Rightarrow> 'a \<Rightarrow> ordering) \<Rightarrow> 'a list \<Rightarrow> 'a option" where
  "min_by c [] = None"
| "min_by c (x # xs) = Some (foldl (\<lambda>m y. if c m y = Greater then y else m) x xs)"

definition sentinel :: "range_tombstone list \<Rightarrow> (user_key \<times> seqno) option" where
  "sentinel ts =
     map_option (\<lambda>rt. (rt_start rt, rt_seqno rt))
       (min_by (\<lambda>a b. then_with (ord_cmp (rt_seqno a) (rt_seqno b))
                        (slice_cmp (rt_start a) (rt_start b))) ts)"

record covering_rt =
  cov_start :: user_key
  cov_end :: user_key
  cov_seqno :: seqno

definition covering_of :: "range_tombstone \<Rightarrow> covering_rt" where
  "covering_of rt = \<lparr>cov_start = rt_start rt, cov_end = rt_end rt, cov_seqno = rt_seqno rt\<rparr>"

definition covers_table_with ::
  "comparator \<Rightarrow> covering_rt \<Rightarrow> user_key \<Rightarrow> user_key \<Rightarrow> seqno \<Rightarrow> bool" where
  "covers_table_with c cov table_min table_max table_max_seqno \<longleftrightarrow>
     c (cov_start cov) table_min \<noteq> Greater \<and> c table_max (cov_end cov) = Less \<and>
     table_max_seqno < cov_seqno cov"

text \<open>
  The loop over \<open>iter_mut().enumerate().rev()\<close> runs from the last byte: it increments the last
  byte below \<open>0xFF\<close> and truncates behind it. The argument is the key reversed.
\<close>

fun bump_from_end :: "u8 list \<Rightarrow> user_key option" where
  "bump_from_end [] = None"
| "bump_from_end (b # bs) = (if b < 255 then Some (rev ((b + 1) # bs)) else bump_from_end bs)"

definition upper_bound_exclusive :: "user_key \<Rightarrow> user_key option" where
  "upper_bound_exclusive k = (if length k < 65535 then Some (k @ [0]) else bump_from_end (rev k))"

subsection \<open>Lemmas\<close>

context user_comparator begin

lemma contains_key_iff:
  "contains_key_with cmp rt k \<longleftrightarrow> kle cmp (rt_start rt) k \<and> klt cmp k (rt_end rt)"
  by (simp add: contains_key_with_def cmp_neq_Greater klt_def)

lemma fully_covers_iff:
  "fully_covers_with cmp rt mn mx \<longleftrightarrow> kle cmp (rt_start rt) mn \<and> klt cmp mx (rt_end rt)"
  by (simp add: fully_covers_with_def cmp_neq_Greater klt_def)

lemma rt_cmp_Greater:
  "cmp_with_comparator cmp a b = Greater \<longleftrightarrow>
     klt cmp (rt_start b) (rt_start a) \<or> rt_start a = rt_start b \<and>
       (rt_seqno a < rt_seqno b \<or> rt_seqno a = rt_seqno b \<and> klt cmp (rt_end b) (rt_end a))"
  by (auto simp: cmp_with_comparator_def key_order)

lemma rt_cmp_Less:
  "cmp_with_comparator cmp a b = Less \<longleftrightarrow> cmp_with_comparator cmp b a = Greater"
  by (auto simp: cmp_with_comparator_def key_order)

lemma rt_cmp_Equal: "cmp_with_comparator cmp a b = Equal \<longleftrightarrow> a = b"
  by (auto simp: cmp_with_comparator_def key_order)

lemma rt_cmp_trans:
  "cmp_with_comparator cmp a b = Less \<Longrightarrow> cmp_with_comparator cmp b d = Less \<Longrightarrow>
   cmp_with_comparator cmp a d = Less"
  by (auto simp: cmp_with_comparator_def key_order dest: keys.less_trans)

lemma rt_cmp_preorder: "cmp_preorder (cmp_with_comparator cmp)"
  unfolding cmp_preorder_def
proof (intro conjI allI impI)
  fix x y z
  show "cmp_with_comparator cmp x y = Greater \<Longrightarrow> cmp_with_comparator cmp y x \<noteq> Greater"
    using rt_cmp_Less [of x y] rt_cmp_Less [of y x] by auto
  show "cmp_with_comparator cmp x y \<noteq> Greater \<Longrightarrow> cmp_with_comparator cmp y z \<noteq> Greater \<Longrightarrow>
    cmp_with_comparator cmp x z \<noteq> Greater"
    using rt_cmp_trans [of x y z] by (auto simp: cmp_simps rt_cmp_Equal)
qed

lemma rt_cmp_start: "cmp_with_comparator cmp a b \<noteq> Greater \<Longrightarrow> kle cmp (rt_start a) (rt_start b)"
  by (auto simp: rt_cmp_Greater keys.not_less)

lemma intersect_contains:
  "contains_key_with cmp rt k \<and> kle cmp mn k \<and> klt cmp k mx \<longleftrightarrow>
   (\<exists>rt'. intersect_opt_with cmp rt mn mx = Some rt' \<and> contains_key_with cmp rt' k)"
proof -
  let ?s = "if cmp (rt_start rt) mn = Greater then rt_start rt else mn"
  let ?e = "if cmp (rt_end rt) mx = Less then rt_end rt else mx"
  have s: "kle cmp ?s k \<longleftrightarrow> kle cmp (rt_start rt) k \<and> kle cmp mn k"
    by (auto simp: key_order dest: keys.less_imp_le keys.order_trans)
  have e: "klt cmp k ?e \<longleftrightarrow> klt cmp k (rt_end rt) \<and> klt cmp k mx"
    by (auto simp: key_order dest: keys.less_trans keys.less_le_trans)
  show ?thesis
    using s e by (auto simp: intersect_opt_with_def Let_def contains_key_iff key_order
        simp del: if_split dest: keys.le_less_trans)
qed

end

text \<open>The byte order facts behind \<open>upper_bound_exclusive\<close>, over the lexicographic list order.\<close>

lemma append_zero_least:
  "(k :: u8 list) < k' \<Longrightarrow> k @ [0] \<le> k'"
  by (induction k k' rule: slice_cmp.induct) (auto simp: word_neq_0_conv)

lemma less_append_zero: "(k :: u8 list) < k @ [0]"
  by (induction k) auto

fun bump_front :: "u8 list \<Rightarrow> u8 list option" where
  "bump_front [] = None"
| "bump_front (b # bs) =
     (case bump_front bs of Some u \<Rightarrow> Some (b # u)
      | None \<Rightarrow> if b < 255 then Some [b + 1] else None)"

lemma bump_from_end_append:
  "bump_from_end (xs @ [b]) =
     (case bump_from_end xs of Some u \<Rightarrow> Some (b # u)
      | None \<Rightarrow> if b < 255 then Some [b + 1] else None)"
  by (induction xs) auto

lemma bump_from_end_front: "bump_from_end (rev k) = bump_front k"
  by (induction k) (auto simp: bump_from_end_append split: option.splits)

lemma u8_less_255: "(a :: u8) < b \<Longrightarrow> a < 255 \<and> a < a + 1 \<and> a + 1 \<le> b"
proof -
  assume "a < b"
  then have "unat a < unat b" "unat b < 256"
    using unsigned_less [of b] by (auto simp: word_less_nat_alt)
  then show ?thesis
    by (simp add: word_less_nat_alt word_le_nat_alt unat_word_ariths)
qed

lemma bump_front_greater: "bump_front k = Some u \<Longrightarrow> k < u \<and> length u \<le> length k"
proof (induction k arbitrary: u)
  case (Cons b bs)
  show ?case
  proof (cases "bump_front bs")
    case None
    with Cons.prems have "b < 255" "u = [b + 1]" by (auto split: if_splits)
    with u8_less_255 [of b 255] show ?thesis by auto
  qed (use Cons in auto)
qed simp

lemma bump_front_least:
  "k < k' \<Longrightarrow> length k' \<le> length k \<Longrightarrow> \<exists>u. bump_front k = Some u \<and> u \<le> k'"
proof (induction k k' rule: slice_cmp.induct)
  case (4 a as b bs)
  show ?case
  proof (cases "a = b")
    case True
    with 4 obtain u where "bump_front as = Some u" "u \<le> bs" by auto
    with True show ?thesis by auto
  next
    case False
    with 4 have ab: "a < b" by auto
    show ?thesis
    proof (cases "bump_front as")
      case None
      with u8_less_255 [OF ab] show ?thesis by (cases bs) (auto simp: le_less)
    qed (use ab in auto)
  qed
qed auto

text \<open>
  C29: for every encodable key (at most 65535 bytes), \<open>upper_bound_exclusive\<close> returns the least
  encodable key strictly above it in byte order, and returns \<open>None\<close> exactly when the key is the
  largest encodable key.
\<close>

theorem upper_bound_exclusive_least:
  assumes "length k \<le> 65535"
  shows "(\<forall>u. upper_bound_exclusive k = Some u \<longrightarrow>
            length u \<le> 65535 \<and> klt default_compare k u \<and>
            (\<forall>k'. length k' \<le> 65535 \<longrightarrow> klt default_compare k k' \<longrightarrow> kle default_compare u k')) \<and>
         (upper_bound_exclusive k = None \<longleftrightarrow>
            (\<forall>k'. length k' \<le> 65535 \<longrightarrow> kle default_compare k' k))"
proof -
  have lt: "klt default_compare a b \<longleftrightarrow> a < b" and le: "kle default_compare a b \<longleftrightarrow> a \<le> b" for a b
    by (auto simp: klt_def kle_def default_compare_def slice_cmp_ord_cmp not_less)
  show ?thesis
  proof (cases "length k < 65535")
    case True
    with less_append_zero [of k] append_zero_least [of k] show ?thesis
      by (auto simp: upper_bound_exclusive_def lt le intro!: exI [of _ "k @ [0]"] dest: leD)
  next
    case False
    with assms have len: "length k = 65535" by simp
    then have ub: "upper_bound_exclusive k = bump_front k"
      by (simp add: upper_bound_exclusive_def bump_from_end_front)
    have none: "bump_front k = None \<longleftrightarrow> (\<forall>k'. length k' \<le> 65535 \<longrightarrow> k' \<le> k)"
      using bump_front_least [of k] bump_front_greater [of k] len
      by (metis leD leI not_None_eq)
    show ?thesis
      unfolding ub lt le none [symmetric]
      using bump_front_greater [of k] bump_front_least [of k] len by fastforce
  qed
qed

theorem upper_bound_exclusive_least_witness:
  "length ([7, 255] :: u8 list) \<le> 65535 \<and> upper_bound_exclusive [7, 255] = Some [7, 255, 0] \<and>
   klt default_compare [7, 255] [7, 255, 0] \<and> kle default_compare [7, 255, 0] [8]"
proof -
  have len: "length ([7, 255] :: u8 list) \<le> 65535" by simp
  have u: "upper_bound_exclusive [7, 255] = Some [7, 255, 0]" by (simp add: upper_bound_exclusive_def)
  have "klt default_compare [7, 255] [8]" by (simp add: klt_def default_compare_def)
  with upper_bound_exclusive_least [OF len] u len show ?thesis by fastforce
qed

text \<open>
  Clipping a tombstone to \<open>[min, max)\<close> deletes exactly the keys of the tombstone inside that
  interval, under every lawful comparator, and keeps its sequence number; an empty intersection
  is \<open>None\<close>.
\<close>

theorem intersect_opt_exact:
  assumes "user_comparator c"
  shows "(contains_key_with c rt k \<and> kle c mn k \<and> klt c k mx \<longleftrightarrow>
      (\<exists>rt'. intersect_opt_with c rt mn mx = Some rt' \<and> contains_key_with c rt' k)) \<and>
    (\<forall>rt'. intersect_opt_with c rt mn mx = Some rt' \<longrightarrow>
       rt_seqno rt' = rt_seqno rt \<and> klt c (rt_start rt') (rt_end rt'))"
  using user_comparator.intersect_contains [OF assms, of rt k mn mx]
  by (auto simp: intersect_opt_with_def Let_def klt_def split: if_splits)

theorem intersect_opt_exact_witness:
  "intersect_opt_with default_compare \<lparr>rt_start = [2], rt_end = [9], rt_seqno = 5\<rparr> [4] [20] =
     Some \<lparr>rt_start = [4], rt_end = [9], rt_seqno = 5\<rparr> \<and>
   contains_key_with default_compare \<lparr>rt_start = [4], rt_end = [9], rt_seqno = 5\<rparr> [8]"
proof -
  let ?rt = "\<lparr>rt_start = [2], rt_end = [9], rt_seqno = 5\<rparr> :: range_tombstone"
  have i: "intersect_opt_with default_compare ?rt [4] [20] = Some \<lparr>rt_start = [4], rt_end = [9], rt_seqno = 5\<rparr>"
    by (simp add: intersect_opt_with_def default_compare_def Let_def ord_cmp_def)
  have k: "contains_key_with default_compare ?rt [8]" "kle default_compare [4] [8]" "klt default_compare [8] [20]"
    by (simp_all add: contains_key_with_def kle_def klt_def default_compare_def ord_cmp_def)
  from intersect_opt_exact [OF user_comparator_default, of ?rt "[8]" "[4]" "[20]"] i k
  show ?thesis by auto
qed

end
