(* ===== verification/Interval_Tree.thy ===== *)
theory Interval_Tree
  imports Range_Tombstone
begin

text \<open>
  \<open>memtable/interval_tree.rs\<close>: the AVL tree of a memtable's range tombstones, augmented with
  the largest end and the extreme sequence numbers of every subtree. \<open>Option<Box<Node>>\<close> is
  \<open>itree\<close>, \<open>None\<close> being \<open>Leaf\<close>. The \<open>i32\<close> height is an \<open>int\<close>: it stays logarithmic in the number
  of nodes (\<open>avl_size\<close> below). A failed \<open>expect\<close> of a rotation is \<open>None\<close>.
\<close>

datatype itree =
    Leaf
  | Node (it_left: itree) (it_tombstone: range_tombstone) (it_right: itree)
      (it_height: int) (it_max_end: user_key) (it_max_seqno: seqno) (it_min_seqno: seqno)

record interval_tree =
  it_root :: itree
  it_len :: nat

definition it_new :: interval_tree where
  "it_new = \<lparr>it_root = Leaf, it_len = 0\<rparr>"

definition node_new :: "range_tombstone \<Rightarrow> itree" where
  "node_new t = Node Leaf t Leaf 1 (rt_end t) (rt_seqno t) (rt_seqno t)"

text \<open>\<open>as_ref().map_or(0, |n| n.height)\<close>.\<close>

fun height_of :: "itree \<Rightarrow> int" where
  "height_of Leaf = 0"
| "height_of (Node _ _ _ h _ _ _) = h"

definition update_augmentation :: "comparator \<Rightarrow> itree \<Rightarrow> range_tombstone \<Rightarrow> itree \<Rightarrow> itree" where
  "update_augmentation c l t r =
     (let me = rt_end t; mx = rt_seqno t; mn = rt_seqno t; h = 1;
          (me, mx, mn, h) =
            (case l of Leaf \<Rightarrow> (me, mx, mn, h)
             | Node _ _ _ lh lme lmx lmn \<Rightarrow>
                 (if c lme me = Greater then lme else me, if lmx > mx then lmx else mx,
                  if lmn < mn then lmn else mn, lh + 1));
          (me, mx, mn, h) =
            (case r of Leaf \<Rightarrow> (me, mx, mn, h)
             | Node _ _ _ rh rme rmx rmn \<Rightarrow>
                 (if c rme me = Greater then rme else me, if rmx > mx then rmx else mx,
                  if rmn < mn then rmn else mn, if rh + 1 > h then rh + 1 else h))
      in Node l t r h me mx mn)"

fun balance_factor :: "itree \<Rightarrow> int" where
  "balance_factor Leaf = 0"
| "balance_factor (Node l _ r _ _ _ _) = height_of l - height_of r"

text \<open>
  The rotations and \<open>balance\<close> recompute the metadata of the node they are given, so they take its
  children and tombstone.
\<close>

definition rotate_right :: "comparator \<Rightarrow> itree \<Rightarrow> range_tombstone \<Rightarrow> itree \<Rightarrow> itree option" where
  "rotate_right c l t r =
     (case l of
        Leaf \<Rightarrow> None
      | Node a x b _ _ _ _ \<Rightarrow> Some (update_augmentation c a x (update_augmentation c b t r)))"

definition rotate_left :: "comparator \<Rightarrow> itree \<Rightarrow> range_tombstone \<Rightarrow> itree \<Rightarrow> itree option" where
  "rotate_left c l t r =
     (case r of
        Leaf \<Rightarrow> None
      | Node a x b _ _ _ _ \<Rightarrow> Some (update_augmentation c (update_augmentation c l t a) x b))"

definition balance :: "comparator \<Rightarrow> itree \<Rightarrow> range_tombstone \<Rightarrow> itree \<Rightarrow> itree option" where
  "balance c l t r =
     (let node = update_augmentation c l t r; bf = balance_factor node
      in if bf > 1 then
           (case l of
              Node a x b _ _ _ _ \<Rightarrow>
                if balance_factor l < 0
                then (case rotate_left c a x b of None \<Rightarrow> None | Some l' \<Rightarrow> rotate_right c l' t r)
                else rotate_right c l t r
            | Leaf \<Rightarrow> rotate_right c l t r)
         else if bf < - 1 then
           (case r of
              Node a x b _ _ _ _ \<Rightarrow>
                if balance_factor r > 0
                then (case rotate_right c a x b of None \<Rightarrow> None | Some r' \<Rightarrow> rotate_left c l t r')
                else rotate_left c l t r
            | Leaf \<Rightarrow> rotate_left c l t r)
         else Some node)"

fun insert_node :: "comparator \<Rightarrow> itree \<Rightarrow> range_tombstone \<Rightarrow> (itree \<times> bool) option" where
  "insert_node c Leaf x = Some (node_new x, True)"
| "insert_node c (Node l t r h me mx mn) x =
     (case cmp_with_comparator c x t of
        Less \<Rightarrow>
          (case insert_node c l x of
             None \<Rightarrow> None
           | Some (child, was_new) \<Rightarrow> map_option (\<lambda>n. (n, was_new)) (balance c child t r))
      | Greater \<Rightarrow>
          (case insert_node c r x of
             None \<Rightarrow> None
           | Some (child, was_new) \<Rightarrow> map_option (\<lambda>n. (n, was_new)) (balance c l t child))
      | Equal \<Rightarrow> Some (update_augmentation c l x r, False))"

fun any_overlapping_suppresses :: "comparator \<Rightarrow> itree \<Rightarrow> user_key \<Rightarrow> seqno \<Rightarrow> seqno \<Rightarrow> bool" where
  "any_overlapping_suppresses c Leaf k key_seqno read_seqno = False"
| "any_overlapping_suppresses c (Node l t r h me mx mn) k key_seqno read_seqno =
     (if mn \<ge> read_seqno then False
      else if c me k \<noteq> Greater then False
      else if any_overlapping_suppresses c l k key_seqno read_seqno then True
      else if c (rt_start t) k \<noteq> Greater then
        (if contains_key_with c t k \<and> visible_at t read_seqno \<and> rt_seqno t > key_seqno then True
         else any_overlapping_suppresses c r k key_seqno read_seqno)
      else False)"

fun inorder_push :: "itree \<Rightarrow> range_tombstone list \<Rightarrow> range_tombstone list" where
  "inorder_push Leaf result = result"
| "inorder_push (Node l t r _ _ _ _) result = inorder_push r (inorder_push l result @ [t])"

fun collect_covering ::
  "comparator \<Rightarrow> itree \<Rightarrow> user_key \<Rightarrow> user_key \<Rightarrow> seqno \<Rightarrow> covering_rt option \<Rightarrow> covering_rt option" where
  "collect_covering c Leaf mn_key mx_key read_seqno best = best"
| "collect_covering c (Node l t r h me mx mn) mn_key mx_key read_seqno best =
     (if mn \<ge> read_seqno then best
      else if c me mx_key \<noteq> Greater then best
      else
        (let best1 = collect_covering c l mn_key mx_key read_seqno best;
             best2 =
               (if c (rt_start t) mn_key \<noteq> Greater \<and> fully_covers_with c t mn_key mx_key \<and>
                   visible_at t read_seqno \<and>
                   \<not> (case best1 of Some b \<Rightarrow> rt_seqno t \<le> cov_seqno b | None \<Rightarrow> False)
                then Some (covering_of t) else best1)
         in if c (rt_start t) mn_key \<noteq> Greater
            then collect_covering c r mn_key mx_key read_seqno best2 else best2))"

definition it_insert :: "comparator \<Rightarrow> interval_tree \<Rightarrow> range_tombstone \<Rightarrow> interval_tree option" where
  "it_insert c tr t =
     (case insert_node c (it_root tr) t of
        None \<Rightarrow> None
      | Some (root, was_new) \<Rightarrow>
          Some \<lparr>it_root = root, it_len = (if was_new then it_len tr + 1 else it_len tr)\<rparr>)"

definition query_suppression :: "comparator \<Rightarrow> interval_tree \<Rightarrow> user_key \<Rightarrow> seqno \<Rightarrow> seqno \<Rightarrow> bool" where
  "query_suppression c tr k key_seqno read_seqno =
     any_overlapping_suppresses c (it_root tr) k key_seqno read_seqno"

definition query_covering_rt_for_range ::
  "comparator \<Rightarrow> interval_tree \<Rightarrow> user_key \<Rightarrow> user_key \<Rightarrow> seqno \<Rightarrow> covering_rt option" where
  "query_covering_rt_for_range c tr mn_key mx_key read_seqno =
     collect_covering c (it_root tr) mn_key mx_key read_seqno None"

definition iter_sorted :: "interval_tree \<Rightarrow> range_tombstone list" where
  "iter_sorted tr = inorder_push (it_root tr) []"

text \<open>A history of inserts.\<close>

fun it_inserts :: "comparator \<Rightarrow> range_tombstone list \<Rightarrow> interval_tree \<Rightarrow> interval_tree option" where
  "it_inserts c [] tr = Some tr"
| "it_inserts c (t # ts) tr =
     (case it_insert c tr t of None \<Rightarrow> None | Some tr' \<Rightarrow> it_inserts c ts tr')"

subsection \<open>Invariants\<close>

fun inorder :: "itree \<Rightarrow> range_tombstone list" where
  "inorder Leaf = []"
| "inorder (Node l t r _ _ _ _) = inorder l @ t # inorder r"

text \<open>Every node's metadata is what \<open>update_augmentation\<close> computes from its children.\<close>

fun aug_ok :: "comparator \<Rightarrow> itree \<Rightarrow> bool" where
  "aug_ok c Leaf = True"
| "aug_ok c (Node l t r h me mx mn) \<longleftrightarrow>
     aug_ok c l \<and> aug_ok c r \<and> Node l t r h me mx mn = update_augmentation c l t r"

fun avl :: "itree \<Rightarrow> bool" where
  "avl Leaf = True"
| "avl (Node l t r h me mx mn) \<longleftrightarrow> avl l \<and> avl r \<and> \<bar>height_of l - height_of r\<bar> \<le> 1"

lemma inorder_push_eq: "inorder_push t acc = acc @ inorder t"
  by (induction t acc rule: inorder_push.induct) auto

lemma update_augmentation_shape:
  "\<exists>h me mx mn. update_augmentation c l t r = Node l t r h me mx mn"
  by (auto simp: update_augmentation_def Let_def split: itree.splits prod.splits)

lemma inorder_update [simp]: "inorder (update_augmentation c l t r) = inorder l @ t # inorder r"
  using update_augmentation_shape [of c l t r] by auto

lemma avl_update [simp]:
  "avl (update_augmentation c l t r) \<longleftrightarrow> avl l \<and> avl r \<and> \<bar>height_of l - height_of r\<bar> \<le> 1"
  using update_augmentation_shape [of c l t r] by auto

lemma balance_factor_update [simp]:
  "balance_factor (update_augmentation c l t r) = height_of l - height_of r"
  using update_augmentation_shape [of c l t r] by auto

lemma aug_ok_update [simp]: "aug_ok c (update_augmentation c l t r) \<longleftrightarrow> aug_ok c l \<and> aug_ok c r"
proof -
  obtain h me mx mn where u: "update_augmentation c l t r = Node l t r h me mx mn"
    using update_augmentation_shape by blast
  show ?thesis by (subst u) (simp add: u)
qed

lemma node_new_update: "node_new t = update_augmentation c Leaf t Leaf"
  by (simp add: node_new_def update_augmentation_def)

lemma height_update_raw:
  "height_of (update_augmentation c l t r) =
     (let h = (if l = Leaf then 1 else height_of l + 1)
      in if r \<noteq> Leaf \<and> height_of r + 1 > h then height_of r + 1 else h)"
  by (cases l; cases r) (auto simp: update_augmentation_def Let_def)

lemma height_pos: "aug_ok c t \<Longrightarrow> 0 \<le> height_of t \<and> (t \<noteq> Leaf \<longrightarrow> 1 \<le> height_of t)"
proof (induction t)
  case (Node l t r h me mx mn)
  then have "height_of (Node l t r h me mx mn) = height_of (update_augmentation c l t r)"
    by (metis aug_ok.simps(2))
  with Node show ?case by (auto simp: height_update_raw Let_def)
qed simp

lemma height_update [simp]:
  "aug_ok c l \<Longrightarrow> aug_ok c r \<Longrightarrow>
   height_of (update_augmentation c l t r) = 1 + max (height_of l) (height_of r)"
  using height_pos [of c l] height_pos [of c r] by (auto simp: height_update_raw Let_def)

lemma height_Node:
  "aug_ok c (Node l t r h me mx mn) \<Longrightarrow> h = 1 + max (height_of l) (height_of r)"
  by (metis aug_ok.simps(2) height_of.simps(2) height_update)

subsection \<open>Balancing and insertion\<close>

lemma rotate_right_law:
  assumes l: "l = Node a x b h me mx mn" and ok: "aug_ok c l" "aug_ok c r" "avl l" "avl r"
    and bf: "height_of l - height_of r = 2" "height_of b \<le> height_of a"
  shows "\<exists>n. rotate_right c l t r = Some n \<and> aug_ok c n \<and> avl n \<and>
    inorder n = inorder l @ t # inorder r \<and> height_of l \<le> height_of n \<and> height_of n \<le> height_of l + 1"
proof -
  have hl: "height_of l = 1 + max (height_of a) (height_of b)" and
    parts: "aug_ok c a" "aug_ok c b" "avl a" "avl b" "\<bar>height_of a - height_of b\<bar> \<le> 1"
    using ok height_Node [of c a x b] by (auto simp: l)
  let ?n = "update_augmentation c a x (update_augmentation c b t r)"
  have "avl ?n \<and> height_of l \<le> height_of ?n \<and> height_of ?n \<le> height_of l + 1"
    using parts hl bf ok by (auto simp: max_def split: if_splits)
  moreover have "rotate_right c l t r = Some ?n" "inorder ?n = inorder l @ t # inorder r"
    by (simp_all add: rotate_right_def l)
  moreover have "aug_ok c ?n" using parts ok(2) by simp
  ultimately show ?thesis by blast
qed

lemma rotate_left_law:
  assumes r: "r = Node a x b h me mx mn" and ok: "aug_ok c l" "aug_ok c r" "avl l" "avl r"
    and bf: "height_of r - height_of l = 2" "height_of a \<le> height_of b"
  shows "\<exists>n. rotate_left c l t r = Some n \<and> aug_ok c n \<and> avl n \<and>
    inorder n = inorder l @ t # inorder r \<and> height_of r \<le> height_of n \<and> height_of n \<le> height_of r + 1"
proof -
  have hr: "height_of r = 1 + max (height_of a) (height_of b)" and
    parts: "aug_ok c a" "aug_ok c b" "avl a" "avl b" "\<bar>height_of a - height_of b\<bar> \<le> 1"
    using ok height_Node [of c a x b] by (auto simp: r)
  let ?n = "update_augmentation c (update_augmentation c l t a) x b"
  have "avl ?n \<and> height_of r \<le> height_of ?n \<and> height_of ?n \<le> height_of r + 1"
    using parts hr bf ok by (auto simp: max_def split: if_splits)
  moreover have "rotate_left c l t r = Some ?n" "inorder ?n = inorder l @ t # inorder r"
    by (simp_all add: rotate_left_def r)
  moreover have "aug_ok c ?n" using parts ok(1) by simp
  ultimately show ?thesis by blast
qed

lemma double_right_law:
  assumes l: "l = Node a x b h me mx mn" and ok: "aug_ok c l" "aug_ok c r" "avl l" "avl r"
    and bf: "height_of l - height_of r = 2" "height_of a < height_of b"
  shows "\<exists>l' n. rotate_left c a x b = Some l' \<and> rotate_right c l' t r = Some n \<and> aug_ok c n \<and> avl n \<and>
    inorder n = inorder l @ t # inorder r \<and> height_of n = height_of l"
proof -
  have hl: "height_of l = 1 + max (height_of a) (height_of b)" and
    parts: "aug_ok c a" "aug_ok c b" "avl a" "avl b" "\<bar>height_of a - height_of b\<bar> \<le> 1"
    using ok height_Node [of c a x b] by (auto simp: l)
  have "b \<noteq> Leaf" using bf(2) height_pos [OF parts(1)] by auto
  then obtain b1 y b2 h' me' mx' mn' where b: "b = Node b1 y b2 h' me' mx' mn'" by (cases b) auto
  have hb: "height_of b = 1 + max (height_of b1) (height_of b2)" and
    bp: "aug_ok c b1" "aug_ok c b2" "avl b1" "avl b2" "\<bar>height_of b1 - height_of b2\<bar> \<le> 1"
    using parts height_Node [of c b1 y b2] by (auto simp: b)
  let ?l' = "update_augmentation c (update_augmentation c a x b1) y b2"
  let ?n = "update_augmentation c (update_augmentation c a x b1) y (update_augmentation c b2 t r)"
  obtain h1 me1 mx1 mn1 where u: "?l' = Node (update_augmentation c a x b1) y b2 h1 me1 mx1 mn1"
    using update_augmentation_shape by blast
  have "rotate_left c a x b = Some ?l'" by (simp add: rotate_left_def b)
  moreover have "rotate_right c ?l' t r = Some ?n" by (simp add: rotate_right_def u)
  moreover have "avl ?n \<and> height_of ?n = height_of l"
    using parts bp hl hb bf ok by (auto simp: max_def split: if_splits)
  moreover have "aug_ok c ?n" "inorder ?n = inorder l @ t # inorder r"
    using parts bp ok by (simp_all add: l b)
  ultimately show ?thesis by blast
qed

lemma double_left_law:
  assumes r: "r = Node a x b h me mx mn" and ok: "aug_ok c l" "aug_ok c r" "avl l" "avl r"
    and bf: "height_of r - height_of l = 2" "height_of b < height_of a"
  shows "\<exists>r' n. rotate_right c a x b = Some r' \<and> rotate_left c l t r' = Some n \<and> aug_ok c n \<and> avl n \<and>
    inorder n = inorder l @ t # inorder r \<and> height_of n = height_of r"
proof -
  have hr: "height_of r = 1 + max (height_of a) (height_of b)" and
    parts: "aug_ok c a" "aug_ok c b" "avl a" "avl b" "\<bar>height_of a - height_of b\<bar> \<le> 1"
    using ok height_Node [of c a x b] by (auto simp: r)
  have "a \<noteq> Leaf" using bf(2) height_pos [OF parts(2)] by auto
  then obtain a1 y a2 h' me' mx' mn' where a: "a = Node a1 y a2 h' me' mx' mn'" by (cases a) auto
  have ha: "height_of a = 1 + max (height_of a1) (height_of a2)" and
    ap: "aug_ok c a1" "aug_ok c a2" "avl a1" "avl a2" "\<bar>height_of a1 - height_of a2\<bar> \<le> 1"
    using parts height_Node [of c a1 y a2] by (auto simp: a)
  let ?r' = "update_augmentation c a1 y (update_augmentation c a2 x b)"
  let ?n = "update_augmentation c (update_augmentation c l t a1) y (update_augmentation c a2 x b)"
  obtain h1 me1 mx1 mn1 where u: "?r' = Node a1 y (update_augmentation c a2 x b) h1 me1 mx1 mn1"
    using update_augmentation_shape by blast
  have "rotate_right c a x b = Some ?r'" by (simp add: rotate_right_def a)
  moreover have "rotate_left c l t ?r' = Some ?n" by (simp add: rotate_left_def u)
  moreover have "avl ?n \<and> height_of ?n = height_of r"
    using parts ap hr ha bf ok by (auto simp: max_def split: if_splits)
  moreover have "aug_ok c ?n" "inorder ?n = inorder l @ t # inorder r"
    using parts ap ok by (simp_all add: r a)
  ultimately show ?thesis by blast
qed

lemma balance_law:
  assumes ok: "aug_ok c l" "aug_ok c r" "avl l" "avl r" and d: "\<bar>height_of l - height_of r\<bar> \<le> 2"
  shows "\<exists>n. balance c l t r = Some n \<and> aug_ok c n \<and> avl n \<and> inorder n = inorder l @ t # inorder r \<and>
    (if \<bar>height_of l - height_of r\<bar> \<le> 1 then height_of n = 1 + max (height_of l) (height_of r)
     else max (height_of l) (height_of r) \<le> height_of n \<and> height_of n \<le> 1 + max (height_of l) (height_of r))"
proof -
  consider (left) "height_of l - height_of r = 2" | (right) "height_of r - height_of l = 2"
    | (even) "\<bar>height_of l - height_of r\<bar> \<le> 1" using d by linarith
  then show ?thesis
  proof cases
    case left
    then have "l \<noteq> Leaf" using height_pos [OF ok(2)] by auto
    then obtain a x b h me mx mn where l: "l = Node a x b h me mx mn" by (cases l) auto
    show ?thesis
    proof (cases "height_of a < height_of b")
      case True
      with double_right_law [OF l ok left, of t] left show ?thesis
        by (auto simp: balance_def l Let_def)
    next
      case False
      with rotate_right_law [OF l ok left, of t] left show ?thesis
        by (auto simp: balance_def l Let_def)
    qed
  next
    case right
    then have "r \<noteq> Leaf" using height_pos [OF ok(1)] by auto
    then obtain a x b h me mx mn where r: "r = Node a x b h me mx mn" by (cases r) auto
    show ?thesis
    proof (cases "height_of b < height_of a")
      case True
      with double_left_law [OF r ok right, of t] right show ?thesis
        by (auto simp: balance_def r Let_def)
    next
      case False
      with rotate_left_law [OF r ok right, of t] right show ?thesis
        by (auto simp: balance_def r Let_def)
    qed
  next
    case even
    then have "\<not> 1 < height_of l - height_of r" "\<not> height_of l - height_of r < - 1" by linarith+
    then have "balance c l t r = Some (update_augmentation c l t r)" by (simp add: balance_def)
    then show ?thesis using ok even by simp
  qed
qed

context user_comparator begin

abbreviation rt_less :: "range_tombstone \<Rightarrow> range_tombstone \<Rightarrow> bool" where
  "rt_less a b \<equiv> cmp_with_comparator cmp a b = Less"

lemma rt_less_sorted_mid:
  "sorted_wrt rt_less (xs @ t # ys) \<longleftrightarrow>
     sorted_wrt rt_less xs \<and> sorted_wrt rt_less ys \<and> (\<forall>x\<in>set xs. rt_less x t) \<and> (\<forall>y\<in>set ys. rt_less t y)"
  using rt_cmp_trans by (auto simp: sorted_wrt_append)

lemma insert_node_law:
  "aug_ok cmp t \<Longrightarrow> avl t \<Longrightarrow> sorted_wrt rt_less (inorder t) \<Longrightarrow>
   \<exists>n new. insert_node cmp t x = Some (n, new) \<and> aug_ok cmp n \<and> avl n \<and>
     sorted_wrt rt_less (inorder n) \<and> set (inorder n) = insert x (set (inorder t)) \<and>
     (new \<longleftrightarrow> x \<notin> set (inorder t)) \<and> height_of t \<le> height_of n \<and> height_of n \<le> height_of t + 1"
proof (induction t)
  case Leaf
  show ?case
    using node_new_update [of x cmp] by auto
next
  case (Node l t r h me mx mn)
  let ?t = "Node l t r h me mx mn"
  have h: "h = 1 + max (height_of l) (height_of r)" using height_Node [OF Node.prems(1)] .
  have sub: "aug_ok cmp l" "aug_ok cmp r" "avl l" "avl r" "\<bar>height_of l - height_of r\<bar> \<le> 1"
    using Node.prems by auto
  have sorted: "sorted_wrt rt_less (inorder l)" "sorted_wrt rt_less (inorder r)"
    "\<forall>y\<in>set (inorder l). rt_less y t" "\<forall>y\<in>set (inorder r). rt_less t y"
    using Node.prems(3) by (simp_all add: rt_less_sorted_mid)
  have irrefl: "\<not> rt_less y y" for y using rt_cmp_Equal [of y y] by simp
  show ?case
  proof (cases "cmp_with_comparator cmp x t")
    case Less
    then have notin: "x \<noteq> t" "x \<notin> set (inorder r)"
      using sorted(4) irrefl rt_cmp_trans by blast+
    obtain n new where n: "insert_node cmp l x = Some (n, new)" "aug_ok cmp n" "avl n"
      "sorted_wrt rt_less (inorder n)" "set (inorder n) = insert x (set (inorder l))"
      "new \<longleftrightarrow> x \<notin> set (inorder l)" "height_of l \<le> height_of n" "height_of n \<le> height_of l + 1"
      using Node.IH(1) sub sorted by blast
    have "\<bar>height_of n - height_of r\<bar> \<le> 2" using n(7,8) sub(5) by linarith
    from balance_law [OF n(2) sub(2) n(3) sub(4) this, of t]
    obtain m where m: "balance cmp n t r = Some m" "aug_ok cmp m" "avl m"
      "inorder m = inorder n @ t # inorder r"
      "if \<bar>height_of n - height_of r\<bar> \<le> 1 then height_of m = 1 + max (height_of n) (height_of r)
       else max (height_of n) (height_of r) \<le> height_of m \<and> height_of m \<le> 1 + max (height_of n) (height_of r)"
      by blast
    have ht: "h \<le> height_of m \<and> height_of m \<le> h + 1"
      using m(5) n(7,8) sub(5) h by (auto split: if_splits)
    have srt: "sorted_wrt rt_less (inorder m)"
      using m(4) n(4,5) sorted Less by (simp add: rt_less_sorted_mid)
    show ?thesis
      using n m(1-4) ht srt notin Less by auto
  next
    case Greater
    then have gt: "rt_less t x" by (simp add: rt_cmp_Less)
    then have notin: "x \<noteq> t" "x \<notin> set (inorder l)"
      using sorted(3) irrefl rt_cmp_trans by blast+
    obtain n new where n: "insert_node cmp r x = Some (n, new)" "aug_ok cmp n" "avl n"
      "sorted_wrt rt_less (inorder n)" "set (inorder n) = insert x (set (inorder r))"
      "new \<longleftrightarrow> x \<notin> set (inorder r)" "height_of r \<le> height_of n" "height_of n \<le> height_of r + 1"
      using Node.IH(2) sub sorted by blast
    have "\<bar>height_of l - height_of n\<bar> \<le> 2" using n(7,8) sub(5) by linarith
    from balance_law [OF sub(1) n(2) sub(3) n(3) this, of t]
    obtain m where m: "balance cmp l t n = Some m" "aug_ok cmp m" "avl m"
      "inorder m = inorder l @ t # inorder n"
      "if \<bar>height_of l - height_of n\<bar> \<le> 1 then height_of m = 1 + max (height_of l) (height_of n)
       else max (height_of l) (height_of n) \<le> height_of m \<and> height_of m \<le> 1 + max (height_of l) (height_of n)"
      by blast
    have ht: "h \<le> height_of m \<and> height_of m \<le> h + 1"
      using m(5) n(7,8) sub(5) h by (auto split: if_splits)
    have srt: "sorted_wrt rt_less (inorder m)"
      using m(4) n(4,5) sorted gt by (simp add: rt_less_sorted_mid)
    show ?thesis
      using n m(1-4) ht srt notin Greater by auto
  next
    case Equal
    then have x: "x = t" by (simp add: rt_cmp_Equal)
    then have ins: "insert_node cmp ?t x = Some (update_augmentation cmp l t r, False)"
      using Equal by simp
    show ?thesis unfolding ins using sub Node.prems(3) h x by auto
  qed
qed

lemma later_end:
  "kle cmp a (if cmp b a = Greater then b else a)" "kle cmp b (if cmp b a = Greater then b else a)"
  by (auto simp: key_order keys.less_imp_le)

lemma max_end_update:
  "kle cmp (rt_end t) (it_max_end (update_augmentation cmp l t r))"
  "l \<noteq> Leaf \<Longrightarrow> kle cmp (it_max_end l) (it_max_end (update_augmentation cmp l t r))"
  "r \<noteq> Leaf \<Longrightarrow> kle cmp (it_max_end r) (it_max_end (update_augmentation cmp l t r))"
proof -
  define m1 where "m1 = (if l = Leaf then rt_end t
    else if cmp (it_max_end l) (rt_end t) = Greater then it_max_end l else rt_end t)"
  have me: "it_max_end (update_augmentation cmp l t r) =
    (if r = Leaf then m1 else if cmp (it_max_end r) m1 = Greater then it_max_end r else m1)"
    by (cases l; cases r) (simp_all add: update_augmentation_def m1_def Let_def)
  have m1: "kle cmp (rt_end t) m1" "l \<noteq> Leaf \<Longrightarrow> kle cmp (it_max_end l) m1"
    using later_end by (simp_all add: m1_def)
  have "kle cmp m1 (it_max_end (update_augmentation cmp l t r))"
    using later_end(1) [of m1 "it_max_end r"] by (simp add: me)
  then show "kle cmp (rt_end t) (it_max_end (update_augmentation cmp l t r))"
    "l \<noteq> Leaf \<Longrightarrow> kle cmp (it_max_end l) (it_max_end (update_augmentation cmp l t r))"
    using m1 keys.order_trans by blast+
  show "r \<noteq> Leaf \<Longrightarrow> kle cmp (it_max_end r) (it_max_end (update_augmentation cmp l t r))"
    using later_end(2) [of "it_max_end r" m1] by (simp add: me)
qed

lemma smaller_larger:
  "(if (b :: seqno) < a then b else a) = min a b" "(if a < (b :: seqno) then b else a) = max a b"
  by (auto simp: min_def max_def)

lemma seqno_update:
  "it_min_seqno (update_augmentation cmp l t r) \<le> rt_seqno t"
  "l \<noteq> Leaf \<Longrightarrow> it_min_seqno (update_augmentation cmp l t r) \<le> it_min_seqno l"
  "r \<noteq> Leaf \<Longrightarrow> it_min_seqno (update_augmentation cmp l t r) \<le> it_min_seqno r"
  "rt_seqno t \<le> it_max_seqno (update_augmentation cmp l t r)"
  "l \<noteq> Leaf \<Longrightarrow> it_max_seqno l \<le> it_max_seqno (update_augmentation cmp l t r)"
  "r \<noteq> Leaf \<Longrightarrow> it_max_seqno r \<le> it_max_seqno (update_augmentation cmp l t r)"
  unfolding update_augmentation_def Let_def smaller_larger
  by (cases l; cases r; simp add: min.coboundedI1 min.coboundedI2 max.coboundedI1 max.coboundedI2)+

lemma aug_bounds:
  "aug_ok cmp t \<Longrightarrow> x \<in> set (inorder t) \<Longrightarrow>
   kle cmp (rt_end x) (it_max_end t) \<and> it_min_seqno t \<le> rt_seqno x \<and> rt_seqno x \<le> it_max_seqno t"
proof (induction t)
  case (Node l t r h me mx mn)
  have "update_augmentation cmp l t r = Node l t r h me mx mn" using Node.prems by simp
  note ends = max_end_update [where t = t and l = l and r = r, unfolded this itree.sel]
    and seqs = seqno_update [where t = t and l = l and r = r, unfolded this itree.sel]
  have ok: "aug_ok cmp l" "aug_ok cmp r" using Node.prems(1) by simp_all
  from Node.prems(2) consider "x = t" | "x \<in> set (inorder l)" "l \<noteq> Leaf" | "x \<in> set (inorder r)" "r \<noteq> Leaf"
    by (cases "l = Leaf"; cases "r = Leaf") auto
  then show ?case
  proof cases
    case 1
    then show ?thesis using ends(1) seqs(1,4) by simp
  next
    case 2
    from Node.IH(1) [OF ok(1) 2(1)] ends(2) [OF 2(2)] seqs(2) [OF 2(2)] seqs(5) [OF 2(2)]
    show ?thesis by (auto intro: keys.order_trans order_trans)
  next
    case 3
    from Node.IH(2) [OF ok(2) 3(1)] ends(3) [OF 3(2)] seqs(3) [OF 3(2)] seqs(6) [OF 3(2)]
    show ?thesis by (auto intro: keys.order_trans order_trans)
  qed
qed simp

lemma any_overlapping_law:
  "aug_ok cmp t \<Longrightarrow> sorted_wrt rt_less (inorder t) \<Longrightarrow>
   any_overlapping_suppresses cmp t k kq rq \<longleftrightarrow>
     (\<exists>x\<in>set (inorder t). should_suppress_with cmp x k kq rq)"
proof (induction t)
  case (Node l t r h me mx mn)
  let ?t = "Node l t r h me mx mn"
  let ?S = "\<lambda>x. should_suppress_with cmp x k kq rq"
  have sub: "aug_ok cmp l" "aug_ok cmp r" "sorted_wrt rt_less (inorder l)" "sorted_wrt rt_less (inorder r)"
    "\<forall>y\<in>set (inorder r). rt_less t y"
    using Node.prems by (simp_all add: rt_less_sorted_mid)
  have bounds: "kle cmp (rt_end x) me" "mn \<le> rt_seqno x" if "x \<in> set (inorder ?t)" for x
    using aug_bounds [OF Node.prems(1) that] by simp_all
  show ?case
  proof (cases "rq \<le> mn \<or> cmp me k \<noteq> Greater")
    case True
    have "\<not> ?S x" if "x \<in> set (inorder ?t)" for x
      using True bounds [OF that]
      by (auto simp: should_suppress_with_def visible_at_def contains_key_iff cmp_neq_Greater
          dest: keys.less_le_trans keys.le_less_trans)
    with True show ?thesis by auto
  next
    case False
    have right: "\<not> ?S x" if "cmp (rt_start t) k = Greater" "x \<in> insert t (set (inorder r))" for x
    proof -
      have "kle cmp (rt_start t) (rt_start x)"
        using that(2) sub(5) rt_cmp_start [of t x] by auto
      with that(1) show ?thesis
        by (auto simp: should_suppress_with_def contains_key_iff key_order dest: keys.less_le_trans)
    qed
    with False Node.IH sub show ?thesis
      by (auto simp: should_suppress_with_def)
  qed
qed simp

text \<open>The best covering tombstone so far: visible, covering, and of the highest sequence number.\<close>

definition best_of :: "(range_tombstone \<Rightarrow> bool) \<Rightarrow> range_tombstone set \<Rightarrow> covering_rt option \<Rightarrow> bool" where
  "best_of p xs best \<longleftrightarrow>
     (case best of
        None \<Rightarrow> \<forall>x\<in>xs. \<not> p x
      | Some b \<Rightarrow> (\<exists>x\<in>xs. p x \<and> b = covering_of x) \<and> (\<forall>x\<in>xs. p x \<longrightarrow> rt_seqno x \<le> cov_seqno b))"

lemma best_of_mono: "best_of p xs best \<Longrightarrow> \<forall>y\<in>ys. \<not> p y \<Longrightarrow> best_of p (xs \<union> ys) best"
  by (auto simp: best_of_def split: option.splits)

lemma best_of_insert:
  "best_of p xs best \<Longrightarrow>
   best_of p (insert t xs)
     (if p t \<and> \<not> (case best of Some b \<Rightarrow> rt_seqno t \<le> cov_seqno b | None \<Rightarrow> False)
      then Some (covering_of t) else best)"
  by (cases best) (auto simp: best_of_def covering_of_def)

lemma collect_covering_law:
  assumes "kle cmp mnk mxk"
  shows "aug_ok cmp t \<Longrightarrow> sorted_wrt rt_less (inorder t) \<Longrightarrow>
    best_of (\<lambda>x. fully_covers_with cmp x mnk mxk \<and> visible_at x rq) xs best \<Longrightarrow>
    best_of (\<lambda>x. fully_covers_with cmp x mnk mxk \<and> visible_at x rq) (xs \<union> set (inorder t))
      (collect_covering cmp t mnk mxk rq best)"
proof (induction t arbitrary: xs best)
  case (Node l t r h me mx mn)
  let ?t = "Node l t r h me mx mn"
  let ?p = "\<lambda>x. fully_covers_with cmp x mnk mxk \<and> visible_at x rq"
  have sub: "aug_ok cmp l" "aug_ok cmp r" "sorted_wrt rt_less (inorder l)" "sorted_wrt rt_less (inorder r)"
    "\<forall>y\<in>set (inorder r). rt_less t y"
    using Node.prems by (simp_all add: rt_less_sorted_mid)
  have bounds: "kle cmp (rt_end x) me" "mn \<le> rt_seqno x" if "x \<in> set (inorder ?t)" for x
    using aug_bounds [OF Node.prems(1) that] by simp_all
  show ?case
  proof (cases "rq \<le> mn \<or> cmp me mxk \<noteq> Greater")
    case True
    have "\<not> ?p x" if "x \<in> set (inorder ?t)" for x
      using True bounds [OF that]
      by (auto simp: visible_at_def fully_covers_iff cmp_neq_Greater
          dest: keys.less_le_trans keys.le_less_trans)
    then have "best_of ?p (xs \<union> set (inorder ?t)) best" using best_of_mono [OF Node.prems(3)] by blast
    with True show ?thesis by auto
  next
    case False
    define best1 where "best1 = collect_covering cmp l mnk mxk rq best"
    define best2 where "best2 = (if ?p t \<and> \<not> (case best1 of Some b \<Rightarrow> rt_seqno t \<le> cov_seqno b | None \<Rightarrow> False)
      then Some (covering_of t) else best1)"
    have b1: "best_of ?p (xs \<union> set (inorder l)) best1"
      unfolding best1_def by (rule Node.IH(1) [OF sub(1,3) Node.prems(3)])
    have b2: "best_of ?p (insert t (xs \<union> set (inorder l))) best2"
      unfolding best2_def by (rule best_of_insert [OF b1])
    have eq: "collect_covering cmp ?t mnk mxk rq best =
      (if cmp (rt_start t) mnk \<noteq> Greater then collect_covering cmp r mnk mxk rq best2 else best2)"
      using False by (auto simp: best1_def [symmetric] best2_def fully_covers_with_def Let_def)
    have parts: "xs \<union> set (inorder ?t) = insert t (xs \<union> set (inorder l)) \<union> set (inorder r)" by auto
    show ?thesis
    proof (cases "cmp (rt_start t) mnk = Greater")
      case True
      have "\<not> ?p x" if "x \<in> set (inorder r)" for x
      proof -
        have "kle cmp (rt_start t) (rt_start x)" using that sub(5) rt_cmp_start [of t x] by auto
        with True show ?thesis by (auto simp: fully_covers_iff key_order dest: keys.less_le_trans)
      qed
      then show ?thesis unfolding eq parts using True best_of_mono [OF b2] by simp
    next
      case notGt: False
      show ?thesis unfolding eq parts using notGt Node.IH(2) [OF sub(2,4) b2] by simp
    qed
  qed
qed simp

text \<open>The invariant of the whole tree, and that a history of inserts keeps it.\<close>

definition it_wf :: "interval_tree \<Rightarrow> bool" where
  "it_wf tr \<longleftrightarrow> aug_ok cmp (it_root tr) \<and> avl (it_root tr) \<and>
     sorted_wrt rt_less (inorder (it_root tr)) \<and> it_len tr = length (inorder (it_root tr))"

lemma rt_less_distinct: "sorted_wrt rt_less xs \<Longrightarrow> distinct xs"
proof (induction xs)
  case (Cons x xs)
  moreover have "\<not> rt_less x x" using rt_cmp_Equal [of x x] by simp
  ultimately show ?case by auto
qed simp

lemma it_insert_law:
  assumes "it_wf tr"
  shows "\<exists>tr'. it_insert cmp tr x = Some tr' \<and> it_wf tr' \<and>
    set (inorder (it_root tr')) = insert x (set (inorder (it_root tr)))"
proof -
  obtain n new where n: "insert_node cmp (it_root tr) x = Some (n, new)" "aug_ok cmp n" "avl n"
    "sorted_wrt rt_less (inorder n)" "set (inorder n) = insert x (set (inorder (it_root tr)))"
    "new \<longleftrightarrow> x \<notin> set (inorder (it_root tr))"
    using insert_node_law assms unfolding it_wf_def by blast
  have len: "length (inorder (it_root tr)) = card (set (inorder (it_root tr)))"
    "length (inorder n) = card (set (inorder n))"
    using rt_less_distinct assms n(4) by (auto simp: it_wf_def distinct_card)
  then have "length (inorder n) = (if new then Suc (it_len tr) else it_len tr)"
    using assms n(5,6) by (auto simp: it_wf_def insert_absorb)
  then show ?thesis using n by (auto simp: it_insert_def it_wf_def)
qed

lemma it_inserts_law:
  "it_wf tr \<Longrightarrow> \<exists>tr'. it_inserts cmp ts tr = Some tr' \<and> it_wf tr' \<and>
     set (inorder (it_root tr')) = set ts \<union> set (inorder (it_root tr))"
proof (induction ts arbitrary: tr)
  case (Cons t ts)
  from it_insert_law [OF Cons.prems, of t] obtain tr1 where
    one: "it_insert cmp tr t = Some tr1" "it_wf tr1" "set (inorder (it_root tr1)) = insert t (set (inorder (it_root tr)))"
    by blast
  from Cons.IH [OF one(2)] one show ?case by auto
qed simp

lemma it_new_wf: "it_wf it_new" "inorder (it_root it_new) = []"
  by (simp_all add: it_wf_def it_new_def)

end

text \<open>The height is logarithmic: \<open>n\<close> tombstones make a tree of height at most \<open>2 log (n + 1) + 1\<close>.\<close>

lemma avl_size:
  "aug_ok c t \<Longrightarrow> avl t \<Longrightarrow> 2 ^ (nat (height_of t) div 2) \<le> length (inorder t) + 1"
proof (induction t)
  case (Node l t r h me mx mn)
  let ?hl = "nat (height_of l)" and ?hr = "nat (height_of r)"
  have ok: "aug_ok c l" "aug_ok c r" "avl l" "avl r" "\<bar>height_of l - height_of r\<bar> \<le> 1"
    using Node.prems by simp_all
  have h: "nat h = Suc (max ?hl ?hr)"
    using height_Node [OF Node.prems(1)] height_pos [OF ok(1)] height_pos [OF ok(2)] by (auto simp: max_def)
  have d: "?hl \<le> Suc ?hr" "?hr \<le> Suc ?hl"
    using ok(5) height_pos [OF ok(1)] height_pos [OF ok(2)] by linarith+
  define m where "m = min ?hl ?hr"
  have "(2::nat) ^ (m div 2) \<le> 2 ^ (?hl div 2)" "(2::nat) ^ (m div 2) \<le> 2 ^ (?hr div 2)"
    unfolding m_def by (intro power_increasing div_le_mono; simp)+
  then have two: "2 * 2 ^ (m div 2) \<le> (length (inorder l) + 1) + (length (inorder r) + 1)"
    using Node.IH(1) [OF ok(1,3)] Node.IH(2) [OF ok(2,4)] by linarith
  have "nat h \<le> m + 2" using h d unfolding m_def by linarith
  then have "nat h div 2 \<le> Suc (m div 2)" by linarith
  then have "(2::nat) ^ (nat h div 2) \<le> 2 ^ Suc (m div 2)" by (intro power_increasing) auto
  with two show ?case by simp
qed simp

text \<open>
  For every history of inserts under a lawful comparator, no rotation panics, and the
  suppression query of the tree answers whether some inserted tombstone suppresses the key at
  the read sequence number: the prunings by largest end and smallest sequence number lose nothing.
\<close>

theorem interval_tree_query_suppression:
  assumes "user_comparator c"
  shows "\<exists>tr. it_inserts c ts it_new = Some tr \<and>
    (\<forall>k kq rq. query_suppression c tr k kq rq = list_ex (\<lambda>t. should_suppress_with c t k kq rq) ts)"
proof -
  obtain tr where tr: "it_inserts c ts it_new = Some tr" "user_comparator.it_wf c tr"
    "set (inorder (it_root tr)) = set ts"
    using user_comparator.it_inserts_law [OF assms user_comparator.it_new_wf(1) [OF assms]]
      user_comparator.it_new_wf(2) [OF assms] by fastforce
  then show ?thesis
    using user_comparator.any_overlapping_law [OF assms, of "it_root tr"]
    by (auto simp: query_suppression_def user_comparator.it_wf_def [OF assms] list_ex_iff)
qed

theorem interval_tree_query_suppression_witness:
  "\<exists>tr. it_inserts default_compare [\<lparr>rt_start = [2], rt_end = [4], rt_seqno = 5\<rparr>] it_new = Some tr \<and>
     query_suppression default_compare tr [3] 1 9 \<and> \<not> query_suppression default_compare tr [4] 1 9"
  using interval_tree_query_suppression [OF user_comparator_default,
      of "[\<lparr>rt_start = [2], rt_end = [4], rt_seqno = 5\<rparr>]"]
  by (auto simp: should_suppress_with_def visible_at_def contains_key_with_def default_compare_def ord_cmp_def)

text \<open>
  \<open>iter_sorted\<close> returns exactly the distinct inserted tombstones, strictly ascending by start,
  then descending sequence number, then end; \<open>len\<close> is their number; and the tree stays an AVL tree
  whose height is at most twice the logarithm of its size.
\<close>

theorem interval_tree_iter_sorted:
  assumes "user_comparator c"
  shows "\<exists>tr. it_inserts c ts it_new = Some tr \<and> set (iter_sorted tr) = set ts \<and>
    sorted_wrt (\<lambda>a b. cmp_with_comparator c a b = Less) (iter_sorted tr) \<and>
    it_len tr = card (set ts) \<and> avl (it_root tr) \<and>
    2 ^ (nat (height_of (it_root tr)) div 2) \<le> it_len tr + 1"
proof -
  obtain tr where tr: "it_inserts c ts it_new = Some tr" "user_comparator.it_wf c tr"
    "set (inorder (it_root tr)) = set ts"
    using user_comparator.it_inserts_law [OF assms user_comparator.it_new_wf(1) [OF assms]]
      user_comparator.it_new_wf(2) [OF assms] by fastforce
  then have wf: "aug_ok c (it_root tr)" "avl (it_root tr)" "it_len tr = length (inorder (it_root tr))"
    "sorted_wrt (\<lambda>a b. cmp_with_comparator c a b = Less) (inorder (it_root tr))"
    by (auto simp: user_comparator.it_wf_def [OF assms])
  have "length (inorder (it_root tr)) = card (set ts)"
    using user_comparator.rt_less_distinct [OF assms wf(4)] tr(3) by (metis distinct_card)
  with tr wf avl_size [OF wf(1,2)] show ?thesis by (simp add: iter_sorted_def inorder_push_eq)
qed

theorem interval_tree_iter_sorted_witness:
  "let a = \<lparr>rt_start = [2], rt_end = [4], rt_seqno = 5\<rparr>; b = \<lparr>rt_start = [1], rt_end = [4], rt_seqno = 5\<rparr>
   in \<exists>tr. it_inserts default_compare [a, b, a] it_new = Some tr \<and> set (iter_sorted tr) = {a, b} \<and> it_len tr = 2"
proof -
  define a b where "a = \<lparr>rt_start = [2], rt_end = [4], rt_seqno = 5\<rparr>"
    and "b = \<lparr>rt_start = [1], rt_end = [4], rt_seqno = 5\<rparr>"
  have "a \<noteq> b" by (simp add: a_def b_def)
  then have sets: "set [a, b, a] = {a, b}" "card {a, b} = 2" by auto
  show ?thesis
    using interval_tree_iter_sorted [OF user_comparator_default, of "[a, b, a]"]
    unfolding sets a_def [symmetric] b_def [symmetric] Let_def by blast
qed

text \<open>
  The covering query over \<open>[min, max]\<close> returns a visible inserted tombstone that covers the
  whole range and has the highest sequence number among those, and \<open>None\<close> only if there is none.
\<close>

theorem interval_tree_query_covering:
  assumes "user_comparator c" "kle c mnk mxk"
  shows "\<exists>tr. it_inserts c ts it_new = Some tr \<and>
    (case query_covering_rt_for_range c tr mnk mxk rq of
       None \<Rightarrow> \<not> list_ex (\<lambda>t. fully_covers_with c t mnk mxk \<and> visible_at t rq) ts
     | Some b \<Rightarrow> list_ex (\<lambda>t. fully_covers_with c t mnk mxk \<and> visible_at t rq \<and> b = covering_of t) ts \<and>
         list_all (\<lambda>t. fully_covers_with c t mnk mxk \<and> visible_at t rq \<longrightarrow> rt_seqno t \<le> cov_seqno b) ts)"
proof -
  obtain tr where tr: "it_inserts c ts it_new = Some tr" "user_comparator.it_wf c tr"
    "set (inorder (it_root tr)) = set ts"
    using user_comparator.it_inserts_law [OF assms(1) user_comparator.it_new_wf(1) [OF assms(1)]]
      user_comparator.it_new_wf(2) [OF assms(1)] by fastforce
  have "user_comparator.best_of (\<lambda>x. fully_covers_with c x mnk mxk \<and> visible_at x rq) {} None"
    by (simp add: user_comparator.best_of_def [OF assms(1)])
  from user_comparator.collect_covering_law [OF assms _ _ this, of "it_root tr"] tr
  have "user_comparator.best_of (\<lambda>x. fully_covers_with c x mnk mxk \<and> visible_at x rq) (set ts)
      (query_covering_rt_for_range c tr mnk mxk rq)"
    by (simp add: user_comparator.it_wf_def [OF assms(1)] query_covering_rt_for_range_def)
  with tr(1) show ?thesis
    by (auto simp: user_comparator.best_of_def [OF assms(1)] list_ex_iff list_all_iff split: option.splits)
qed

theorem interval_tree_query_covering_witness:
  "\<exists>tr. it_inserts default_compare [\<lparr>rt_start = [2], rt_end = [9], rt_seqno = 5\<rparr>] it_new = Some tr \<and>
     query_covering_rt_for_range default_compare tr [3] [7] 8 =
       Some \<lparr>cov_start = [2], cov_end = [9], cov_seqno = 5\<rparr>"
proof -
  have "kle default_compare [3] [7]" by (simp add: kle_def default_compare_def ord_cmp_def)
  from interval_tree_query_covering [OF user_comparator_default this,
      of "[\<lparr>rt_start = [2], rt_end = [9], rt_seqno = 5\<rparr>]" 8]
  show ?thesis
    by (auto simp: fully_covers_with_def visible_at_def default_compare_def ord_cmp_def covering_of_def
        split: option.splits)
qed

end
