(* ===== verification/Active_Tombstones.thy ===== *)
theory Active_Tombstones
  imports Range_Tombstone
begin

text \<open>
  \<open>active_tombstone_set.rs\<close>: the tombstones open at the current key of a sweep. Both sets keep a
  multiset of active sequence numbers (\<open>seqno_counts\<close>) and a list of expiry bounds ordered so
  that the next one to expire is last. The forward set expires by \<open>end\<close>, the reverse set by
  \<open>start\<close>; the two structs have the same fields and share one record here. The contract both
  keep is the locale \<open>tombstone_set\<close>, and the sweep over a sorted tombstone list that every
  client runs is verified once, in the locale \<open>tombstone_sweep\<close>.
\<close>

record active_set =
  seqno_counts :: "(seqno, u32) btree_map"
  pending_expiry :: "(user_key \<times> u64 \<times> seqno) list"
  next_id :: u64

definition ats_new :: active_set where
  "ats_new = \<lparr>seqno_counts = [], pending_expiry = [], next_id = 0\<rparr>"

definition ats_clear :: "active_set \<Rightarrow> active_set" where
  "ats_clear s = s\<lparr>seqno_counts := [], pending_expiry := [], next_id := 0\<rparr>"

text \<open>\<open>*entry(seqno).or_insert(0) += 1\<close>, with the wrapping addition of a release build.\<close>

definition count_incr :: "(seqno, u32) btree_map \<Rightarrow> seqno \<Rightarrow> (seqno, u32) btree_map" where
  "count_incr m q = bt_insert q ((case bt_get m q of None \<Rightarrow> 0 | Some n \<Rightarrow> n) + 1) m"

text \<open>The decrement of an expiry pop; a missing entry is the panic of \<open>expect\<close>, \<open>None\<close> here.\<close>

definition count_decr :: "(seqno, u32) btree_map \<Rightarrow> seqno \<Rightarrow> (seqno, u32) btree_map option" where
  "count_decr m q =
     (case bt_get m q of
        None \<Rightarrow> None
      | Some n \<Rightarrow> Some (if n - 1 = 0 then bt_remove q m else bt_insert q (n - 1) m))"

definition ats_activate :: "comparator \<Rightarrow> range_tombstone \<Rightarrow> seqno \<Rightarrow> active_set \<Rightarrow> active_set" where
  "ats_activate c rt cutoff s =
     (if \<not> visible_at rt cutoff then s
      else (let id = next_id s;
                idx = search_index (binary_search_by
                  (\<lambda>(existing_end, existing_id, _).
                     then_with (c (rt_end rt) existing_end) (ord_cmp existing_id id))
                  (pending_expiry s))
            in \<lparr>seqno_counts = count_incr (seqno_counts s) (rt_seqno rt),
                pending_expiry = vec_insert idx (rt_end rt, id, rt_seqno rt) (pending_expiry s),
                next_id = id + 1\<rparr>))"

text \<open>The \<open>while let Some(..) = pending_expiry.last()\<close> loop; its list argument is reversed.\<close>

fun expire_loop ::
  "(user_key \<Rightarrow> bool) \<Rightarrow> (user_key \<times> u64 \<times> seqno) list \<Rightarrow> (seqno, u32) btree_map \<Rightarrow>
   ((user_key \<times> u64 \<times> seqno) list \<times> (seqno, u32) btree_map) option" where
  "expire_loop expired [] m = Some ([], m)"
| "expire_loop expired ((b, i, q) # ps) m =
     (if \<not> expired b then Some ((b, i, q) # ps, m)
      else case count_decr m q of None \<Rightarrow> None | Some m' \<Rightarrow> expire_loop expired ps m')"

definition ats_expire_until :: "comparator \<Rightarrow> user_key \<Rightarrow> active_set \<Rightarrow> active_set option" where
  "ats_expire_until c current_key s =
     map_option (\<lambda>(ps, m). s\<lparr>pending_expiry := rev ps, seqno_counts := m\<rparr>)
       (expire_loop (\<lambda>e. c e current_key \<noteq> Greater) (rev (pending_expiry s)) (seqno_counts s))"

definition max_active_seqno :: "active_set \<Rightarrow> seqno option" where
  "max_active_seqno s = bt_last_key (seqno_counts s)"

definition is_suppressed :: "active_set \<Rightarrow> seqno \<Rightarrow> bool" where
  "is_suppressed s key_seqno = (case max_active_seqno s of None \<Rightarrow> False | Some mx \<Rightarrow> key_seqno < mx)"

definition ats_initialize_from ::
  "comparator \<Rightarrow> (range_tombstone \<times> seqno) list \<Rightarrow> active_set \<Rightarrow> active_set" where
  "ats_initialize_from c ts s = foldl (\<lambda>s (rt, cutoff). ats_activate c rt cutoff s) s ts"

definition ats_is_empty :: "active_set \<Rightarrow> bool" where
  "ats_is_empty s \<longleftrightarrow> seqno_counts s = []"

subsection \<open>The reverse set\<close>

definition atsr_activate :: "comparator \<Rightarrow> range_tombstone \<Rightarrow> seqno \<Rightarrow> active_set \<Rightarrow> active_set" where
  "atsr_activate c rt cutoff s =
     (if \<not> visible_at rt cutoff then s
      else (let id = next_id s;
                pos = search_index (binary_search_by
                  (\<lambda>(start, existing_id, _).
                     then_with (c start (rt_start rt)) (ord_cmp existing_id id))
                  (pending_expiry s))
            in \<lparr>seqno_counts = count_incr (seqno_counts s) (rt_seqno rt),
                pending_expiry = vec_insert pos (rt_start rt, id, rt_seqno rt) (pending_expiry s),
                next_id = id + 1\<rparr>))"

definition atsr_expire_until :: "comparator \<Rightarrow> user_key \<Rightarrow> active_set \<Rightarrow> active_set option" where
  "atsr_expire_until c current_key s =
     map_option (\<lambda>(ps, m). s\<lparr>pending_expiry := rev ps, seqno_counts := m\<rparr>)
       (expire_loop (\<lambda>start. c current_key start = Less) (rev (pending_expiry s)) (seqno_counts s))"

definition atsr_initialize_from ::
  "comparator \<Rightarrow> (range_tombstone \<times> seqno) list \<Rightarrow> active_set \<Rightarrow> active_set" where
  "atsr_initialize_from c ts s = foldl (\<lambda>s (rt, cutoff). atsr_activate c rt cutoff s) s ts"

text \<open>
  The loop the sweeping clients share: take tombstones from index \<open>i\<close> of their sorted list while
  they have started, and activate each.
\<close>

function activate_while ::
  "(range_tombstone \<Rightarrow> bool) \<Rightarrow> (range_tombstone \<Rightarrow> seqno \<Rightarrow> 's \<Rightarrow> 's) \<Rightarrow>
   (range_tombstone \<times> seqno) list \<Rightarrow> nat \<Rightarrow> 's \<Rightarrow> nat \<times> 's" where
  "activate_while started activate ts i s =
     (if i < length ts \<and> started (fst (ts ! i))
      then activate_while started activate ts (Suc i) (activate (fst (ts ! i)) (snd (ts ! i)) s)
      else (i, s))"
  by pat_completeness auto
termination
  by (relation "measure (\<lambda>(_, _, ts, i, _). length ts - i)") auto

declare activate_while.simps [simp del]

subsection \<open>The sequence-number counts\<close>

definition counts_ok :: "(seqno, u32) btree_map \<Rightarrow> seqno multiset \<Rightarrow> bool" where
  "counts_ok m M \<longleftrightarrow> bt_inv m \<and>
     (\<forall>q. bt_get m q = (if q \<in># M then Some (of_nat (count M q)) else None))"

lemma counts_okD:
  assumes "counts_ok m M"
  shows "bt_inv m" and "bt_get m q = (if q \<in># M then Some (of_nat (count M q)) else None)"
  using assms unfolding counts_ok_def by blast+

lemma of_nat_u32_eq_0: "n < 2 ^ 32 \<Longrightarrow> (of_nat n :: u32) = 0 \<longleftrightarrow> n = 0"
  by (auto simp: word_of_nat_eq_0_iff dest: dvd_imp_le)

lemma counts_ok_incr: "counts_ok m M \<Longrightarrow> counts_ok (count_incr m q) (add_mset q M)"
  unfolding counts_ok_def [of _ "add_mset q M"]
  by (auto simp: count_incr_def btree_simps counts_okD not_in_iff)

lemma counts_ok_decr:
  assumes "counts_ok m (add_mset q M)" "size M < 2 ^ 32 - 1"
  shows "\<exists>m'. count_decr m q = Some m' \<and> counts_ok m' M"
proof -
  have "count M q \<le> size M" by (rule count_le_size)
  then have z: "(of_nat (count M q) :: u32) = 0 \<longleftrightarrow> count M q = 0"
    using assms(2) by (intro of_nat_u32_eq_0) simp
  have get: "bt_get m q = Some (1 + of_nat (count M q))"
    using counts_okD(2) [OF assms(1), of q] by simp
  have rest: "bt_get m p = (if p \<in># M then Some (of_nat (count M p)) else None)" if "p \<noteq> q" for p
    using counts_okD(2) [OF assms(1), of p] that by simp
  show ?thesis
    using get z rest counts_okD(1) [OF assms(1)]
    by (auto simp: count_decr_def counts_ok_def btree_simps not_in_iff)
qed

lemma counts_ok_max:
  assumes "counts_ok m M"
  shows "bt_last_key m = (if M = {#} then None else Some (Max (set_mset M)))"
proof (cases "bt_last_key m")
  case None
  then have "q \<notin># M" for q
    using counts_okD(2) [OF assms, of q] by (auto simp: btree_simps split: if_splits)
  with None show ?thesis by (auto simp: multiset_eq_iff not_in_iff)
next
  case (Some k)
  note k = bt_last_key_Some [OF counts_okD(1) [OF assms] Some]
  from k(1) have "k \<in># M" using counts_okD(2) [OF assms] by (auto split: if_splits)
  moreover have "q \<le> k" if "q \<in># M" for q
    using k(2) [of q] that counts_okD(2) [OF assms, of q] by simp
  ultimately show ?thesis using Some by (auto intro!: Max_eqI [symmetric])
qed

subsection \<open>The contract of an active set and the sweep over it\<close>

text \<open>
  \<open>active s\<close> is the abstract value: the multiset of \<open>(expiry bound, seqno)\<close> pairs of the open
  tombstones. \<open>room s\<close> is how many more activations fit before the machine counters wrap.
\<close>

abbreviation bound_entry :: "(range_tombstone \<Rightarrow> user_key) \<Rightarrow> range_tombstone \<times> seqno \<Rightarrow> user_key \<times> seqno" where
  "bound_entry bound t \<equiv> (bound (fst t), rt_seqno (fst t))"

abbreviation visible_pair :: "range_tombstone \<times> seqno \<Rightarrow> bool" where
  "visible_pair t \<equiv> visible_at (fst t) (snd t)"

locale tombstone_set =
  fixes bound :: "range_tombstone \<Rightarrow> user_key"
    and expired :: "user_key \<Rightarrow> user_key \<Rightarrow> bool"
    and activate :: "range_tombstone \<Rightarrow> seqno \<Rightarrow> 's \<Rightarrow> 's"
    and expire :: "user_key \<Rightarrow> 's \<Rightarrow> 's option"
    and max_seqno :: "'s \<Rightarrow> seqno option"
    and invar :: "'s \<Rightarrow> bool"
    and room :: "'s \<Rightarrow> nat"
    and active :: "'s \<Rightarrow> (user_key \<times> seqno) multiset"
  assumes activate_law: "invar s \<Longrightarrow> 0 < room s \<Longrightarrow>
      invar (activate rt cutoff s) \<and> room s \<le> Suc (room (activate rt cutoff s)) \<and>
      active (activate rt cutoff s) =
        (if visible_at rt cutoff then add_mset (bound rt, rt_seqno rt) (active s) else active s)"
    and expire_law: "invar s \<Longrightarrow> \<exists>s'. expire k s = Some s' \<and> invar s' \<and> room s' = room s \<and>
      active s' = filter_mset (\<lambda>b. \<not> expired (fst b) k) (active s)"
    and max_law: "invar s \<Longrightarrow>
      max_seqno s = (if active s = {#} then None else Some (Max (snd ` set_mset (active s))))"
begin

lemma suppressed_iff:
  assumes "invar s"
  shows "(case max_seqno s of None \<Rightarrow> False | Some mx \<Rightarrow> q < mx) \<longleftrightarrow> (\<exists>b\<in>#active s. q < snd b)"
  using max_law [OF assms] by (auto simp: Max_gr_iff)

lemma activate_while_law:
  "invar s \<Longrightarrow> i \<le> length ts \<Longrightarrow> length ts - i \<le> room s \<Longrightarrow>
   (case activate_while started activate ts i s of (i', s') \<Rightarrow>
      invar s' \<and> i \<le> i' \<and> i' \<le> length ts \<and> length ts - i' \<le> room s' \<and>
      (\<forall>t\<in>set (take (i' - i) (drop i ts)). started (fst t)) \<and>
      (i' < length ts \<longrightarrow> \<not> started (fst (ts ! i'))) \<and>
      active s' = active s + image_mset (bound_entry bound)
        (filter_mset visible_pair (mset (take (i' - i) (drop i ts)))))"
proof (induction "length ts - i" arbitrary: i s)
  case 0
  then show ?case by (simp add: activate_while.simps)
next
  case (Suc n)
  then have i: "i < length ts" by simp
  show ?case
  proof (cases "started (fst (ts ! i))")
    case False
    then show ?thesis using Suc.prems i by (simp add: activate_while.simps)
  next
    case True
    define s1 where "s1 = activate (fst (ts ! i)) (snd (ts ! i)) s"
    have "0 < room s" using Suc.prems i by simp
    note act = activate_law [OF Suc.prems(1) this, of "fst (ts ! i)" "snd (ts ! i)", folded s1_def]
    obtain i' s' where r: "activate_while started activate ts (Suc i) s1 = (i', s')"
      by fastforce
    have IH: "invar s' \<and> Suc i \<le> i' \<and> i' \<le> length ts \<and> length ts - i' \<le> room s' \<and>
      (\<forall>t\<in>set (take (i' - Suc i) (drop (Suc i) ts)). started (fst t)) \<and>
      (i' < length ts \<longrightarrow> \<not> started (fst (ts ! i'))) \<and>
      active s' = active s1 + image_mset (bound_entry bound)
        (filter_mset visible_pair (mset (take (i' - Suc i) (drop (Suc i) ts))))"
      using Suc.hyps(1) [of "Suc i" s1] Suc.hyps(2) Suc.prems i act r by simp
    then have split: "take (i' - i) (drop i ts) = ts ! i # take (i' - Suc i) (drop (Suc i) ts)"
      using i by (metis Cons_nth_drop_Suc Suc_diff_le diff_Suc_Suc take_Suc_Cons)
    have "activate_while started activate ts i s = (i', s')"
      using True i r by (simp add: activate_while.simps [of started activate ts i] s1_def)
    then show ?thesis using IH act True by (auto simp: split)
  qed
qed

end

locale tombstone_sweep = tombstone_set +
  fixes before :: "user_key \<Rightarrow> user_key \<Rightarrow> bool"
    and started :: "user_key \<Rightarrow> range_tombstone \<Rightarrow> bool"
  assumes started_mono: "before k k' \<Longrightarrow> started k rt \<Longrightarrow> started k' rt"
    and expired_mono: "before k k' \<Longrightarrow> expired b k \<Longrightarrow> expired b k'"
begin

text \<open>
  The state of a sweep at index \<open>i\<close> whose prev key was \<open>prev\<close>: the set holds the visible
  tombstones taken so far that the prev key has not expired.
\<close>

definition swept where
  "swept ts i prev s \<longleftrightarrow>
     invar s \<and> i \<le> length ts \<and> length ts - i \<le> room s \<and>
     (\<forall>t\<in>set (take i ts). \<forall>k. prev = Some k \<longrightarrow> started k (fst t)) \<and> (prev = None \<longrightarrow> i = 0) \<and>
     active s = image_mset (bound_entry bound)
       (filter_mset (\<lambda>t. visible_pair t \<and> (\<forall>k. prev = Some k \<longrightarrow> \<not> expired (bound (fst t)) k))
         (mset (take i ts)))"

lemma swept_start: "invar s \<Longrightarrow> length ts \<le> room s \<Longrightarrow> active s = {#} \<Longrightarrow> swept ts 0 None s"
  by (simp add: swept_def)

lemma sweep_active:
  assumes sw: "swept ts i prev s"
    and sorted: "sorted_wrt (\<lambda>x y. started k (fst y) \<longrightarrow> started k (fst x)) ts"
    and bef: "\<And>l. prev = Some l \<Longrightarrow> before l k"
    and aw: "activate_while (started k) activate ts i s = (i', s1)"
  shows "\<exists>s'. expire k s1 = Some s' \<and> invar s' \<and> swept ts i' (Some k) s' \<and>
    set_mset (active s') = bound_entry bound `
      {t \<in> set ts. visible_pair t \<and> started k (fst t) \<and> \<not> expired (bound (fst t)) k}"
proof -
  let ?new = "take (i' - i) (drop i ts)"
  have st: "invar s" "i \<le> length ts" "length ts - i \<le> room s" using sw by (auto simp: swept_def)
  from activate_while_law [OF st, of "started k"] aw
  have aw': "invar s1" "i \<le> i'" "i' \<le> length ts" "length ts - i' \<le> room s1"
    "\<forall>t\<in>set ?new. started k (fst t)" "i' < length ts \<longrightarrow> \<not> started k (fst (ts ! i'))"
    "active s1 = active s + image_mset (bound_entry bound) (filter_mset visible_pair (mset ?new))"
    by auto
  have tk: "take i' ts = take i ts @ ?new"
    using aw'(2) by (metis le_add_diff_inverse take_add)
  obtain s' where s': "expire k s1 = Some s'" "invar s'" "room s' = room s1"
    "active s' = filter_mset (\<lambda>b. \<not> expired (fst b) k) (active s1)"
    using expire_law [OF aw'(1)] by blast
  have old: "filter_mset (\<lambda>t. (visible_pair t \<and> (\<forall>l. prev = Some l \<longrightarrow> \<not> expired (bound (fst t)) l)) \<and>
      \<not> expired (bound (fst t)) k) (mset (take i ts)) =
    filter_mset (\<lambda>t. visible_pair t \<and> \<not> expired (bound (fst t)) k) (mset (take i ts))"
    using expired_mono bef by (intro filter_mset_cong) auto
  have act: "active s' = image_mset (bound_entry bound)
    (filter_mset (\<lambda>t. visible_pair t \<and> \<not> expired (bound (fst t)) k) (mset (take i' ts)))"
    unfolding s'(4) aw'(7) tk using sw old
    by (simp add: swept_def filter_mset_image_mset filter_filter_mset)
  have started_taken: "\<forall>t\<in>set (take i' ts). started k (fst t)"
  proof
    fix t assume "t \<in> set (take i' ts)"
    then consider "t \<in> set (take i ts)" | "t \<in> set ?new" by (auto simp: tk)
    then show "started k (fst t)"
    proof cases
      case 1
      then obtain l where "prev = Some l" using sw by (cases prev) (auto simp: swept_def)
      with 1 sw started_mono [OF bef] show ?thesis by (auto simp: swept_def)
    qed (use aw'(5) in blast)
  qed
  have later: "\<not> started k (fst t)" if t: "t \<in> set (drop i' ts)" for t
  proof -
    from t obtain j where j: "t = ts ! (i' + j)" "i' + j < length ts"
      by (auto simp: in_set_conv_nth)
    then have "\<not> started k (fst (ts ! i'))" using aw'(6) by simp
    with j sorted_wrt_nth_less [OF sorted, of i' "i' + j"] show ?thesis by (cases "j = 0") auto
  qed
  have "t \<in> set (take i' ts) \<longleftrightarrow> t \<in> set ts \<and> started k (fst t)" for t
    using started_taken later append_take_drop_id [of i' ts] by (metis Un_iff set_append)
  then have "set_mset (active s') = bound_entry bound `
      {t \<in> set ts. visible_pair t \<and> started k (fst t) \<and> \<not> expired (bound (fst t)) k}"
    unfolding act by auto
  moreover have "swept ts i' (Some k) s'"
    using s' aw' act started_taken by (simp add: swept_def)
  ultimately show ?thesis using s'(1,2) by blast
qed

text \<open>After a step the set's maximum answers which sequence numbers are suppressed, and whether the key is covered at all.\<close>

lemma sweep_step:
  assumes "swept ts i prev s"
    and "sorted_wrt (\<lambda>x y. started k (fst y) \<longrightarrow> started k (fst x)) ts"
    and "\<And>l. prev = Some l \<Longrightarrow> before l k"
    and "activate_while (started k) activate ts i s = (i', s1)"
  shows "\<exists>s'. expire k s1 = Some s' \<and> swept ts i' (Some k) s' \<and>
    (\<forall>q. (case max_seqno s' of None \<Rightarrow> False | Some mx \<Rightarrow> q < mx) \<longleftrightarrow>
       (\<exists>t\<in>set ts. visible_pair t \<and> started k (fst t) \<and> \<not> expired (bound (fst t)) k \<and>
          q < rt_seqno (fst t)))"
  using sweep_active [OF assms] suppressed_iff by fastforce

lemma sweep_covered:
  assumes "swept ts i prev s"
    and "sorted_wrt (\<lambda>x y. started k (fst y) \<longrightarrow> started k (fst x)) ts"
    and "\<And>l. prev = Some l \<Longrightarrow> before l k"
    and "activate_while (started k) activate ts i s = (i', s1)"
  shows "\<exists>s'. expire k s1 = Some s' \<and> swept ts i' (Some k) s' \<and>
    (max_seqno s' \<noteq> None \<longleftrightarrow>
       (\<exists>t\<in>set ts. visible_pair t \<and> started k (fst t) \<and> \<not> expired (bound (fst t)) k))"
proof -
  obtain s' where s': "expire k s1 = Some s'" "invar s'" "swept ts i' (Some k) s'"
    "set_mset (active s') = bound_entry bound `
      {t \<in> set ts. visible_pair t \<and> started k (fst t) \<and> \<not> expired (bound (fst t)) k}"
    using sweep_active [OF assms] by blast
  have "max_seqno s' \<noteq> None \<longleftrightarrow> active s' \<noteq> {#}" using max_law [OF s'(2)] by simp
  also have "\<dots> \<longleftrightarrow> set_mset (active s') \<noteq> {}" by simp
  also have "\<dots> \<longleftrightarrow> (\<exists>t\<in>set ts. visible_pair t \<and> started k (fst t) \<and> \<not> expired (bound (fst t)) k)"
    unfolding s'(4) by blast
  finally show ?thesis using s'(1,3) by blast
qed

end

subsection \<open>The two sets keep the contract\<close>

definition ats_active :: "active_set \<Rightarrow> (user_key \<times> seqno) multiset" where
  "ats_active s = mset (map (\<lambda>(b, _, q). (b, q)) (pending_expiry s))"

definition ats_room :: "active_set \<Rightarrow> nat" where
  "ats_room s = 2 ^ 32 - 1 - unat (next_id s)"

text \<open>\<open>R\<close> orders the bounds along the vector: descending ends, or ascending starts.\<close>

definition ats_wf :: "(user_key \<Rightarrow> user_key \<Rightarrow> bool) \<Rightarrow> active_set \<Rightarrow> bool" where
  "ats_wf R s \<longleftrightarrow>
     sorted_wrt (\<lambda>x y. R (fst x) (fst y)) (pending_expiry s) \<and>
     counts_ok (seqno_counts s) (mset (map (\<lambda>(_, _, q). q) (pending_expiry s))) \<and>
     (\<forall>(_, i, _)\<in>set (pending_expiry s). i < next_id s) \<and>
     length (pending_expiry s) \<le> unat (next_id s) \<and> unat (next_id s) < 2 ^ 32"

lemma ats_new_wf: "ats_wf R ats_new" "ats_active ats_new = {#}" "ats_room ats_new = 2 ^ 32 - 1"
  by (auto simp: ats_wf_def ats_new_def ats_active_def ats_room_def counts_ok_def)

lemma ats_clear_new: "ats_clear s = ats_new"
  by (simp add: ats_clear_def ats_new_def)

lemma ats_active_max:
  assumes "ats_wf R s"
  shows "max_active_seqno s =
    (if ats_active s = {#} then None else Some (Max (snd ` set_mset (ats_active s))))"
proof -
  have "snd ` set_mset (ats_active s) = set (map (\<lambda>(_, _, q). q) (pending_expiry s))"
    by (force simp: ats_active_def)
  moreover have "counts_ok (seqno_counts s) (mset (map (\<lambda>(_, _, q). q) (pending_expiry s)))"
    using assms by (simp only: ats_wf_def)
  ultimately show ?thesis
    using counts_ok_max by (simp add: max_active_seqno_def ats_active_def)
qed

lemma ats_insert_wf:
  fixes q :: seqno
  assumes wf: "ats_wf R s" and room: "0 < ats_room s"
    and f: "\<And>e. e \<in> set (pending_expiry s) \<Longrightarrow> f e = (if p (fst e) then Less else Greater)"
    and p: "\<And>x y. R x y \<Longrightarrow> p y \<Longrightarrow> p x" "\<And>x. p x \<Longrightarrow> R x b" "\<And>x. \<not> p x \<Longrightarrow> R b x"
  defines "s' \<equiv> \<lparr>seqno_counts = count_incr (seqno_counts s) q,
    pending_expiry = vec_insert (search_index (binary_search_by f (pending_expiry s)))
      (b, next_id s, q) (pending_expiry s), next_id = next_id s + 1\<rparr>"
  shows "ats_wf R s' \<and> ats_room s \<le> Suc (ats_room s') \<and>
    ats_active s' = add_mset (b, q) (ats_active s)"
proof -
  have id: "unat (next_id s) + 1 < 2 ^ 32" using room by (simp add: ats_room_def)
  then have succ: "unat (next_id s + 1) = Suc (unat (next_id s))"
    by (simp add: unat_word_ariths)
  have sorted: "sorted_wrt (\<lambda>x y. R (fst x) (fst y)) (pending_expiry s)"
    using wf by (simp only: ats_wf_def)
  have "probe_mono f (pending_expiry s)"
    by (rule probe_mono_two [OF f]) (use sorted p(1) in \<open>auto elim!: sorted_wrt_mono_rel [rotated]\<close>)
  note parts = binary_search_parts [OF this]
  have "sorted_wrt (\<lambda>x y. R (fst x) (fst y)) (pending_expiry s')"
    unfolding s'_def active_set.select_convs
  proof (rule sorted_vec_insert [OF sorted])
    show "R (fst y) (fst (b, next_id s, q))"
      if "y \<in> set (take (search_index (binary_search_by f (pending_expiry s))) (pending_expiry s))" for y
      using parts(1) [OF that] f [OF in_set_takeD [OF that]] p(2) by (simp split: if_splits)
    show "R (fst (b, next_id s, q)) (fst y)"
      if "y \<in> set (drop (search_index (binary_search_by f (pending_expiry s))) (pending_expiry s))" for y
      using parts(2) [OF that] f [OF in_set_dropD [OF that]] p(3) by (simp split: if_splits)
  qed
  moreover have "\<forall>(_, i, _)\<in>set (pending_expiry s'). i < next_id s'"
    using wf succ by (auto simp: s'_def ats_wf_def word_less_nat_alt)
  moreover have "length (pending_expiry s') \<le> unat (next_id s')"
  proof -
    have "length (pending_expiry s') = Suc (length (pending_expiry s))"
      by (metis mset_vec_insert s'_def active_set.select_convs(2) size_add_mset size_mset)
    then show ?thesis using wf succ by (simp add: s'_def ats_wf_def)
  qed
  ultimately show ?thesis
    using wf succ id counts_ok_incr [of "seqno_counts s" _ q]
    by (simp add: ats_wf_def ats_room_def ats_active_def s'_def)
qed

lemma expire_loop_filter:
  "sorted_wrt (\<lambda>x y. expired (fst y) \<longrightarrow> expired (fst x)) ps \<Longrightarrow>
   counts_ok m (mset (map (\<lambda>(_, _, q). q) ps)) \<Longrightarrow> length ps < 2 ^ 32 \<Longrightarrow>
   \<exists>m'. expire_loop expired ps m = Some (filter (\<lambda>x. \<not> expired (fst x)) ps, m') \<and>
     counts_ok m' (mset (map (\<lambda>(_, _, q). q) (filter (\<lambda>x. \<not> expired (fst x)) ps)))"
proof (induction ps arbitrary: m)
  case (Cons p ps)
  obtain b i q where p: "p = (b, i, q)" by (cases p)
  show ?case
  proof (cases "expired b")
    case False
    with Cons.prems(1) have "filter (\<lambda>x. \<not> expired (fst x)) ps = ps"
      by (auto simp: p filter_id_conv)
    with False Cons.prems show ?thesis by (simp add: p)
  next
    case True
    obtain m' where "count_decr m q = Some m'" "counts_ok m' (mset (map (\<lambda>(_, _, q). q) ps))"
      using counts_ok_decr [of m q "mset (map (\<lambda>(_, _, q). q) ps)"] Cons.prems(2,3)
      by (auto simp: p)
    with True Cons show ?thesis by (auto simp: p)
  qed
qed simp

lemma ats_expire_wf:
  assumes wf: "ats_wf R s" and R: "\<And>x y. R x y \<Longrightarrow> expired x \<Longrightarrow> expired y"
  shows "\<exists>s'. map_option (\<lambda>(ps, m). s\<lparr>pending_expiry := rev ps, seqno_counts := m\<rparr>)
      (expire_loop expired (rev (pending_expiry s)) (seqno_counts s)) = Some s' \<and>
    ats_wf R s' \<and> ats_room s' = ats_room s \<and>
    ats_active s' = filter_mset (\<lambda>b. \<not> expired (fst b)) (ats_active s)"
proof -
  let ?keep = "filter (\<lambda>x. \<not> expired (fst x))"
  have "sorted_wrt (\<lambda>x y. expired (fst y) \<longrightarrow> expired (fst x)) (rev (pending_expiry s))"
    using wf R by (auto simp: ats_wf_def sorted_wrt_rev elim!: sorted_wrt_mono_rel [rotated])
  then obtain m' where m':
    "expire_loop expired (rev (pending_expiry s)) (seqno_counts s) = Some (?keep (rev (pending_expiry s)), m')"
    "counts_ok m' (mset (map (\<lambda>(_, _, q). q) (?keep (rev (pending_expiry s)))))"
    using expire_loop_filter [of expired "rev (pending_expiry s)" "seqno_counts s"] wf
    by (auto simp: ats_wf_def)
  define s' where "s' = s\<lparr>pending_expiry := ?keep (pending_expiry s), seqno_counts := m'\<rparr>"
  have "counts_ok m' (mset (map (\<lambda>(_, _, q). q) (?keep (pending_expiry s))))"
    using m'(2) by (simp flip: rev_filter rev_map)
  then have "ats_wf R s'"
    using wf by (auto simp: ats_wf_def s'_def sorted_wrt_filter intro: order_trans [OF length_filter_le])
  moreover have "ats_active s' = filter_mset (\<lambda>b. \<not> expired (fst b)) (ats_active s)"
    by (simp add: ats_active_def s'_def filter_mset_image_mset case_prod_beta)
  ultimately show ?thesis
    using m'(1) by (simp add: s'_def ats_room_def flip: rev_filter)
qed

sublocale user_comparator \<subseteq> fwd: tombstone_sweep rt_end "\<lambda>b k. cmp b k \<noteq> Greater"
    "ats_activate cmp" "ats_expire_until cmp" max_active_seqno "ats_wf (\<lambda>x y. kle cmp y x)"
    ats_room ats_active "kle cmp" "\<lambda>k rt. cmp (rt_start rt) k \<noteq> Greater"
proof
  fix s and rt :: range_tombstone and cutoff assume wf: "ats_wf (\<lambda>x y. kle cmp y x) s" and room: "0 < ats_room s"
  have "(\<lambda>(e, i, _). then_with (cmp (rt_end rt) e) (ord_cmp i (next_id s))) e =
    (if kle cmp (rt_end rt) (fst e) then Less else Greater)" if "e \<in> set (pending_expiry s)" for e
    using wf that by (auto simp: ats_wf_def key_order keys.le_less split: prod.splits)
  note ins = ats_insert_wf [where p = "kle cmp (rt_end rt)" and b = "rt_end rt" and q = "rt_seqno rt",
      OF wf room this]
  then show "ats_wf (\<lambda>x y. kle cmp y x) (ats_activate cmp rt cutoff s) \<and>
    ats_room s \<le> Suc (ats_room (ats_activate cmp rt cutoff s)) \<and>
    ats_active (ats_activate cmp rt cutoff s) =
      (if visible_at rt cutoff then add_mset (rt_end rt, rt_seqno rt) (ats_active s) else ats_active s)"
    using wf by (auto simp: ats_activate_def Let_def dest: keys.order_trans keys.less_imp_le)
next
  fix s k assume "ats_wf (\<lambda>x y. kle cmp y x) s"
  then show "\<exists>s'. ats_expire_until cmp k s = Some s' \<and> ats_wf (\<lambda>x y. kle cmp y x) s' \<and>
      ats_room s' = ats_room s \<and>
      ats_active s' = filter_mset (\<lambda>b. \<not> cmp (fst b) k \<noteq> Greater) (ats_active s)"
    unfolding ats_expire_until_def
    by (rule ats_expire_wf) (auto simp: cmp_neq_Greater dest: keys.order_trans)
qed (auto simp: cmp_neq_Greater ats_active_max dest: keys.order_trans)

sublocale user_comparator \<subseteq> rvs: tombstone_sweep rt_start "\<lambda>b k. cmp k b = Less"
    "atsr_activate cmp" "atsr_expire_until cmp" max_active_seqno "ats_wf (kle cmp)"
    ats_room ats_active "\<lambda>k k'. kle cmp k' k" "\<lambda>k rt. cmp (rt_end rt) k = Greater"
proof
  fix s and rt :: range_tombstone and cutoff assume wf: "ats_wf (kle cmp) s" and room: "0 < ats_room s"
  have "(\<lambda>(b, i, _). then_with (cmp b (rt_start rt)) (ord_cmp i (next_id s))) e =
    (if kle cmp (fst e) (rt_start rt) then Less else Greater)" if "e \<in> set (pending_expiry s)" for e
    using wf that by (auto simp: ats_wf_def key_order keys.le_less split: prod.splits)
  note ins = ats_insert_wf [where p = "\<lambda>b. kle cmp b (rt_start rt)" and b = "rt_start rt"
      and q = "rt_seqno rt", OF wf room this]
  then show "ats_wf (kle cmp) (atsr_activate cmp rt cutoff s) \<and>
    ats_room s \<le> Suc (ats_room (atsr_activate cmp rt cutoff s)) \<and>
    ats_active (atsr_activate cmp rt cutoff s) =
      (if visible_at rt cutoff then add_mset (rt_start rt, rt_seqno rt) (ats_active s) else ats_active s)"
    using wf by (auto simp: atsr_activate_def Let_def dest: keys.order_trans keys.less_imp_le)
next
  fix s k assume "ats_wf (kle cmp) s"
  then show "\<exists>s'. atsr_expire_until cmp k s = Some s' \<and> ats_wf (kle cmp) s' \<and>
      ats_room s' = ats_room s \<and>
      ats_active s' = filter_mset (\<lambda>b. \<not> cmp k (fst b) = Less) (ats_active s)"
    unfolding atsr_expire_until_def
    by (rule ats_expire_wf) (auto simp: cmp_klt dest: keys.less_le_trans)
qed (auto simp: cmp_klt ats_active_max dest: keys.less_le_trans keys.le_less_trans)

end
