(* ===== verification/Double_Ended.thy ===== *)
theory Double_Ended
  imports Prelude
begin

text \<open>
  Double-ended iterators. The contract of a (fused) \<open>DoubleEndedIterator\<close> is the locale
  \<open>double_ended_iterator\<close>: it refines a deque, whatever the interleaving of \<open>next\<close> and
  \<open>next_back\<close>. \<open>double_ended_peekable.rs\<close> is modelled over an arbitrary inner iterator and
  shown to keep the contract, peeks included.
\<close>

subsection \<open>The specification: a deque\<close>

fun pop_front :: "'a list \<Rightarrow> 'a option \<times> 'a list" where
  "pop_front [] = (None, [])"
| "pop_front (x # xs) = (Some x, xs)"

definition pop_back :: "'a list \<Rightarrow> 'a option \<times> 'a list" where
  "pop_back xs = (if xs = [] then (None, []) else (Some (last xs), butlast xs))"

datatype side = Front | Back

text \<open>A client's calls, and the results an iterator with state \<open>'s\<close> gives them.\<close>

fun iter_run ::
  "('s \<Rightarrow> 'a option \<times> 's) \<Rightarrow> ('s \<Rightarrow> 'a option \<times> 's) \<Rightarrow> side list \<Rightarrow> 's \<Rightarrow> 'a option list \<times> 's" where
  "iter_run nxt nxtb [] s = ([], s)"
| "iter_run nxt nxtb (d # ds) s =
     (let (r, s') = (case d of Front \<Rightarrow> nxt s | Back \<Rightarrow> nxtb s);
          (rs, s'') = iter_run nxt nxtb ds s'
      in (r # rs, s''))"

abbreviation deque_run :: "side list \<Rightarrow> 'a list \<Rightarrow> 'a option list \<times> 'a list" where
  "deque_run \<equiv> iter_run pop_front pop_back"

lemma pop_back_simps [simp]: "pop_back [] = (None, [])" "pop_back (xs @ [x]) = (Some x, xs)"
  by (simp_all add: pop_back_def)

lemma deque_run_drain: "deque_run (replicate (length xs) Front) xs = (map Some xs, [])"
  by (induction xs) auto

lemma deque_run_drain_end:
  "fst (deque_run (replicate (length xs) Front @ [Front]) xs) = map Some xs @ [None]"
  by (induction xs) (auto split: prod.splits)

lemma deque_run_drain_back:
  "deque_run (replicate (length xs) Back) xs = (map Some (rev xs), [])"
  by (induction xs rule: rev_induct) auto

subsection \<open>The contract\<close>

locale double_ended_iterator =
  fixes nxt :: "'s \<Rightarrow> 'a option \<times> 's"
    and nxt_back :: "'s \<Rightarrow> 'a option \<times> 's"
    and invar :: "'s \<Rightarrow> bool"
    and rest :: "'s \<Rightarrow> 'a list"
  assumes nxt_law: "invar s \<Longrightarrow> nxt s = (r, s') \<Longrightarrow> invar s' \<and> pop_front (rest s) = (r, rest s')"
    and nxt_back_law:
      "invar s \<Longrightarrow> nxt_back s = (r, s') \<Longrightarrow> invar s' \<and> pop_back (rest s) = (r, rest s')"
begin

lemma run_refines:
  "invar s \<Longrightarrow> iter_run nxt nxt_back ds s = (rs, s') \<Longrightarrow>
   invar s' \<and> deque_run ds (rest s) = (rs, rest s')"
proof (induction ds arbitrary: s rs s')
  case (Cons d ds)
  obtain r s1 where one: "(case d of Front \<Rightarrow> nxt s | Back \<Rightarrow> nxt_back s) = (r, s1)" by (rule prod.exhaust)
  obtain rs1 s2 where two: "iter_run nxt nxt_back ds s1 = (rs1, s2)" by (rule prod.exhaust)
  have "invar s1 \<and> (case d of Front \<Rightarrow> pop_front (rest s) | Back \<Rightarrow> pop_back (rest s)) = (r, rest s1)"
  proof (cases d)
    case Front
    with one nxt_law [OF Cons.prems(1)] show ?thesis by simp
  next
    case Back
    with one nxt_back_law [OF Cons.prems(1)] show ?thesis by simp
  qed
  moreover from this Cons.IH [OF _ two] have "invar s2 \<and> deque_run ds (rest s1) = (rs1, rest s2)"
    by blast
  ultimately show ?case
    using Cons.prems(2) one two by auto
qed simp

lemma run_results:
  "invar s \<Longrightarrow> fst (iter_run nxt nxt_back ds s) = fst (deque_run ds (rest s))"
  using run_refines by (metis fst_conv prod.exhaust)

text \<open>Forward iteration yields the remaining items, then \<open>None\<close>.\<close>

lemma drain_forward:
  "invar s \<Longrightarrow> fst (iter_run nxt nxt_back (replicate (length (rest s)) Front) s) = map Some (rest s)"
  by (simp add: run_results deque_run_drain)

lemma drain_backward:
  "invar s \<Longrightarrow> fst (iter_run nxt nxt_back (replicate (length (rest s)) Back) s) = map Some (rev (rest s))"
  by (simp add: run_results deque_run_drain_back)

end

text \<open>
  An iterator used in one direction only. \<open>holds s xs\<close>: from state \<open>s\<close> it yields \<open>xs\<close>, then \<open>None\<close>
  for ever.
\<close>

fun pull_run :: "nat \<Rightarrow> ('s \<Rightarrow> 'a option \<times> 's) \<Rightarrow> 's \<Rightarrow> 'a option list \<times> 's" where
  "pull_run 0 nxt s = ([], s)"
| "pull_run (Suc n) nxt s = (let (r, s') = nxt s; (rs, s'') = pull_run n nxt s' in (r # rs, s''))"

lemma iter_run_one_way:
  "iter_run nxt nxtb (replicate n Front) s = pull_run n nxt s"
  "iter_run nxt nxtb (replicate n Back) s = pull_run n nxtb s"
  by (induction n arbitrary: s) auto

locale one_way_iterator =
  fixes nxt :: "'s \<Rightarrow> 'a option \<times> 's"
    and holds :: "'s \<Rightarrow> 'a list \<Rightarrow> bool"
  assumes one_way: "holds s xs \<Longrightarrow> nxt s = (r, s') \<Longrightarrow> \<exists>xs'. holds s' xs' \<and> pop_front xs = (r, xs')"
begin

lemma pull_run_refines:
  "holds s xs \<Longrightarrow> pull_run n nxt s = (rs, s') \<Longrightarrow>
   \<exists>xs'. holds s' xs' \<and> pull_run n pop_front xs = (rs, xs')"
proof (induction n arbitrary: s xs rs)
  case (Suc n)
  obtain r s1 where one: "nxt s = (r, s1)" by (rule prod.exhaust)
  obtain rs1 where two: "pull_run n nxt s1 = (rs1, s')" "rs = r # rs1"
    using Suc.prems(2) one by (auto simp: Let_def split: prod.splits)
  obtain xs1 where x: "holds s1 xs1" "pop_front xs = (r, xs1)" using one_way [OF Suc.prems(1) one] by blast
  obtain xs' where "holds s' xs'" "pull_run n pop_front xs1 = (rs1, xs')"
    using Suc.IH [OF x(1) two(1)] by blast
  then show ?case using x two by (auto simp: Let_def)
qed simp

lemma pull_run_results: "holds s xs \<Longrightarrow> fst (pull_run n nxt s) = fst (pull_run n pop_front xs)"
  using pull_run_refines [of s xs n "fst (pull_run n nxt s)" "snd (pull_run n nxt s)"] by auto

end

lemma pull_run_list:
  "fst (pull_run n pop_front xs) = map Some (take n xs) @ replicate (n - length xs) None"
proof (induction n arbitrary: xs)
  case (Suc n)
  then show ?case by (cases xs) (simp_all add: Let_def case_prod_beta)
qed simp

text \<open>The iterator over a list of items, \<open>vec::IntoIter\<close>, keeps it.\<close>

interpretation list_iter: double_ended_iterator pop_front pop_back "\<lambda>_. True" "\<lambda>xs. xs"
  by unfold_locales auto

subsection \<open>The peekable adapter\<close>

datatype 'a maybe_peeked = Unpeeked | Peeked "'a option"

record ('a, 's) peekable =
  iter_slot :: 's
  front_slot :: "'a maybe_peeked"
  back_slot :: "'a maybe_peeked"

definition double_ended_peekable :: "'s \<Rightarrow> ('a, 's) peekable" where
  "double_ended_peekable s = \<lparr>iter_slot = s, front_slot = Unpeeked, back_slot = Unpeeked\<rparr>"

text \<open>\<open>into_peeked_value\<close> and \<open>peeked_value_ref\<close>.\<close>

fun peeked_value :: "'a maybe_peeked \<Rightarrow> 'a option" where
  "peeked_value Unpeeked = None"
| "peeked_value (Peeked v) = v"

definition reset_front_peeked :: "('a, 's) peekable \<Rightarrow> ('a, 's) peekable" where
  "reset_front_peeked p = p\<lparr>front_slot := Unpeeked\<rparr>"

definition reset_back_peeked :: "('a, 's) peekable \<Rightarrow> ('a, 's) peekable" where
  "reset_back_peeked p = p\<lparr>back_slot := Unpeeked\<rparr>"

definition peek ::
  "('s \<Rightarrow> 'a option \<times> 's) \<Rightarrow> ('a, 's) peekable \<Rightarrow> 'a option \<times> ('a, 's) peekable" where
  "peek nxt p =
     (let p' = (case front_slot p of
                  Unpeeked \<Rightarrow> (let (x, s) = nxt (iter_slot p) in p\<lparr>iter_slot := s, front_slot := Peeked x\<rparr>)
                | Peeked _ \<Rightarrow> p)
      in (case peeked_value (front_slot p') of Some x \<Rightarrow> Some x | None \<Rightarrow> peeked_value (back_slot p'), p'))"

definition peek_back ::
  "('s \<Rightarrow> 'a option \<times> 's) \<Rightarrow> ('a, 's) peekable \<Rightarrow> 'a option \<times> ('a, 's) peekable" where
  "peek_back nxt_back p =
     (let p' = (case back_slot p of
                  Unpeeked \<Rightarrow> (let (x, s) = nxt_back (iter_slot p) in p\<lparr>iter_slot := s, back_slot := Peeked x\<rparr>)
                | Peeked _ \<Rightarrow> p)
      in (case peeked_value (back_slot p') of Some x \<Rightarrow> Some x | None \<Rightarrow> peeked_value (front_slot p'), p'))"

definition peekable_next ::
  "('s \<Rightarrow> 'a option \<times> 's) \<Rightarrow> ('a, 's) peekable \<Rightarrow> 'a option \<times> ('a, 's) peekable" where
  "peekable_next nxt p =
     (case front_slot p of
        Peeked (Some x) \<Rightarrow> (Some x, p\<lparr>front_slot := Unpeeked\<rparr>)
      | Peeked None \<Rightarrow> (peeked_value (back_slot p), p\<lparr>front_slot := Unpeeked, back_slot := Unpeeked\<rparr>)
      | Unpeeked \<Rightarrow>
          (case nxt (iter_slot p) of
             (Some x, s) \<Rightarrow> (Some x, p\<lparr>iter_slot := s\<rparr>)
           | (None, s) \<Rightarrow> (peeked_value (back_slot p), p\<lparr>iter_slot := s, back_slot := Unpeeked\<rparr>)))"

definition peekable_next_back ::
  "('s \<Rightarrow> 'a option \<times> 's) \<Rightarrow> ('a, 's) peekable \<Rightarrow> 'a option \<times> ('a, 's) peekable" where
  "peekable_next_back nxt_back p =
     (case back_slot p of
        Peeked (Some x) \<Rightarrow> (Some x, p\<lparr>back_slot := Unpeeked\<rparr>)
      | Peeked None \<Rightarrow> (peeked_value (front_slot p), p\<lparr>back_slot := Unpeeked, front_slot := Unpeeked\<rparr>)
      | Unpeeked \<Rightarrow>
          (case nxt_back (iter_slot p) of
             (Some x, s) \<Rightarrow> (Some x, p\<lparr>iter_slot := s\<rparr>)
           | (None, s) \<Rightarrow> (peeked_value (front_slot p), p\<lparr>iter_slot := s, front_slot := Unpeeked\<rparr>)))"

definition next_if ::
  "('s \<Rightarrow> 'a option \<times> 's) \<Rightarrow> ('a \<Rightarrow> bool) \<Rightarrow> ('a, 's) peekable \<Rightarrow> 'a option \<times> ('a, 's) peekable" where
  "next_if nxt f p =
     (case peekable_next nxt p of
        (Some x, p') \<Rightarrow> if f x then (Some x, p') else (None, p'\<lparr>front_slot := Peeked (Some x)\<rparr>)
      | (None, p') \<Rightarrow> (None, p'\<lparr>front_slot := Peeked None\<rparr>))"

subsection \<open>The adapter keeps the contract\<close>

text \<open>A side that peeked \<open>None\<close> has seen the inner iterator exhausted.\<close>

definition peekable_wf :: "('s \<Rightarrow> bool) \<Rightarrow> ('s \<Rightarrow> 'a list) \<Rightarrow> ('a, 's) peekable \<Rightarrow> bool" where
  "peekable_wf invar rest p \<longleftrightarrow> invar (iter_slot p) \<and>
     (front_slot p = Peeked None \<or> back_slot p = Peeked None \<longrightarrow> rest (iter_slot p) = [])"

definition peekable_rest :: "('s \<Rightarrow> 'a list) \<Rightarrow> ('a, 's) peekable \<Rightarrow> 'a list" where
  "peekable_rest rest p =
     (case peeked_value (front_slot p) of Some x \<Rightarrow> [x] | None \<Rightarrow> []) @ rest (iter_slot p) @
     (case peeked_value (back_slot p) of Some x \<Rightarrow> [x] | None \<Rightarrow> [])"

lemma pop_front_cases:
  "pop_front xs = (r, ys) \<Longrightarrow> (r = None \<and> xs = [] \<and> ys = []) \<or> (\<exists>x. r = Some x \<and> xs = x # ys)"
  by (cases xs) auto

lemma pop_back_cases:
  "pop_back xs = (r, ys) \<Longrightarrow> (r = None \<and> xs = [] \<and> ys = []) \<or> (\<exists>x. r = Some x \<and> xs = ys @ [x])"
  by (cases xs rule: rev_cases) auto

lemma maybe_peeked_cases:
  obtains (Unpeeked) "m = Unpeeked" | (None) "m = Peeked None" | (Some) x where "m = Peeked (Some x)"
  by (metis maybe_peeked.exhaust option.exhaust)

locale peekable_source = double_ended_iterator
begin

lemma inner_cases:
  assumes "invar s" "nxt s = (r, s')"
  shows "invar s' \<and> (r = None \<and> rest s = [] \<and> rest s' = [] \<or> (\<exists>x. r = Some x \<and> rest s = x # rest s'))"
  using nxt_law [OF assms] pop_front_cases by blast

lemma inner_back_cases:
  assumes "invar s" "nxt_back s = (r, s')"
  shows "invar s' \<and>
    (r = None \<and> rest s = [] \<and> rest s' = [] \<or> (\<exists>x. r = Some x \<and> rest s = rest s' @ [x]))"
  using nxt_back_law [OF assms] pop_back_cases by blast

lemma peek_law:
  assumes "peekable_wf invar rest p" "peek nxt p = (r, p')"
  shows "peekable_wf invar rest p' \<and> peekable_rest rest p' = peekable_rest rest p \<and>
    r = fst (pop_front (peekable_rest rest p))"
proof -
  obtain x s where n: "nxt (iter_slot p) = (x, s)" by (rule prod.exhaust)
  have inv: "invar (iter_slot p)" using assms(1) by (simp add: peekable_wf_def)
  from inner_cases [OF inv n] show ?thesis
    using assms n
    by (cases "front_slot p" rule: maybe_peeked_cases; cases "back_slot p" rule: maybe_peeked_cases)
      (auto simp: peekable_wf_def peekable_rest_def peek_def Let_def)
qed

lemma peek_back_law:
  assumes "peekable_wf invar rest p" "peek_back nxt_back p = (r, p')"
  shows "peekable_wf invar rest p' \<and> peekable_rest rest p' = peekable_rest rest p \<and>
    r = fst (pop_back (peekable_rest rest p))"
proof -
  obtain x s where n: "nxt_back (iter_slot p) = (x, s)" by (rule prod.exhaust)
  have inv: "invar (iter_slot p)" using assms(1) by (simp add: peekable_wf_def)
  from inner_back_cases [OF inv n] show ?thesis
    using assms n
    by (cases "front_slot p" rule: maybe_peeked_cases; cases "back_slot p" rule: maybe_peeked_cases)
      (auto simp: peekable_wf_def peekable_rest_def peek_back_def Let_def pop_back_def
        butlast_append)
qed

lemma peekable_next_law:
  assumes "peekable_wf invar rest p" "peekable_next nxt p = (r, p')"
  shows "peekable_wf invar rest p' \<and> pop_front (peekable_rest rest p) = (r, peekable_rest rest p')"
proof -
  obtain x s where n: "nxt (iter_slot p) = (x, s)" by (rule prod.exhaust)
  have inv: "invar (iter_slot p)" using assms(1) by (simp add: peekable_wf_def)
  from inner_cases [OF inv n] show ?thesis
    using assms n
    by (cases "front_slot p" rule: maybe_peeked_cases; cases "back_slot p" rule: maybe_peeked_cases)
      (auto simp: peekable_wf_def peekable_rest_def peekable_next_def)
qed

lemma peekable_next_back_law:
  assumes "peekable_wf invar rest p" "peekable_next_back nxt_back p = (r, p')"
  shows "peekable_wf invar rest p' \<and> pop_back (peekable_rest rest p) = (r, peekable_rest rest p')"
proof -
  obtain x s where n: "nxt_back (iter_slot p) = (x, s)" by (rule prod.exhaust)
  have inv: "invar (iter_slot p)" using assms(1) by (simp add: peekable_wf_def)
  from inner_back_cases [OF inv n] show ?thesis
    using assms n
    by (cases "front_slot p" rule: maybe_peeked_cases; cases "back_slot p" rule: maybe_peeked_cases)
      (auto simp: peekable_wf_def peekable_rest_def peekable_next_back_def pop_back_def
        butlast_append)
qed

lemma next_if_law:
  assumes "peekable_wf invar rest p" "next_if nxt f p = (r, p')"
  shows "peekable_wf invar rest p' \<and>
    (case peekable_rest rest p of
       x # xs \<Rightarrow> if f x then r = Some x \<and> peekable_rest rest p' = xs
                 else r = None \<and> peekable_rest rest p' = x # xs
     | [] \<Rightarrow> r = None \<and> peekable_rest rest p' = [])"
proof -
  obtain y q where n: "peekable_next nxt p = (y, q)" by (rule prod.exhaust)
  note law = peekable_next_law [OF assms(1) n]
  have fr: "front_slot q = Unpeeked"
    using n by (auto simp: peekable_next_def split: maybe_peeked.splits option.splits prod.splits)
  show ?thesis
  proof (cases y)
    case None
    then have "peekable_rest rest p = []" "peekable_rest rest q = []"
      using law pop_front_cases [of "peekable_rest rest p"] by auto
    then show ?thesis using law assms(2) n None fr
      by (auto simp: next_if_def peekable_wf_def peekable_rest_def split: option.splits)
  next
    case (Some x)
    then have "peekable_rest rest p = x # peekable_rest rest q"
      using law pop_front_cases [of "peekable_rest rest p"] by auto
    then show ?thesis using law assms(2) n Some fr
      by (auto simp: next_if_def peekable_wf_def peekable_rest_def split: if_splits)
  qed
qed

end

sublocale peekable_source \<subseteq> peeked: double_ended_iterator
    "peekable_next nxt" "peekable_next_back nxt_back" "peekable_wf invar rest" "peekable_rest rest"
  using peekable_next_law peekable_next_back_law by unfold_locales blast+

interpretation list_peek: peekable_source pop_front pop_back "\<lambda>_. True" "\<lambda>xs. xs"
  by unfold_locales

subsection \<open>Every client of the adapter sees a deque\<close>

datatype 'a peek_op = PNext | PNextBack | PPeek | PPeekBack | PNextIf "'a \<Rightarrow> bool"

fun peekable_step ::
  "'a peek_op \<Rightarrow> ('a, 'a list) peekable \<Rightarrow> 'a option \<times> ('a, 'a list) peekable" where
  "peekable_step PNext p = peekable_next pop_front p"
| "peekable_step PNextBack p = peekable_next_back pop_back p"
| "peekable_step PPeek p = peek pop_front p"
| "peekable_step PPeekBack p = peek_back pop_back p"
| "peekable_step (PNextIf f) p = next_if pop_front f p"

fun deque_step :: "'a peek_op \<Rightarrow> 'a list \<Rightarrow> 'a option \<times> 'a list" where
  "deque_step PNext xs = pop_front xs"
| "deque_step PNextBack xs = pop_back xs"
| "deque_step PPeek xs = (fst (pop_front xs), xs)"
| "deque_step PPeekBack xs = (fst (pop_back xs), xs)"
| "deque_step (PNextIf f) xs =
     (case xs of x # xs' \<Rightarrow> if f x then (Some x, xs') else (None, xs) | [] \<Rightarrow> (None, []))"

fun op_run :: "('o \<Rightarrow> 's \<Rightarrow> 'r \<times> 's) \<Rightarrow> 'o list \<Rightarrow> 's \<Rightarrow> 'r list" where
  "op_run step [] s = []"
| "op_run step (d # ds) s = (let (r, s') = step d s in r # op_run step ds s')"

abbreviation list_peek_wf :: "('a, 'a list) peekable \<Rightarrow> bool" where
  "list_peek_wf \<equiv> peekable_wf (\<lambda>_. True) (\<lambda>xs. xs)"

abbreviation list_peek_rest :: "('a, 'a list) peekable \<Rightarrow> 'a list" where
  "list_peek_rest \<equiv> peekable_rest (\<lambda>xs. xs)"

lemma peekable_step_refines:
  assumes "list_peek_wf p" "peekable_step d p = (r, p')"
  shows "list_peek_wf p' \<and> deque_step d (list_peek_rest p) = (r, list_peek_rest p')"
proof (cases d)
  case PNext
  then show ?thesis using assms list_peek.peekable_next_law by simp
next
  case PNextBack
  then show ?thesis using assms list_peek.peekable_next_back_law by simp
next
  case PPeek
  then show ?thesis using assms list_peek.peek_law [OF assms(1)] by simp
next
  case PPeekBack
  then show ?thesis using assms list_peek.peek_back_law [OF assms(1)] by simp
next
  case (PNextIf f)
  then show ?thesis using assms list_peek.next_if_law [OF assms(1), of f r p']
    by (auto split: list.splits if_splits)
qed

lemma peekable_run_refines:
  "list_peek_wf p \<Longrightarrow> op_run peekable_step ds p = op_run deque_step ds (list_peek_rest p)"
proof (induction ds arbitrary: p)
  case (Cons d ds)
  obtain r p' where one: "peekable_step d p = (r, p')" by (rule prod.exhaust)
  from peekable_step_refines [OF Cons.prems one] Cons.IH [of p'] one show ?case by simp
qed simp

text \<open>
  C23: over any items, every sequence of \<open>next\<close>, \<open>next_back\<close>, \<open>peek\<close>, \<open>peek_back\<close> and
  \<open>next_if\<close> calls on a \<open>DoubleEndedPeekable\<close> returns what the same calls return on a deque of
  those items: peeks never lose, duplicate or reorder an item, also when the two ends meet.
\<close>

theorem double_ended_peekable_is_deque:
  "op_run peekable_step ds (double_ended_peekable xs) = op_run deque_step ds xs"
  using peekable_run_refines [of "double_ended_peekable xs" ds]
  by (simp add: double_ended_peekable_def peekable_wf_def peekable_rest_def)

end
