(* ===== verification/Tombstone_Filter.thy ===== *)
theory Tombstone_Filter
  imports Active_Tombstones Double_Ended
begin

text \<open>
  \<open>range_tombstone_filter.rs\<close>: the read-path iterator that drops entries a range tombstone
  deletes. It sweeps a sorted tombstone list along with the entries, in each direction with its
  own active set. The inner iterator is the list of its remaining items; the comparator of the
  struct is the first argument of the operations. An \<open>expect\<close> panic of an active set is the
  item \<open>Inl Panicked\<close>.
\<close>

type_synonym item = "lsm_error + internal_value"

record rt_filter =
  rtf_inner :: "item list"
  fwd_tombstones :: "(range_tombstone \<times> seqno) list"
  fwd_idx :: nat
  fwd_active :: active_set
  fwd_initialized :: bool
  rev_tombstones :: "(range_tombstone \<times> seqno) list"
  rev_idx :: nat
  rev_active :: active_set
  rev_initialized :: bool

definition rtf_new :: "item list \<Rightarrow> (range_tombstone \<times> seqno) list \<Rightarrow> rt_filter" where
  "rtf_new xs ts =
     \<lparr>rtf_inner = xs, fwd_tombstones = ts, fwd_idx = 0, fwd_active = ats_new,
      fwd_initialized = False, rev_tombstones = [], rev_idx = 0, rev_active = ats_new,
      rev_initialized = False\<rparr>"

definition ensure_fwd_initialized :: "comparator \<Rightarrow> rt_filter \<Rightarrow> rt_filter" where
  "ensure_fwd_initialized c st =
     (if \<not> fwd_initialized st
      then st\<lparr>fwd_tombstones :=
               sort_by (\<lambda>a b. cmp_with_comparator c (fst a) (fst b)) (fwd_tombstones st),
             fwd_initialized := True\<rparr>
      else st)"

definition rev_tombstone_cmp ::
  "comparator \<Rightarrow> range_tombstone \<times> seqno \<Rightarrow> range_tombstone \<times> seqno \<Rightarrow> ordering" where
  "rev_tombstone_cmp c a b =
     then_with (then_with (c (rt_end (fst b)) (rt_end (fst a)))
         (ord_cmp (rt_seqno (fst b)) (rt_seqno (fst a))))
       (c (rt_start (fst a)) (rt_start (fst b)))"

definition ensure_rev_initialized :: "comparator \<Rightarrow> rt_filter \<Rightarrow> rt_filter" where
  "ensure_rev_initialized c st =
     (if \<not> rev_initialized st
      then (let st1 = ensure_fwd_initialized c st
            in st1\<lparr>rev_tombstones := sort_by (rev_tombstone_cmp c) (fwd_tombstones st1),
                   rev_initialized := True\<rparr>)
      else st)"

definition fwd_activate_up_to :: "comparator \<Rightarrow> user_key \<Rightarrow> rt_filter \<Rightarrow> rt_filter" where
  "fwd_activate_up_to c k st =
     (let (i, a) = activate_while (\<lambda>rt. c (rt_start rt) k \<noteq> Greater) (ats_activate c)
                     (fwd_tombstones st) (fwd_idx st) (fwd_active st)
      in st\<lparr>fwd_idx := i, fwd_active := a\<rparr>)"

definition rev_activate_up_to :: "comparator \<Rightarrow> user_key \<Rightarrow> rt_filter \<Rightarrow> rt_filter" where
  "rev_activate_up_to c k st =
     (let (i, a) = activate_while (\<lambda>rt. c (rt_end rt) k = Greater) (atsr_activate c)
                     (rev_tombstones st) (rev_idx st) (rev_active st)
      in st\<lparr>rev_idx := i, rev_active := a\<rparr>)"

text \<open>\<open>reseek\<close>: what the inner iterator yields after its own \<open>reseek\<close> is \<open>ys\<close>.\<close>

definition rtf_reseek :: "item list \<Rightarrow> rt_filter \<Rightarrow> rt_filter" where
  "rtf_reseek ys st =
     st\<lparr>fwd_idx := 0, rev_idx := 0, fwd_active := ats_clear (fwd_active st),
        rev_active := ats_clear (rev_active st), rtf_inner := ys\<rparr>"

text \<open>The loops of \<open>next\<close> and \<open>next_back\<close>; the latter takes the inner items from the back.\<close>

fun rtf_next_loop :: "comparator \<Rightarrow> item list \<Rightarrow> rt_filter \<Rightarrow> item option \<times> rt_filter" where
  "rtf_next_loop c [] st = (None, st\<lparr>rtf_inner := []\<rparr>)"
| "rtf_next_loop c (Inl e # xs) st = (Some (Inl e), st\<lparr>rtf_inner := xs\<rparr>)"
| "rtf_next_loop c (Inr kv # xs) st =
     (let st1 = fwd_activate_up_to c (ukey kv) st
      in case ats_expire_until c (ukey kv) (fwd_active st1) of
           None \<Rightarrow> (Some (Inl Panicked), st1\<lparr>rtf_inner := xs\<rparr>)
         | Some a \<Rightarrow>
             (let st2 = st1\<lparr>fwd_active := a\<rparr>
              in if is_suppressed a (eseqno kv) then rtf_next_loop c xs st2
                 else (Some (Inr kv), st2\<lparr>rtf_inner := xs\<rparr>)))"

definition rtf_next :: "comparator \<Rightarrow> rt_filter \<Rightarrow> item option \<times> rt_filter" where
  "rtf_next c st = (let st1 = ensure_fwd_initialized c st in rtf_next_loop c (rtf_inner st1) st1)"

fun rtf_next_back_loop :: "comparator \<Rightarrow> item list \<Rightarrow> rt_filter \<Rightarrow> item option \<times> rt_filter" where
  "rtf_next_back_loop c [] st = (None, st\<lparr>rtf_inner := []\<rparr>)"
| "rtf_next_back_loop c (Inl e # xs) st = (Some (Inl e), st\<lparr>rtf_inner := rev xs\<rparr>)"
| "rtf_next_back_loop c (Inr kv # xs) st =
     (let st1 = rev_activate_up_to c (ukey kv) st
      in case atsr_expire_until c (ukey kv) (rev_active st1) of
           None \<Rightarrow> (Some (Inl Panicked), st1\<lparr>rtf_inner := rev xs\<rparr>)
         | Some a \<Rightarrow>
             (let st2 = st1\<lparr>rev_active := a\<rparr>
              in if is_suppressed a (eseqno kv) then rtf_next_back_loop c xs st2
                 else (Some (Inr kv), st2\<lparr>rtf_inner := rev xs\<rparr>)))"

definition rtf_next_back :: "comparator \<Rightarrow> rt_filter \<Rightarrow> item option \<times> rt_filter" where
  "rtf_next_back c st =
     (let st1 = ensure_rev_initialized c st in rtf_next_back_loop c (rev (rtf_inner st1)) st1)"

subsection \<open>The specification\<close>

text \<open>An item is kept unless it is an entry some tombstone suppresses at its cutoff.\<close>

definition rt_keeps :: "comparator \<Rightarrow> (range_tombstone \<times> seqno) list \<Rightarrow> item \<Rightarrow> bool" where
  "rt_keeps c ts x =
     (case x of
        Inl _ \<Rightarrow> True
      | Inr kv \<Rightarrow> \<not> list_ex (\<lambda>(rt, cutoff). should_suppress_with c rt (ukey kv) (eseqno kv) cutoff) ts)"

text \<open>Entries in key order; errors may stand anywhere between them.\<close>

fun item_le :: "comparator \<Rightarrow> item \<Rightarrow> item \<Rightarrow> bool" where
  "item_le c (Inr a) (Inr b) \<longleftrightarrow> kle c (ukey a) (ukey b)"
| "item_le c _ _ \<longleftrightarrow> True"

fun item_after :: "comparator \<Rightarrow> user_key option \<Rightarrow> item \<Rightarrow> bool" where
  "item_after c (Some k) (Inr e) \<longleftrightarrow> kle c k (ukey e)"
| "item_after c _ _ \<longleftrightarrow> True"

fun item_upto :: "comparator \<Rightarrow> user_key option \<Rightarrow> item \<Rightarrow> bool" where
  "item_upto c (Some k) (Inr e) \<longleftrightarrow> kle c (ukey e) k"
| "item_upto c _ _ \<longleftrightarrow> True"

subsection \<open>The forward and the reverse sweep\<close>

context user_comparator begin

lemma fwd_sorted_started:
  assumes "sorted_wrt (\<lambda>a b. cmp_with_comparator cmp (fst a) (fst b) \<noteq> Greater) ts"
  shows "sorted_wrt (\<lambda>x y. cmp (rt_start (fst y)) k \<noteq> Greater \<longrightarrow> cmp (rt_start (fst x)) k \<noteq> Greater) ts"
  using assms by (rule sorted_wrt_mono_rel [rotated])
    (auto simp: cmp_neq_Greater dest!: rt_cmp_start intro: keys.order_trans)

lemma fwd_preorder: "cmp_preorder (\<lambda>a b :: range_tombstone \<times> seqno. cmp_with_comparator cmp (fst a) (fst b))"
  unfolding cmp_preorder_def
  using cmp_preorderD [OF rt_cmp_preorder] by blast

lemma rev_tombstone_trans:
  "rev_tombstone_cmp cmp x y \<noteq> Greater \<Longrightarrow> rev_tombstone_cmp cmp y z \<noteq> Greater \<Longrightarrow>
   rev_tombstone_cmp cmp x z \<noteq> Greater"
  by (auto simp: rev_tombstone_cmp_def key_order not_less
      dest: keys.order_trans keys.less_le_trans keys.le_less_trans keys.order_antisym)

lemma rev_preorder: "cmp_preorder (rev_tombstone_cmp cmp)"
  unfolding cmp_preorder_def
proof (intro conjI allI impI)
  fix x y show "rev_tombstone_cmp cmp x y = Greater \<Longrightarrow> rev_tombstone_cmp cmp y x \<noteq> Greater"
    by (auto simp: rev_tombstone_cmp_def key_order)
qed (rule rev_tombstone_trans)

lemma rev_sorted_started:
  assumes "sorted_wrt (\<lambda>a b. rev_tombstone_cmp cmp a b \<noteq> Greater) ts"
  shows "sorted_wrt (\<lambda>x y. cmp (rt_end (fst y)) k = Greater \<longrightarrow> cmp (rt_end (fst x)) k = Greater) ts"
  using assms by (rule sorted_wrt_mono_rel [rotated])
    (auto simp: rev_tombstone_cmp_def key_order intro: keys.less_le_trans)


definition fwd_ok :: "(range_tombstone \<times> seqno) list \<Rightarrow> user_key option \<Rightarrow> rt_filter \<Rightarrow> bool" where
  "fwd_ok ts lo st \<longleftrightarrow>
     mset (fwd_tombstones st) = mset ts \<and>
     fwd.swept (fwd_tombstones st) (fwd_idx st) lo (fwd_active st) \<and>
     (if fwd_initialized st
      then sorted_wrt (\<lambda>a b. cmp_with_comparator cmp (fst a) (fst b) \<noteq> Greater) (fwd_tombstones st)
      else lo = None)"

definition rev_ok :: "(range_tombstone \<times> seqno) list \<Rightarrow> user_key option \<Rightarrow> rt_filter \<Rightarrow> bool" where
  "rev_ok ts hi st \<longleftrightarrow>
     (if rev_initialized st
      then mset (rev_tombstones st) = mset ts \<and>
        rvs.swept (rev_tombstones st) (rev_idx st) hi (rev_active st) \<and>
        sorted_wrt (\<lambda>a b. rev_tombstone_cmp cmp a b \<noteq> Greater) (rev_tombstones st)
      else hi = None \<and> rev_idx st = 0 \<and> rev_active st = ats_new)"

lemma ok_frame [simp]:
  "fwd_ok ts lo (st\<lparr>rtf_inner := xs\<rparr>) = fwd_ok ts lo st"
  "fwd_ok ts lo (st\<lparr>rev_active := a\<rparr>) = fwd_ok ts lo st"
  "fwd_ok ts lo (rev_activate_up_to cmp k st) = fwd_ok ts lo st"
  "rev_ok ts hi (st\<lparr>rtf_inner := xs\<rparr>) = rev_ok ts hi st"
  "rev_ok ts hi (st\<lparr>fwd_active := a\<rparr>) = rev_ok ts hi st"
  "rev_ok ts hi (fwd_activate_up_to cmp k st) = rev_ok ts hi st"
  "fwd_initialized (fwd_activate_up_to cmp k st) = fwd_initialized st"
  "rev_initialized (rev_activate_up_to cmp k st) = rev_initialized st"
  by (simp_all add: fwd_ok_def rev_ok_def rev_activate_up_to_def fwd_activate_up_to_def
      split: prod.splits)

lemma swept_new:
  assumes "length ts < 2 ^ 32"
  shows "fwd.swept ts 0 None ats_new" and "rvs.swept ts 0 None ats_new"
  using assms by (auto intro!: fwd.swept_start rvs.swept_start simp: ats_new_wf)

lemma fwd_step:
  assumes ok: "fwd_ok ts lo st" and init: "fwd_initialized st"
    and lo: "\<And>l. lo = Some l \<Longrightarrow> kle cmp l k"
  shows "\<exists>a. ats_expire_until cmp k (fwd_active (fwd_activate_up_to cmp k st)) = Some a \<and>
    fwd_ok ts (Some k) ((fwd_activate_up_to cmp k st)\<lparr>fwd_active := a\<rparr>) \<and>
    (\<forall>q. is_suppressed a q \<longleftrightarrow>
       list_ex (\<lambda>(rt, cutoff). should_suppress_with cmp rt k q cutoff) ts)"
proof -
  obtain i a1 where aw: "activate_while (\<lambda>rt. cmp (rt_start rt) k \<noteq> Greater) (ats_activate cmp)
      (fwd_tombstones st) (fwd_idx st) (fwd_active st) = (i, a1)" by (rule prod.exhaust)
  have sw: "fwd.swept (fwd_tombstones st) (fwd_idx st) lo (fwd_active st)"
    and sorted: "sorted_wrt (\<lambda>a b. cmp_with_comparator cmp (fst a) (fst b) \<noteq> Greater) (fwd_tombstones st)"
    and ts: "mset (fwd_tombstones st) = mset ts"
    using ok init by (auto simp: fwd_ok_def)
  obtain a where a: "ats_expire_until cmp k a1 = Some a" "fwd.swept (fwd_tombstones st) i (Some k) a"
    "\<And>q. is_suppressed a q \<longleftrightarrow> (\<exists>t\<in>set (fwd_tombstones st). visible_pair t \<and>
       cmp (rt_start (fst t)) k \<noteq> Greater \<and> \<not> cmp (rt_end (fst t)) k \<noteq> Greater \<and> q < rt_seqno (fst t))"
    using fwd.sweep_step [OF sw fwd_sorted_started [OF sorted] lo aw]
    unfolding is_suppressed_def by blast
  have "set (fwd_tombstones st) = set ts" using ts by (metis mset_eq_setD)
  then have "is_suppressed a q \<longleftrightarrow> list_ex (\<lambda>(rt, cutoff). should_suppress_with cmp rt k q cutoff) ts" for q
    by (auto simp: a(3) list_ex_iff should_suppress_with_def contains_key_with_def cmp_antisym Bex_def)
  with a aw ok init show ?thesis
    by (simp add: fwd_activate_up_to_def fwd_ok_def)
qed

lemma rev_step:
  assumes ok: "rev_ok ts hi st" and init: "rev_initialized st"
    and hi: "\<And>l. hi = Some l \<Longrightarrow> kle cmp k l"
  shows "\<exists>a. atsr_expire_until cmp k (rev_active (rev_activate_up_to cmp k st)) = Some a \<and>
    rev_ok ts (Some k) ((rev_activate_up_to cmp k st)\<lparr>rev_active := a\<rparr>) \<and>
    (\<forall>q. is_suppressed a q \<longleftrightarrow>
       list_ex (\<lambda>(rt, cutoff). should_suppress_with cmp rt k q cutoff) ts)"
proof -
  obtain i a1 where aw: "activate_while (\<lambda>rt. cmp (rt_end rt) k = Greater) (atsr_activate cmp)
      (rev_tombstones st) (rev_idx st) (rev_active st) = (i, a1)" by (rule prod.exhaust)
  have sw: "rvs.swept (rev_tombstones st) (rev_idx st) hi (rev_active st)"
    and sorted: "sorted_wrt (\<lambda>a b. rev_tombstone_cmp cmp a b \<noteq> Greater) (rev_tombstones st)"
    and ts: "mset (rev_tombstones st) = mset ts"
    using ok init by (auto simp: rev_ok_def)
  obtain a where a: "atsr_expire_until cmp k a1 = Some a" "rvs.swept (rev_tombstones st) i (Some k) a"
    "\<And>q. is_suppressed a q \<longleftrightarrow> (\<exists>t\<in>set (rev_tombstones st). visible_pair t \<and>
       cmp (rt_end (fst t)) k = Greater \<and> \<not> cmp k (rt_start (fst t)) = Less \<and> q < rt_seqno (fst t))"
    using rvs.sweep_step [OF sw rev_sorted_started [OF sorted] hi aw]
    unfolding is_suppressed_def by blast
  have "set (rev_tombstones st) = set ts" using ts by (metis mset_eq_setD)
  then have "is_suppressed a q \<longleftrightarrow> list_ex (\<lambda>(rt, cutoff). should_suppress_with cmp rt k q cutoff) ts" for q
    by (auto simp: a(3) list_ex_iff should_suppress_with_def contains_key_with_def cmp_antisym Bex_def)
  with a aw ok init show ?thesis
    by (simp add: rev_activate_up_to_def rev_ok_def)
qed

lemma rtf_next_loop_law:
  "fwd_ok ts lo st \<Longrightarrow> fwd_initialized st \<Longrightarrow> sorted_wrt (item_le cmp) xs \<Longrightarrow>
   (\<And>x. x \<in> set xs \<Longrightarrow> item_after cmp lo x) \<Longrightarrow> rtf_next_loop cmp xs st = (r, st') \<Longrightarrow>
   \<exists>lo' ys. fwd_ok ts lo' st' \<and> (\<forall>hi. rev_ok ts hi st' = rev_ok ts hi st) \<and>
     xs = ys @ rtf_inner st' \<and> (\<forall>x\<in>set (rtf_inner st'). item_after cmp lo' x) \<and>
     pop_front (filter (rt_keeps cmp ts) xs) = (r, filter (rt_keeps cmp ts) (rtf_inner st'))"
proof (induction xs arbitrary: st lo)
  case Nil
  then show ?case by auto
next
  case (Cons x xs)
  show ?case
  proof (cases x)
    case (Inl e)
    with Cons.prems have st': "r = Some (Inl e)" "st' = st\<lparr>rtf_inner := xs\<rparr>" by auto
    show ?thesis
      by (rule exI [of _ lo], rule exI [of _ "[x]"])
        (use Cons.prems Inl st' in \<open>auto simp: rt_keeps_def\<close>)
  next
    case (Inr kv)
    define st1 where "st1 = fwd_activate_up_to cmp (ukey kv) st"
    have "kle cmp l (ukey kv)" if "lo = Some l" for l
      using Cons.prems(4) [of x] that Inr by simp
    from fwd_step [OF Cons.prems(1,2) this]
    obtain a where a: "ats_expire_until cmp (ukey kv) (fwd_active st1) = Some a"
      "fwd_ok ts (Some (ukey kv)) (st1\<lparr>fwd_active := a\<rparr>)"
      "\<And>q. is_suppressed a q \<longleftrightarrow> list_ex (\<lambda>(rt, cutoff). should_suppress_with cmp rt (ukey kv) q cutoff) ts"
      unfolding st1_def by blast
    have keep: "rt_keeps cmp ts x \<longleftrightarrow> \<not> is_suppressed a (eseqno kv)"
      by (simp add: rt_keeps_def Inr a(3))
    have same: "rev_ok ts hi (st1\<lparr>fwd_active := a\<rparr>) = rev_ok ts hi st" for hi
      by (simp add: st1_def)
    have init: "fwd_initialized (st1\<lparr>fwd_active := a\<rparr>)"
      using Cons.prems(2) by (simp add: st1_def)
    have after: "item_after cmp (Some (ukey kv)) y" if "y \<in> set xs" for y
      using Cons.prems(3) that Inr by (cases y) auto
    show ?thesis
    proof (cases "is_suppressed a (eseqno kv)")
      case True
      with Cons.prems(5) a(1) Inr have "rtf_next_loop cmp xs (st1\<lparr>fwd_active := a\<rparr>) = (r, st')"
        by (simp add: st1_def)
      from Cons.IH [OF a(2) init _ after this] Cons.prems(3)
      obtain lo' ys where "fwd_ok ts lo' st'" "\<forall>hi. rev_ok ts hi st' = rev_ok ts hi st"
        "xs = ys @ rtf_inner st'" "\<forall>x\<in>set (rtf_inner st'). item_after cmp lo' x"
        "pop_front (filter (rt_keeps cmp ts) xs) = (r, filter (rt_keeps cmp ts) (rtf_inner st'))"
        unfolding same by auto
      with True keep show ?thesis
        by (intro exI [of _ lo'] exI [of _ "x # ys"]) auto
    next
      case False
      with Cons.prems(5) a(1) Inr
      have st': "r = Some x" "st' = st1\<lparr>fwd_active := a, rtf_inner := xs\<rparr>"
        by (auto simp: st1_def)
      show ?thesis
        by (rule exI [of _ "Some (ukey kv)"], rule exI [of _ "[x]"])
          (use a(2) same after st' keep False in auto)
    qed
  qed
qed

lemma rtf_next_back_loop_law:
  "rev_ok ts hi st \<Longrightarrow> rev_initialized st \<Longrightarrow> sorted_wrt (\<lambda>x y. item_le cmp y x) xs \<Longrightarrow>
   (\<And>x. x \<in> set xs \<Longrightarrow> item_upto cmp hi x) \<Longrightarrow> rtf_next_back_loop cmp xs st = (r, st') \<Longrightarrow>
   \<exists>hi' ys. rev_ok ts hi' st' \<and> (\<forall>lo. fwd_ok ts lo st' = fwd_ok ts lo st) \<and>
     xs = ys @ rev (rtf_inner st') \<and> (\<forall>x\<in>set (rtf_inner st'). item_upto cmp hi' x) \<and>
     pop_front (filter (rt_keeps cmp ts) xs) = (r, filter (rt_keeps cmp ts) (rev (rtf_inner st')))"
proof (induction xs arbitrary: st hi)
  case Nil
  then show ?case by auto
next
  case (Cons x xs)
  show ?case
  proof (cases x)
    case (Inl e)
    with Cons.prems have st': "r = Some (Inl e)" "st' = st\<lparr>rtf_inner := rev xs\<rparr>" by auto
    show ?thesis
      by (rule exI [of _ hi], rule exI [of _ "[x]"])
        (use Cons.prems Inl st' in \<open>auto simp: rt_keeps_def\<close>)
  next
    case (Inr kv)
    define st1 where "st1 = rev_activate_up_to cmp (ukey kv) st"
    have "kle cmp (ukey kv) l" if "hi = Some l" for l
      using Cons.prems(4) [of x] that Inr by simp
    from rev_step [OF Cons.prems(1,2) this]
    obtain a where a: "atsr_expire_until cmp (ukey kv) (rev_active st1) = Some a"
      "rev_ok ts (Some (ukey kv)) (st1\<lparr>rev_active := a\<rparr>)"
      "\<And>q. is_suppressed a q \<longleftrightarrow> list_ex (\<lambda>(rt, cutoff). should_suppress_with cmp rt (ukey kv) q cutoff) ts"
      unfolding st1_def by blast
    have keep: "rt_keeps cmp ts x \<longleftrightarrow> \<not> is_suppressed a (eseqno kv)"
      by (simp add: rt_keeps_def Inr a(3))
    have same: "fwd_ok ts lo (st1\<lparr>rev_active := a\<rparr>) = fwd_ok ts lo st" for lo
      by (simp add: st1_def)
    have init: "rev_initialized (st1\<lparr>rev_active := a\<rparr>)"
      using Cons.prems(2) by (simp add: st1_def)
    have after: "item_upto cmp (Some (ukey kv)) y" if "y \<in> set xs" for y
      using Cons.prems(3) that Inr by (cases y) auto
    show ?thesis
    proof (cases "is_suppressed a (eseqno kv)")
      case True
      with Cons.prems(5) a(1) Inr have "rtf_next_back_loop cmp xs (st1\<lparr>rev_active := a\<rparr>) = (r, st')"
        by (simp add: st1_def)
      from Cons.IH [OF a(2) init _ after this] Cons.prems(3)
      obtain hi' ys where "rev_ok ts hi' st'" "\<forall>lo. fwd_ok ts lo st' = fwd_ok ts lo st"
        "xs = ys @ rev (rtf_inner st')" "\<forall>x\<in>set (rtf_inner st'). item_upto cmp hi' x"
        "pop_front (filter (rt_keeps cmp ts) xs) = (r, filter (rt_keeps cmp ts) (rev (rtf_inner st')))"
        unfolding same by auto
      with True keep show ?thesis
        by (intro exI [of _ hi'] exI [of _ "x # ys"]) auto
    next
      case False
      with Cons.prems(5) a(1) Inr
      have st': "r = Some x" "st' = st1\<lparr>rev_active := a, rtf_inner := rev xs\<rparr>"
        by (auto simp: st1_def)
      show ?thesis
        by (rule exI [of _ "Some (ukey kv)"], rule exI [of _ "[x]"])
          (use a(2) same after st' keep False in auto)
    qed
  qed
qed

lemma rtf_ensure_ok:
  assumes "fwd_ok ts lo st"
  shows "fwd_ok ts lo (ensure_fwd_initialized cmp st)"
    and "rev_ok ts hi (ensure_fwd_initialized cmp st) = rev_ok ts hi st"
    and "fwd_initialized (ensure_fwd_initialized cmp st)"
    and "rtf_inner (ensure_fwd_initialized cmp st) = rtf_inner st"
  using assms sorted_sort_by [OF fwd_preorder, of "fwd_tombstones st"]
  by (auto simp: ensure_fwd_initialized_def fwd_ok_def rev_ok_def fwd.swept_def split: if_splits)

lemma rtf_ensure_rev_ok:
  assumes "fwd_ok ts lo st" "rev_ok ts hi st" "length ts < 2 ^ 32"
  shows "fwd_ok ts lo (ensure_rev_initialized cmp st) \<and> rev_ok ts hi (ensure_rev_initialized cmp st) \<and>
    rev_initialized (ensure_rev_initialized cmp st) \<and>
    rtf_inner (ensure_rev_initialized cmp st) = rtf_inner st"
proof (cases "rev_initialized st")
  case True
  then show ?thesis using assms by (simp add: ensure_rev_initialized_def)
next
  case False
  define st1 where "st1 = ensure_fwd_initialized cmp st"
  note e = rtf_ensure_ok [OF assms(1), folded st1_def]
  have ts: "mset (fwd_tombstones st1) = mset ts" using e(1) by (simp add: fwd_ok_def)
  then have len: "length (fwd_tombstones st1) < 2 ^ 32" using assms(3) by (metis size_mset)
  have new: "hi = None" "rev_idx st1 = 0" "rev_active st1 = ats_new"
    using assms(2) False e(2) [of hi] by (auto simp: rev_ok_def st1_def ensure_fwd_initialized_def)
  have "rvs.swept (sort_by (rev_tombstone_cmp cmp) (fwd_tombstones st1)) 0 None ats_new"
    by (rule swept_new) (use len in simp)
  then show ?thesis
    using False e new ts sorted_sort_by [OF rev_preorder, of "fwd_tombstones st1"]
    by (auto simp: ensure_rev_initialized_def rev_ok_def fwd_ok_def Let_def simp flip: st1_def)
qed

definition rtf_ok :: "(range_tombstone \<times> seqno) list \<Rightarrow> rt_filter \<Rightarrow> bool" where
  "rtf_ok ts st \<longleftrightarrow> length ts < 2 ^ 32 \<and> sorted_wrt (item_le cmp) (rtf_inner st) \<and>
     (\<exists>lo hi. fwd_ok ts lo st \<and> rev_ok ts hi st \<and>
        (\<forall>x\<in>set (rtf_inner st). item_after cmp lo x \<and> item_upto cmp hi x))"

lemma rtf_next_law:
  assumes "rtf_ok ts st" "rtf_next cmp st = (r, st')"
  shows "rtf_ok ts st' \<and>
    pop_front (filter (rt_keeps cmp ts) (rtf_inner st)) = (r, filter (rt_keeps cmp ts) (rtf_inner st'))"
proof -
  obtain lo hi where ok: "length ts < 2 ^ 32" "sorted_wrt (item_le cmp) (rtf_inner st)"
    "fwd_ok ts lo st" "rev_ok ts hi st" "\<forall>x\<in>set (rtf_inner st). item_after cmp lo x \<and> item_upto cmp hi x"
    using assms(1) by (auto simp: rtf_ok_def)
  note e = rtf_ensure_ok [OF ok(3)]
  have "rtf_next_loop cmp (rtf_inner st) (ensure_fwd_initialized cmp st) = (r, st')"
    using assms(2) e(4) by (simp add: rtf_next_def)
  from rtf_next_loop_law [OF e(1) e(3) ok(2) _ this] ok(5)
  obtain lo' ys where l: "fwd_ok ts lo' st'" "\<And>hi. rev_ok ts hi st' = rev_ok ts hi st"
    "rtf_inner st = ys @ rtf_inner st'" "\<forall>x\<in>set (rtf_inner st'). item_after cmp lo' x"
    "pop_front (filter (rt_keeps cmp ts) (rtf_inner st)) = (r, filter (rt_keeps cmp ts) (rtf_inner st'))"
    unfolding e(2) by blast
  moreover have "sorted_wrt (item_le cmp) (rtf_inner st')"
    using ok(2) unfolding l(3) sorted_wrt_append by blast
  moreover have "\<forall>x\<in>set (rtf_inner st'). item_upto cmp hi x" using ok(5) l(3) by simp
  ultimately show ?thesis using ok(1,4) unfolding rtf_ok_def by blast
qed

lemma pop_back_rev: "pop_front (rev xs) = (r, rev ys) \<Longrightarrow> pop_back xs = (r, ys)"
  by (cases xs rule: rev_cases) auto

lemma rtf_next_back_law:
  assumes "rtf_ok ts st" "rtf_next_back cmp st = (r, st')"
  shows "rtf_ok ts st' \<and>
    pop_back (filter (rt_keeps cmp ts) (rtf_inner st)) = (r, filter (rt_keeps cmp ts) (rtf_inner st'))"
proof -
  obtain lo hi where ok: "length ts < 2 ^ 32" "sorted_wrt (item_le cmp) (rtf_inner st)"
    "fwd_ok ts lo st" "rev_ok ts hi st" "\<forall>x\<in>set (rtf_inner st). item_after cmp lo x \<and> item_upto cmp hi x"
    using assms(1) by (auto simp: rtf_ok_def)
  define st1 where "st1 = ensure_rev_initialized cmp st"
  have e: "fwd_ok ts lo st1" "rev_ok ts hi st1" "rev_initialized st1" "rtf_inner st1 = rtf_inner st"
    using rtf_ensure_rev_ok [OF ok(3,4,1)] by (simp_all add: st1_def)
  have loop: "rtf_next_back_loop cmp (rev (rtf_inner st)) st1 = (r, st')"
    using assms(2) e(4) by (simp add: rtf_next_back_def st1_def)
  have rs: "sorted_wrt (\<lambda>x y. item_le cmp y x) (rev (rtf_inner st))"
    using ok(2) by (simp add: sorted_wrt_rev)
  from rtf_next_back_loop_law [OF e(2) e(3) rs _ loop] ok(5)
  obtain hi' ys where l: "rev_ok ts hi' st'" "\<And>lo. fwd_ok ts lo st' = fwd_ok ts lo st1"
    "rev (rtf_inner st) = ys @ rev (rtf_inner st')" "\<forall>x\<in>set (rtf_inner st'). item_upto cmp hi' x"
    "pop_front (filter (rt_keeps cmp ts) (rev (rtf_inner st))) =
       (r, filter (rt_keeps cmp ts) (rev (rtf_inner st')))"
    by (metis set_rev)
  from l(3) have inner: "rtf_inner st = rtf_inner st' @ rev ys"
    by (metis rev_append rev_rev_ident)
  moreover have "sorted_wrt (item_le cmp) (rtf_inner st')"
    using ok(2) unfolding inner sorted_wrt_append by blast
  moreover have "\<forall>x\<in>set (rtf_inner st'). item_after cmp lo x" using ok(5) inner by simp
  ultimately show ?thesis
    using ok(1) e(1) l(1,2,4) pop_back_rev l(5) unfolding rtf_ok_def rev_filter [symmetric] by blast
qed

lemma rtf_new_ok:
  "length ts < 2 ^ 32 \<Longrightarrow> sorted_wrt (item_le cmp) xs \<Longrightarrow> rtf_ok ts (rtf_new xs ts)"
  unfolding rtf_ok_def
  by (auto simp: rtf_new_def fwd_ok_def rev_ok_def swept_new intro!: exI [of _ None])

lemma rtf_reseek_ok:
  assumes "rtf_ok ts st" "sorted_wrt (item_le cmp) ys"
  shows "rtf_ok ts (rtf_reseek ys st)"
proof -
  obtain lo hi where ok: "length ts < 2 ^ 32" "fwd_ok ts lo st" "rev_ok ts hi st"
    using assms(1) by (auto simp: rtf_ok_def)
  have "length (fwd_tombstones st) < 2 ^ 32" using ok(1,2) unfolding fwd_ok_def by (metis size_mset)
  moreover have "rev_initialized st \<Longrightarrow> length (rev_tombstones st) < 2 ^ 32"
    using ok(1,3) unfolding rev_ok_def by (metis size_mset)
  ultimately have "fwd_ok ts None (rtf_reseek ys st)" "rev_ok ts None (rtf_reseek ys st)"
    using ok by (auto simp: rtf_reseek_def fwd_ok_def rev_ok_def ats_clear_new swept_new)
  then show ?thesis
    using ok(1) assms(2) unfolding rtf_ok_def
    by (auto simp: rtf_reseek_def intro!: exI [of _ None])
qed

lemma rtf_iterator:
  "double_ended_iterator (rtf_next cmp) (rtf_next_back cmp) (rtf_ok ts)
     (\<lambda>st. filter (rt_keeps cmp ts) (rtf_inner st))"
  using rtf_next_law rtf_next_back_law by unfold_locales blast+

end

text \<open>The filter keeps the contract of a double-ended iterator over the kept items.\<close>

interpretation rt_filter_default: double_ended_iterator "rtf_next default_compare"
    "rtf_next_back default_compare" "default_cmp.rtf_ok ts"
    "\<lambda>st. filter (rt_keeps default_compare ts) (rtf_inner st)" for ts
  by (rule default_cmp.rtf_iterator)

lemma rtf_inner_new [simp]: "rtf_inner (rtf_new xs ts) = xs" "rtf_inner (rtf_reseek ys st) = ys"
  by (simp_all add: rtf_new_def rtf_reseek_def)

text \<open>
  C9: under every lawful comparator and for every interleaving of \<open>next\<close> and \<open>next_back\<close>, a
  \<open>RangeTombstoneFilter\<close> over sorted entries returns exactly the entries that no range tombstone
  suppresses at its cutoff, in order from each end, passes errors on, and never reaches the
  panic of an unmatched expiry; after a \<open>reseek\<close> the same holds of the new inner items.
\<close>

theorem rt_filter_exact:
  assumes "user_comparator c" "length ts < 2 ^ 32"
    and "sorted_wrt (item_le c) xs" "sorted_wrt (item_le c) ys"
  shows "fst (iter_run (rtf_next c) (rtf_next_back c) ds (rtf_new xs ts)) =
      fst (deque_run ds (filter (rt_keeps c ts) xs)) \<and>
    fst (iter_run (rtf_next c) (rtf_next_back c) ds'
        (rtf_reseek ys (snd (iter_run (rtf_next c) (rtf_next_back c) ds (rtf_new xs ts))))) =
      fst (deque_run ds' (filter (rt_keeps c ts) ys))"
proof -
  have new: "user_comparator.rtf_ok c ts (rtf_new xs ts)"
    using user_comparator.rtf_new_ok [OF assms(1-3)] .
  obtain rs st where run: "iter_run (rtf_next c) (rtf_next_back c) ds (rtf_new xs ts) = (rs, st)"
    by (rule prod.exhaust)
  note it = user_comparator.rtf_iterator [OF assms(1), of ts]
  have "user_comparator.rtf_ok c ts st"
    using double_ended_iterator.run_refines [OF it new run] by blast
  then have seek: "user_comparator.rtf_ok c ts (rtf_reseek ys st)"
    using user_comparator.rtf_reseek_ok [OF assms(1)] assms(4) by blast
  show ?thesis
    using double_ended_iterator.run_results [OF it new, of ds]
      double_ended_iterator.run_results [OF it seek, of ds'] by (simp add: run)
qed

theorem rt_filter_exact_witness:
  "let e = (\<lambda>k s. Inr \<lparr>key = \<lparr>user_key = [k], seqno = s, value_type = Value\<rparr>, val = []\<rparr> :: item);
       ts = [(\<lparr>rt_start = [2], rt_end = [4], rt_seqno = 5\<rparr>, 10)];
       xs = [e 1 1, e 2 3, e 3 7, e 4 2]
   in fst (iter_run (rtf_next default_compare) (rtf_next_back default_compare)
          [Front, Back, Front, Front] (rtf_new xs ts)) =
        [Some (e 1 1), Some (e 4 2), Some (e 3 7), None]"
proof -
  define e where "e = (\<lambda>k s. Inr \<lparr>key = \<lparr>user_key = [k], seqno = s, value_type = Value\<rparr>, val = []\<rparr> :: item)"
  define ts where "ts = [(\<lparr>rt_start = [2], rt_end = [4], rt_seqno = 5\<rparr> :: range_tombstone, 10 :: seqno)]"
  let ?xs = "[e 1 1, e 2 3, e 3 7, e 4 2]"
  have len: "length ts < 2 ^ 32" by (simp add: ts_def)
  have sorted: "sorted_wrt (item_le default_compare) ?xs"
    by (simp add: e_def kle_def default_compare_def ord_cmp_def)
  have keep: "filter (rt_keeps default_compare ts) ?xs = [e 1 1, e 3 7, e 4 2]"
    by (simp add: rt_keeps_def e_def ts_def should_suppress_with_def contains_key_with_def
        visible_at_def default_compare_def ord_cmp_def)
  show ?thesis
    using rt_filter_exact [OF user_comparator_default len sorted sorted, of "[Front, Back, Front, Front]" "[]"]
    unfolding keep by (simp add: Let_def e_def ts_def pop_back_def)
qed

end
