(* ===== verification/Mvcc_Stream.thy ===== *)
theory Mvcc_Stream
  imports Tombstone_Filter
begin

text \<open>
  \<open>mvcc_stream.rs\<close>: collapses a stream of versions to one item per user key, resolving merge
  operands with the tree's merge operator (\<open>merge_operator.rs\<close>, a parameter of the operations).
  The inner iterator is a \<open>DoubleEndedPeekable\<close> over the list of remaining items.
\<close>

type_synonym merge_fn = "user_key \<Rightarrow> user_value option \<Rightarrow> user_value list \<Rightarrow> lsm_error + user_value"
type_synonym item_peekable = "(item, item list) peekable"

record mvcc_stream =
  mv_inner :: item_peekable
  mv_merge_operator :: "merge_fn option"
  mv_range_tombstones :: "(range_tombstone \<times> seqno) list"
  key_entries_buf :: "internal_value list"

definition mvcc_new :: "item list \<Rightarrow> merge_fn option \<Rightarrow> mvcc_stream" where
  "mvcc_new xs m =
     \<lparr>mv_inner = double_ended_peekable xs, mv_merge_operator = m, mv_range_tombstones = [],
      key_entries_buf = []\<rparr>"

definition with_range_tombstones :: "(range_tombstone \<times> seqno) list \<Rightarrow> mvcc_stream \<Rightarrow> mvcc_stream" where
  "with_range_tombstones rts st = st\<lparr>mv_range_tombstones := rts\<rparr>"

definition is_rt_suppressed ::
  "comparator \<Rightarrow> (range_tombstone \<times> seqno) list \<Rightarrow> internal_value \<Rightarrow> bool" where
  "is_rt_suppressed c rts e =
     list_ex (\<lambda>(rt, cutoff). should_suppress_with c rt (ukey e) (eseqno e) cutoff) rts"

text \<open>The predicate both \<open>next_if\<close> calls use: same key, or an error.\<close>

definition same_key_or_err :: "user_key \<Rightarrow> item \<Rightarrow> bool" where
  "same_key_or_err k x = (case x of Inl _ \<Rightarrow> True | Inr kv \<Rightarrow> same_user_key (ukey kv) k)"

definition peekable_len :: "item_peekable \<Rightarrow> nat" where
  "peekable_len p = length (list_peek_rest p)"

lemma peekable_next_len:
  "peekable_next pop_front p = (Some x, p') \<Longrightarrow> peekable_len p' < peekable_len p"
  by (cases "front_slot p" rule: maybe_peeked_cases; cases "iter_slot p")
    (auto simp: peekable_next_def peekable_len_def peekable_rest_def)

lemma peekable_next_back_len:
  "peekable_next_back pop_back p = (Some x, p') \<Longrightarrow> peekable_len p' < peekable_len p"
  by (cases "back_slot p" rule: maybe_peeked_cases; cases "iter_slot p" rule: rev_cases)
    (auto simp: peekable_next_back_def peekable_len_def peekable_rest_def)

lemma next_if_len: "next_if pop_front f p = (Some x, p') \<Longrightarrow> peekable_len p' < peekable_len p"
  by (auto simp: next_if_def peekable_next_len split: prod.splits option.splits if_splits)

lemma peek_back_len: "peek_back pop_back p = (r, p') \<Longrightarrow> peekable_len p' = peekable_len p"
  by (cases "back_slot p" rule: maybe_peeked_cases; cases "iter_slot p" rule: rev_cases)
    (auto simp: peek_back_def peekable_len_def peekable_rest_def)

text \<open>\<open>drain_key_min\<close>: the result is the error that stopped it, if any.\<close>

function drain_key_min :: "user_key \<Rightarrow> item_peekable \<Rightarrow> lsm_error option \<times> item_peekable" where
  "drain_key_min k p =
     (case next_if pop_front (same_key_or_err k) p of
        (None, p') \<Rightarrow> (None, p')
      | (Some (Inl e), p') \<Rightarrow> (Some e, p')
      | (Some (Inr _), p') \<Rightarrow> drain_key_min k p')"
  by pat_completeness auto
termination
  by (relation "measure (\<lambda>(_, p). peekable_len p)") (auto dest: next_if_len [OF sym])

declare drain_key_min.simps [simp del]

text \<open>
  The collection loop of \<open>resolve_merge_forward\<close>: the operands so far, then whether a base was
  found, its value, and whether it is an indirection.
\<close>

record collected =
  col_operands :: "user_value list"
  col_base :: "user_value option"
  col_found :: bool
  col_indirection :: bool

function collect_forward ::
  "comparator \<Rightarrow> (range_tombstone \<times> seqno) list \<Rightarrow> user_key \<Rightarrow> user_value list \<Rightarrow> item_peekable \<Rightarrow>
   (lsm_error + collected) \<times> item_peekable" where
  "collect_forward c rts k operands p =
     (case next_if pop_front (same_key_or_err k) p of
        (None, p') \<Rightarrow>
          (Inr \<lparr>col_operands = operands, col_base = None, col_found = False, col_indirection = False\<rparr>, p')
      | (Some (Inl e), p') \<Rightarrow> (Inl e, p')
      | (Some (Inr nx), p') \<Rightarrow>
          if is_rt_suppressed c rts nx
          then (Inr \<lparr>col_operands = operands, col_base = None, col_found = True, col_indirection = False\<rparr>, p')
          else (case etype nx of
             MergeOperand \<Rightarrow> collect_forward c rts k (operands @ [val nx]) p'
           | Value \<Rightarrow> (Inr \<lparr>col_operands = operands, col_base = Some (val nx), col_found = True, col_indirection = False\<rparr>, p')
           | Indirection \<Rightarrow> (Inr \<lparr>col_operands = operands, col_base = None, col_found = True, col_indirection = True\<rparr>, p')
           | Tombstone \<Rightarrow> (Inr \<lparr>col_operands = operands, col_base = None, col_found = True, col_indirection = False\<rparr>, p')
           | WeakTombstone \<Rightarrow> (Inr \<lparr>col_operands = operands, col_base = None, col_found = True, col_indirection = False\<rparr>, p')))"
  by pat_completeness auto
termination
  by (relation "measure (\<lambda>(_, _, _, _, p). peekable_len p)") (auto dest: next_if_len [OF sym])

declare collect_forward.simps [simp del]

definition resolve_merge_forward ::
  "comparator \<Rightarrow> (range_tombstone \<times> seqno) list \<Rightarrow> internal_value \<Rightarrow> merge_fn \<Rightarrow> item_peekable \<Rightarrow>
   item \<times> item_peekable" where
  "resolve_merge_forward c rts hd_entry merge_op p =
     (case collect_forward c rts (ukey hd_entry) [val hd_entry] p of
        (Inl e, p1) \<Rightarrow> (Inl e, p1)
      | (Inr col, p1) \<Rightarrow>
          (case (if col_found col then drain_key_min (ukey hd_entry) p1 else (None, p1)) of
             (Some e, p2) \<Rightarrow> (Inl e, p2)
           | (None, p2) \<Rightarrow>
               (if col_indirection col then (Inr hd_entry, p2)
                else (case merge_op (ukey hd_entry) (col_base col) (rev (col_operands col)) of
                        Inl e \<Rightarrow> (Inl e, p2)
                      | Inr merged \<Rightarrow>
                          (from_components (ukey hd_entry) merged (eseqno hd_entry) Value, p2)))))"

text \<open>The scan of \<open>resolve_merge_buffered\<close>, over the entries newest first.\<close>

fun collect_buffered ::
  "comparator \<Rightarrow> (range_tombstone \<times> seqno) list \<Rightarrow> user_value list \<Rightarrow> internal_value list \<Rightarrow>
   user_value list \<times> user_value option \<times> bool" where
  "collect_buffered c rts operands [] = (operands, None, False)"
| "collect_buffered c rts operands (e # es) =
     (if is_rt_suppressed c rts e then (operands, None, False)
      else case etype e of
          MergeOperand \<Rightarrow> collect_buffered c rts (operands @ [val e]) es
        | Value \<Rightarrow> (operands, Some (val e), False)
        | Indirection \<Rightarrow> (operands, None, True)
        | Tombstone \<Rightarrow> (operands, None, False)
        | WeakTombstone \<Rightarrow> (operands, None, False))"

definition resolve_merge_buffered ::
  "comparator \<Rightarrow> (range_tombstone \<times> seqno) list \<Rightarrow> merge_fn option \<Rightarrow> internal_value list \<Rightarrow> item" where
  "resolve_merge_buffered c rts m entries =
     (case m of
        None \<Rightarrow> if entries = [] then Inl Unrecoverable else Inr (last entries)
      | Some merge_op \<Rightarrow>
          if entries = [] then Inl Unrecoverable
          else (let newest = last entries;
                    (operands, base, saw_indirection) = collect_buffered c rts [] (rev entries)
                in if saw_indirection then Inr newest
                   else case merge_op (ukey newest) base (rev operands) of
                          Inl e \<Rightarrow> Inl e
                        | Inr merged \<Rightarrow> from_components (ukey newest) merged (eseqno newest) Value))"

definition mvcc_next :: "comparator \<Rightarrow> mvcc_stream \<Rightarrow> item option \<times> mvcc_stream" where
  "mvcc_next c st =
     (case peekable_next pop_front (mv_inner st) of
        (None, p) \<Rightarrow> (None, st\<lparr>mv_inner := p\<rparr>)
      | (Some (Inl e), p) \<Rightarrow> (Some (Inl e), st\<lparr>mv_inner := p\<rparr>)
      | (Some (Inr h), p) \<Rightarrow>
          (case mv_merge_operator st of
             Some merge_op \<Rightarrow>
               if is_merge_operand (etype h) \<and> \<not> is_rt_suppressed c (mv_range_tombstones st) h
               then (let (r, p') = resolve_merge_forward c (mv_range_tombstones st) h merge_op p
                     in (Some r, st\<lparr>mv_inner := p'\<rparr>))
               else (case drain_key_min (ukey h) p of
                       (Some e, p') \<Rightarrow> (Some (Inl e), st\<lparr>mv_inner := p'\<rparr>)
                     | (None, p') \<Rightarrow> (Some (Inr h), st\<lparr>mv_inner := p'\<rparr>))
           | None \<Rightarrow>
               (case drain_key_min (ukey h) p of
                  (Some e, p') \<Rightarrow> (Some (Inl e), st\<lparr>mv_inner := p'\<rparr>)
                | (None, p') \<Rightarrow> (Some (Inr h), st\<lparr>mv_inner := p'\<rparr>))))"

text \<open>
  At a key boundary the newest entry is returned, or the buffered group is merged. The buffer is
  emptied by the merge (\<open>drain(..)\<close> or \<open>mem::take\<close>).
\<close>

definition mvcc_boundary ::
  "comparator \<Rightarrow> mvcc_stream \<Rightarrow> internal_value \<Rightarrow> item option \<times> mvcc_stream" where
  "mvcc_boundary c st tl_entry =
     (if mv_merge_operator st \<noteq> None \<and> is_merge_operand (etype tl_entry) \<and>
         \<not> is_rt_suppressed c (mv_range_tombstones st) tl_entry
      then (Some (resolve_merge_buffered c (mv_range_tombstones st) (mv_merge_operator st)
                    (key_entries_buf st @ [tl_entry])),
            st\<lparr>key_entries_buf := []\<rparr>)
      else (Some (Inr tl_entry), st))"

function mvcc_next_back_loop :: "comparator \<Rightarrow> mvcc_stream \<Rightarrow> item option \<times> mvcc_stream" where
  "mvcc_next_back_loop c st =
     (case peekable_next_back pop_back (mv_inner st) of
        (None, p) \<Rightarrow> (None, st\<lparr>mv_inner := p\<rparr>)
      | (Some (Inl e), p) \<Rightarrow> (Some (Inl e), st\<lparr>mv_inner := p\<rparr>)
      | (Some (Inr tl_entry), p) \<Rightarrow>
          (case peek_back pop_back p of
             (None, p') \<Rightarrow> mvcc_boundary c (st\<lparr>mv_inner := p'\<rparr>) tl_entry
           | (Some (Inl _), p') \<Rightarrow>
               (case peekable_next_back pop_back p' of
                  (Some (Inl e), p'') \<Rightarrow> (Some (Inl e), st\<lparr>mv_inner := p''\<rparr>)
                | (_, p'') \<Rightarrow> (Some (Inl Panicked), st\<lparr>mv_inner := p''\<rparr>))
           | (Some (Inr prev), p') \<Rightarrow>
               if \<not> same_user_key (ukey prev) (ukey tl_entry)
               then mvcc_boundary c (st\<lparr>mv_inner := p'\<rparr>) tl_entry
               else mvcc_next_back_loop c
                 (st\<lparr>mv_inner := p',
                    key_entries_buf := (if mv_merge_operator st \<noteq> None
                       then key_entries_buf st @ [tl_entry] else key_entries_buf st)\<rparr>)))"
  by pat_completeness auto
termination
  by (relation "measure (\<lambda>(_, st). peekable_len (mv_inner st))")
    (auto dest!: peekable_next_back_len [OF sym] peek_back_len [OF sym])

declare mvcc_next_back_loop.simps [simp del]

definition mvcc_next_back :: "comparator \<Rightarrow> mvcc_stream \<Rightarrow> item option \<times> mvcc_stream" where
  "mvcc_next_back c st = mvcc_next_back_loop c (st\<lparr>key_entries_buf := []\<rparr>)"

text \<open>\<open>reseek\<close>: what the inner iterator yields after its own \<open>reseek\<close> is \<open>ys\<close>.\<close>

definition mvcc_reseek :: "item list \<Rightarrow> mvcc_stream \<Rightarrow> mvcc_stream" where
  "mvcc_reseek ys st =
     st\<lparr>mv_inner := (reset_back_peeked (reset_front_peeked (mv_inner st)))\<lparr>iter_slot := ys\<rparr>,
        key_entries_buf := []\<rparr>"

subsection \<open>The specification: one item per key group\<close>

function key_groups :: "internal_value list \<Rightarrow> internal_value list list" where
  "key_groups [] = []"
| "key_groups (x # xs) =
     (x # takeWhile (\<lambda>e. ukey e = ukey x) xs) # key_groups (dropWhile (\<lambda>e. ukey e = ukey x) xs)"
  by pat_completeness auto
termination
  by (relation "measure length") (auto simp: le_imp_less_Suc length_dropWhile_le)

text \<open>
  The merge of a group, newest version first: its leading operands are applied, oldest first, to
  the value below them. A tombstone, a deletion by range or the end of the group is no base.
\<close>

definition live_operand :: "comparator \<Rightarrow> (range_tombstone \<times> seqno) list \<Rightarrow> internal_value \<Rightarrow> bool" where
  "live_operand c rts e \<longleftrightarrow> etype e = MergeOperand \<and> \<not> is_rt_suppressed c rts e"

definition merge_base ::
  "comparator \<Rightarrow> (range_tombstone \<times> seqno) list \<Rightarrow> internal_value list \<Rightarrow> internal_value option" where
  "merge_base c rts es =
     (case es of [] \<Rightarrow> None | b # _ \<Rightarrow> if is_rt_suppressed c rts b \<or> is_tombstone b then None else Some b)"

definition merge_group ::
  "comparator \<Rightarrow> (range_tombstone \<times> seqno) list \<Rightarrow> merge_fn \<Rightarrow> internal_value list \<Rightarrow> item" where
  "merge_group c rts merge_op g =
     (let h = hd g;
          operands = rev (map val (takeWhile (live_operand c rts) g));
          base = merge_base c rts (dropWhile (live_operand c rts) g)
      in if map_option etype base = Some Indirection then Inr h
         else case merge_op (ukey h) (map_option val base) operands of
                Inl e \<Rightarrow> Inl e
              | Inr merged \<Rightarrow> from_components (ukey h) merged (eseqno h) Value)"

definition mvcc_resolve ::
  "comparator \<Rightarrow> (range_tombstone \<times> seqno) list \<Rightarrow> merge_fn option \<Rightarrow> internal_value list \<Rightarrow> item" where
  "mvcc_resolve c rts m g =
     (case m of
        Some merge_op \<Rightarrow> if live_operand c rts (hd g) then merge_group c rts merge_op g else Inr (hd g)
      | None \<Rightarrow> Inr (hd g))"

lemma collect_buffered_spec:
  "collect_buffered c rts operands es =
     (operands @ map val (takeWhile (live_operand c rts) es),
      (case merge_base c rts (dropWhile (live_operand c rts) es) of
         Some b \<Rightarrow> if etype b = Value then Some (val b) else None | None \<Rightarrow> None),
      map_option etype (merge_base c rts (dropWhile (live_operand c rts) es)) = Some Indirection)"
  by (induction c rts operands es rule: collect_buffered.induct)
    (auto simp: live_operand_def merge_base_def is_tombstone_def is_tombstone_type_def
      split: value_type.splits)

lemma merge_base_cases:
  assumes "merge_base c rts (dropWhile (live_operand c rts) es) = Some b"
  shows "etype b = Value \<or> etype b = Indirection"
proof -
  obtain r where "dropWhile (live_operand c rts) es = b # r"
    and b: "\<not> is_rt_suppressed c rts b" "\<not> is_tombstone b"
    using assms by (auto simp: merge_base_def split: list.splits if_splits)
  then have "\<not> live_operand c rts b" by (simp add: dropWhile_eq_Cons_conv)
  with b show ?thesis
    by (cases "etype b") (auto simp: live_operand_def is_tombstone_def is_tombstone_type_def)
qed

lemma merge_group_buffered:
  "merge_group c rts merge_op g =
     (let (operands, base, saw_indirection) = collect_buffered c rts [] g
      in if saw_indirection then Inr (hd g)
         else case merge_op (ukey (hd g)) base (rev operands) of
                Inl e \<Rightarrow> Inl e
              | Inr merged \<Rightarrow> from_components (ukey (hd g)) merged (eseqno (hd g)) Value)"
  unfolding collect_buffered_spec merge_group_def Let_def
  by (auto dest: merge_base_cases split: option.splits)

subsection \<open>Key groups\<close>

lemma key_groups_dropWhile_all:
  "\<forall>e\<in>set xs. P e \<Longrightarrow> key_groups (dropWhile P xs) = []"
  by (metis dropWhile_eq_Nil_conv key_groups.simps(1))

lemma key_groups_append:
  assumes "g \<noteq> []" "\<forall>e\<in>set g. ukey e = k" "ys = [] \<or> ukey (last ys) \<noteq> k"
  shows "key_groups (ys @ g) = key_groups ys @ [g]"
  using assms(3)
proof (induction ys rule: key_groups.induct)
  case 1
  from assms(1,2) obtain h t where g: "g = h # t" "\<forall>e\<in>set t. ukey e = ukey h"
    by (cases g) auto
  then show ?case by (simp add: key_groups_dropWhile_all takeWhile_eq_all_conv)
next
  case (2 x xs)
  let ?P = "\<lambda>e. ukey e = ukey x"
  show ?case
  proof (cases "dropWhile ?P xs = []")
    case True
    then have all: "\<forall>e\<in>set xs. ?P e" by (simp add: dropWhile_eq_Nil_conv)
    then have "ukey (last (x # xs)) = ukey x" by (cases xs rule: rev_cases) auto
    with "2.prems" have k: "ukey x \<noteq> k" by auto
    from assms(1,2) k have "takeWhile ?P g = []" "dropWhile ?P g = g" by (cases g; auto)+
    moreover have "key_groups g = [g]"
      using "2.IH" True by simp
    ultimately show ?thesis using all True by (simp add: key_groups_dropWhile_all takeWhile_append dropWhile_append takeWhile_eq_all_conv [THEN iffD2])
  next
    case False
    then obtain e where e: "e \<in> set xs" "\<not> ?P e" by (auto simp: dropWhile_eq_Nil_conv)
    have "last (takeWhile ?P xs @ dropWhile ?P xs) = last (dropWhile ?P xs)"
      using False by (rule last_appendR)
    then have "last (dropWhile ?P xs) = last (x # xs)" using e(1) by auto
    with "2.IH" "2.prems" e show ?thesis
      by (simp add: takeWhile_append1 [of e] dropWhile_append1 [of e])
  qed
qed

lemma key_groups_nonempty: "g \<in> set (key_groups xs) \<Longrightarrow> g \<noteq> []"
  by (induction xs rule: key_groups.induct) auto

lemma concat_key_groups: "concat (key_groups xs) = xs"
  by (induction xs rule: key_groups.induct) auto

subsection \<open>The forward direction\<close>

text \<open>The remaining input is error-free and is \<open>zs\<close>.\<close>

definition feeds :: "item_peekable \<Rightarrow> internal_value list \<Rightarrow> bool" where
  "feeds p zs \<longleftrightarrow> list_peek_wf p \<and> list_peek_rest p = map Inr zs"

lemma feeds_next_if:
  assumes "feeds p zs"
  obtains (exhausted) p' where "zs = []" "next_if pop_front (same_key_or_err k) p = (None, p')" "feeds p' []"
  | (other) z zs' p' where "zs = z # zs'" "ukey z \<noteq> k"
      "next_if pop_front (same_key_or_err k) p = (None, p')" "feeds p' zs"
  | (same) z zs' p' where "zs = z # zs'" "ukey z = k"
      "next_if pop_front (same_key_or_err k) p = (Some (Inr z), p')" "feeds p' zs'"
proof -
  obtain r p' where n: "next_if pop_front (same_key_or_err k) p = (r, p')" by (rule prod.exhaust)
  have wf: "list_peek_wf p" "list_peek_rest p = map Inr zs" using assms by (auto simp: feeds_def)
  show thesis
  proof (cases zs)
    case Nil
    with list_peek.next_if_law [OF wf(1) n] wf(2) n show thesis
      by (intro exhausted [of p']) (auto simp: feeds_def)
  next
    case (Cons z zs')
    note law = list_peek.next_if_law [OF wf(1) n, unfolded wf(2) Cons list.map list.case]
    show thesis
    proof (cases "ukey z = k")
      case True
      with law n Cons show thesis
        by (intro same [of z zs' p']) (auto simp: feeds_def same_key_or_err_def same_user_key_def)
    next
      case False
      with law n Cons show thesis
        by (intro other [of z zs' p']) (auto simp: feeds_def same_key_or_err_def same_user_key_def)
    qed
  qed
qed

lemma drain_key_min_feeds:
  "feeds p zs \<Longrightarrow> \<exists>p'. drain_key_min k p = (None, p') \<and> feeds p' (dropWhile (\<lambda>e. ukey e = k) zs)"
proof (induction zs arbitrary: p)
  case Nil
  then show ?case
    by (cases rule: feeds_next_if [where k = k]) (auto simp: drain_key_min.simps)
next
  case (Cons z zs)
  from Cons.prems show ?case
  proof (cases rule: feeds_next_if [where k = k])
    case (same z' zs' p')
    with Cons.IH [of p'] show ?thesis by (simp add: drain_key_min.simps [of k p])
  qed (auto simp: drain_key_min.simps)
qed

lemma collect_forward_feeds:
  "feeds p zs \<Longrightarrow>
   \<exists>col p' zs'. collect_forward c rts k operands p = (Inr col, p') \<and> feeds p' zs' \<and>
     dropWhile (\<lambda>e. ukey e = k) zs' = dropWhile (\<lambda>e. ukey e = k) zs \<and>
     (\<not> col_found col \<longrightarrow> zs' = dropWhile (\<lambda>e. ukey e = k) zs) \<and>
     (col_operands col, col_base col, col_indirection col) =
       collect_buffered c rts operands (takeWhile (\<lambda>e. ukey e = k) zs)"
proof (induction zs arbitrary: p operands)
  case Nil
  then show ?case
    by (cases rule: feeds_next_if [where k = k]) (auto simp: collect_forward.simps)
next
  case (Cons z zs)
  from Cons.prems show ?case
  proof (cases rule: feeds_next_if [where k = k])
    case (same z' zs' p')
    with Cons.IH [of p' "operands @ [val z]"] show ?thesis
      by (cases "is_rt_suppressed c rts z"; cases "etype z")
        (auto simp: collect_forward.simps [of c rts k operands p])
  qed (auto simp: collect_forward.simps)
qed

lemma resolve_merge_forward_feeds:
  assumes "feeds p zs" "live_operand c rts h"
  shows "\<exists>p'. resolve_merge_forward c rts h op p =
      (merge_group c rts op (h # takeWhile (\<lambda>e. ukey e = ukey h) zs), p') \<and>
    feeds p' (dropWhile (\<lambda>e. ukey e = ukey h) zs)"
proof -
  let ?P = "\<lambda>e. ukey e = ukey h"
  obtain col p1 zs1 where col: "collect_forward c rts (ukey h) [val h] p = (Inr col, p1)" "feeds p1 zs1"
    "dropWhile ?P zs1 = dropWhile ?P zs" "\<not> col_found col \<longrightarrow> zs1 = dropWhile ?P zs"
    "(col_operands col, col_base col, col_indirection col) =
       collect_buffered c rts [val h] (takeWhile ?P zs)"
    using collect_forward_feeds [OF assms(1)] by blast
  obtain p2 where p2: "drain_key_min (ukey h) p1 = (None, p2)" "feeds p2 (dropWhile ?P zs)"
    using drain_key_min_feeds [OF col(2), of "ukey h"] col(3) by auto
  have "collect_buffered c rts [] (h # takeWhile ?P zs) = (col_operands col, col_base col, col_indirection col)"
    using assms(2) col(5) by (simp add: live_operand_def)
  then have "merge_group c rts op (h # takeWhile ?P zs) =
    (if col_indirection col then Inr h
     else case op (ukey h) (col_base col) (rev (col_operands col)) of
        Inl e \<Rightarrow> Inl e | Inr merged \<Rightarrow> from_components (ukey h) merged (eseqno h) Value)"
    unfolding merge_group_buffered by (simp del: collect_buffered.simps cong: sum.case_cong)
  then show ?thesis
    using col(1,2,4) p2 by (auto simp: resolve_merge_forward_def split: sum.splits)
qed

subsection \<open>The stream keeps the iterator contract\<close>

definition mvcc_ok ::
  "merge_fn option \<Rightarrow> (range_tombstone \<times> seqno) list \<Rightarrow> mvcc_stream \<Rightarrow> bool" where
  "mvcc_ok m rts st \<longleftrightarrow> mv_merge_operator st = m \<and> mv_range_tombstones st = rts \<and>
     (\<exists>zs. feeds (mv_inner st) zs)"

definition mvcc_rest ::
  "comparator \<Rightarrow> merge_fn option \<Rightarrow> (range_tombstone \<times> seqno) list \<Rightarrow> mvcc_stream \<Rightarrow> item list" where
  "mvcc_rest c m rts st =
     map (mvcc_resolve c rts m) (key_groups (map projr (list_peek_rest (mv_inner st))))"

lemma mvcc_rest_feeds:
  "feeds (mv_inner st) zs \<Longrightarrow> mvcc_rest c m rts st = map (mvcc_resolve c rts m) (key_groups zs)"
  by (simp add: mvcc_rest_def feeds_def o_def)

lemma mvcc_next_law:
  assumes "mvcc_ok m rts st" "mvcc_next c st = (r, st')"
  shows "mvcc_ok m rts st' \<and> pop_front (mvcc_rest c m rts st) = (r, mvcc_rest c m rts st')"
proof -
  obtain zs where zs: "feeds (mv_inner st) zs" and st: "mv_merge_operator st = m" "mv_range_tombstones st = rts"
    using assms(1) by (auto simp: mvcc_ok_def)
  then have wf: "list_peek_wf (mv_inner st)" "list_peek_rest (mv_inner st) = map Inr zs"
    by (auto simp: feeds_def)
  obtain x p where n: "peekable_next pop_front (mv_inner st) = (x, p)" by (rule prod.exhaust)
  note law = list_peek.peekable_next_law [OF wf(1) n]
  show ?thesis
  proof (cases zs)
    case Nil
    with law wf(2) have "x = None" "feeds p []" by (auto simp: feeds_def)
    with assms(2) n zs Nil st show ?thesis
      by (auto simp: mvcc_next_def mvcc_ok_def mvcc_rest_feeds)
  next
    case (Cons h t)
    let ?P = "\<lambda>e. ukey e = ukey h"
    have x: "x = Some (Inr h)" "feeds p t" using law wf(2) Cons by (auto simp: feeds_def)
    obtain pd where pd: "drain_key_min (ukey h) p = (None, pd)" "feeds pd (dropWhile ?P t)"
      using drain_key_min_feeds [OF x(2)] by blast
    have "\<exists>p'. st' = st\<lparr>mv_inner := p'\<rparr> \<and> feeds p' (dropWhile ?P t) \<and>
      r = Some (mvcc_resolve c rts m (h # takeWhile ?P t))"
    proof (cases "\<exists>op. m = Some op \<and> live_operand c rts h")
      case True
      then obtain op where op: "m = Some op" "live_operand c rts h" by blast
      then obtain p' where "resolve_merge_forward c rts h op p =
          (merge_group c rts op (h # takeWhile ?P t), p')" "feeds p' (dropWhile ?P t)"
        using resolve_merge_forward_feeds [OF x(2)] by blast
      with op st assms(2) n x show ?thesis
        by (auto simp: mvcc_next_def mvcc_resolve_def live_operand_def is_merge_operand_def)
    next
      case False
      then have "r = Some (Inr h) \<and> st' = st\<lparr>mv_inner := pd\<rparr>"
        using assms(2) n x pd st
        by (auto simp: mvcc_next_def live_operand_def is_merge_operand_def split: option.splits if_splits)
      with False pd(2) show ?thesis by (auto simp: mvcc_resolve_def split: option.splits)
    qed
    then obtain p' where p': "st' = st\<lparr>mv_inner := p'\<rparr>" "feeds p' (dropWhile ?P t)"
      "r = Some (mvcc_resolve c rts m (h # takeWhile ?P t))" by blast
    then show ?thesis
      using st zs Cons mvcc_rest_feeds [of st' "dropWhile ?P t"] by (auto simp: mvcc_ok_def mvcc_rest_feeds)
  qed
qed

lemma resolve_merge_buffered_group:
  "resolve_merge_buffered c rts (Some op) (buf @ [t]) = merge_group c rts op (t # rev buf)"
  unfolding resolve_merge_buffered_def merge_group_buffered list.sel(1)
  by (simp add: Let_def del: collect_buffered.simps)

lemma mvcc_boundary_law:
  "\<exists>st'. mvcc_boundary c st t =
     (Some (mvcc_resolve c (mv_range_tombstones st) (mv_merge_operator st) (t # rev (key_entries_buf st))), st') \<and>
   mv_inner st' = mv_inner st \<and> mv_merge_operator st' = mv_merge_operator st \<and>
   mv_range_tombstones st' = mv_range_tombstones st"
  by (auto simp: mvcc_boundary_def mvcc_resolve_def resolve_merge_buffered_group live_operand_def
      is_merge_operand_def split: option.splits)

lemma feeds_next_back:
  assumes "feeds p (zs @ [t])"
  obtains p1 p2 where "peekable_next_back pop_back p = (Some (Inr t), p1)"
    "peek_back pop_back p1 = (if zs = [] then None else Some (Inr (last zs)), p2)" "feeds p2 zs"
proof -
  obtain x p1 where n: "peekable_next_back pop_back p = (x, p1)" by (rule prod.exhaust)
  obtain y p2 where b: "peek_back pop_back p1 = (y, p2)" by (rule prod.exhaust)
  have "list_peek_wf p" "list_peek_rest p = map Inr zs @ [Inr t]" using assms by (auto simp: feeds_def)
  with list_peek.peekable_next_back_law [OF _ n]
  have p1: "list_peek_wf p1" "x = Some (Inr t)" "list_peek_rest p1 = map Inr zs" by auto
  with list_peek.peek_back_law [OF p1(1) b]
  have "feeds p2 zs" "y = (if zs = [] then None else Some (Inr (last zs)))"
    by (auto simp: feeds_def pop_back_def last_map)
  with that n b p1(2) show thesis by simp
qed

lemma mvcc_next_back_loop_feeds:
  assumes "ys = [] \<or> ukey (last ys) \<noteq> k"
  shows "feeds (mv_inner st) (ys @ g) \<Longrightarrow> g \<noteq> [] \<Longrightarrow> \<forall>e\<in>set g. ukey e = k \<Longrightarrow>
    \<exists>st'. mvcc_next_back_loop c st =
        (Some (mvcc_resolve c (mv_range_tombstones st) (mv_merge_operator st) (g @ rev (key_entries_buf st))), st') \<and>
      feeds (mv_inner st') ys \<and> mv_merge_operator st' = mv_merge_operator st \<and>
      mv_range_tombstones st' = mv_range_tombstones st"
proof (induction g arbitrary: st rule: rev_induct)
  case (snoc t g)
  from snoc.prems(1) have "feeds (mv_inner st) ((ys @ g) @ [t])" by simp
  then obtain p1 p2 where n: "peekable_next_back pop_back (mv_inner st) = (Some (Inr t), p1)"
    "peek_back pop_back p1 = (if ys @ g = [] then None else Some (Inr (last (ys @ g))), p2)"
    "feeds p2 (ys @ g)"
    by (rule feeds_next_back)
  show ?case
  proof (cases "g = []")
    case True
    have "mvcc_next_back_loop c st = mvcc_boundary c (st\<lparr>mv_inner := p2\<rparr>) t"
      using assms n True snoc.prems(3)
      by (auto simp: mvcc_next_back_loop.simps [of c st] same_user_key_def)
    with mvcc_boundary_law [of c "st\<lparr>mv_inner := p2\<rparr>" t] n(3) True show ?thesis by auto
  next
    case False
    define st1 where "st1 = st\<lparr>mv_inner := p2, key_entries_buf := (if mv_merge_operator st \<noteq> None
      then key_entries_buf st @ [t] else key_entries_buf st)\<rparr>"
    have "last g \<in> set g" using False by simp
    then have "mvcc_next_back_loop c st = mvcc_next_back_loop c st1"
      using n False snoc.prems(3)
      by (simp add: mvcc_next_back_loop.simps [of c st] same_user_key_def st1_def)
    moreover have "mvcc_resolve c rts (mv_merge_operator st) (g @ rev (key_entries_buf st1)) =
      mvcc_resolve c rts (mv_merge_operator st) ((g @ [t]) @ rev (key_entries_buf st))" for rts
      using False by (cases "mv_merge_operator st") (auto simp: st1_def mvcc_resolve_def)
    ultimately show ?thesis
      using snoc.IH [of st1] n(3) False snoc.prems(3) by (auto simp: st1_def)
  qed
qed simp

lemma mvcc_next_back_law:
  assumes "mvcc_ok m rts st" "mvcc_next_back c st = (r, st')"
  shows "mvcc_ok m rts st' \<and> pop_back (mvcc_rest c m rts st) = (r, mvcc_rest c m rts st')"
proof -
  obtain zs where zs: "feeds (mv_inner st) zs" and st: "mv_merge_operator st = m" "mv_range_tombstones st = rts"
    using assms(1) by (auto simp: mvcc_ok_def)
  show ?thesis
  proof (cases "zs = []")
    case True
    obtain x p where n: "peekable_next_back pop_back (mv_inner st) = (x, p)" by (rule prod.exhaust)
    with list_peek.peekable_next_back_law [OF _ n] zs True have "x = None" "feeds p []"
      by (auto simp: feeds_def)
    with assms(2) n zs True st show ?thesis
      by (auto simp: mvcc_next_back_def mvcc_next_back_loop.simps mvcc_ok_def mvcc_rest_feeds)
  next
    case False
    define k where "k = ukey (last zs)"
    define ys where "ys = rev (dropWhile (\<lambda>e. ukey e = k) (rev zs))"
    define g where "g = rev (takeWhile (\<lambda>e. ukey e = k) (rev zs))"
    have split: "zs = ys @ g"
      unfolding ys_def g_def by (metis rev_append rev_rev_ident takeWhile_dropWhile_id)
    have g: "g \<noteq> []" "\<forall>e\<in>set g. ukey e = k"
      using False by (auto simp: g_def k_def hd_rev [symmetric] takeWhile_eq_Nil_iff dest: set_takeWhileD)
    have ys: "ys = [] \<or> ukey (last ys) \<noteq> k"
      using hd_dropWhile [of "\<lambda>e. ukey e = k" "rev zs"] by (auto simp: ys_def last_rev)
    from mvcc_next_back_loop_feeds [OF ys _ g, of "st\<lparr>key_entries_buf := []\<rparr>" c] zs split st assms(2)
    have "r = Some (mvcc_resolve c rts m g)" "feeds (mv_inner st') ys" "mvcc_ok m rts st'"
      by (auto simp: mvcc_next_back_def mvcc_ok_def)
    then show ?thesis
      using zs key_groups_append [OF g ys] by (simp add: mvcc_rest_feeds split)
  qed
qed

lemma mvcc_iterator:
  "double_ended_iterator (mvcc_next c) (mvcc_next_back c) (mvcc_ok m rts) (mvcc_rest c m rts)"
  using mvcc_next_law mvcc_next_back_law by unfold_locales blast+

interpretation mvcc: double_ended_iterator "mvcc_next c" "mvcc_next_back c" "mvcc_ok m rts"
    "mvcc_rest c m rts" for c m rts
  by (rule mvcc_iterator)

lemma mvcc_start:
  "mvcc_ok m rts (with_range_tombstones rts (mvcc_new (map Inr xs) m))"
  "mvcc_rest c m rts (with_range_tombstones rts (mvcc_new (map Inr xs) m)) =
     map (mvcc_resolve c rts m) (key_groups xs)"
proof -
  have f: "feeds (mv_inner (with_range_tombstones rts (mvcc_new (map Inr xs) m))) xs"
    by (simp add: feeds_def with_range_tombstones_def mvcc_new_def double_ended_peekable_def
        peekable_wf_def peekable_rest_def)
  then show "mvcc_ok m rts (with_range_tombstones rts (mvcc_new (map Inr xs) m))"
    by (auto simp: mvcc_ok_def with_range_tombstones_def mvcc_new_def)
  show "mvcc_rest c m rts (with_range_tombstones rts (mvcc_new (map Inr xs) m)) =
     map (mvcc_resolve c rts m) (key_groups xs)"
    by (rule mvcc_rest_feeds [OF f])
qed

lemma mvcc_reseek_start:
  assumes "mvcc_ok m rts st"
  shows "mvcc_ok m rts (mvcc_reseek (map Inr ys) st)"
    and "mvcc_rest c m rts (mvcc_reseek (map Inr ys) st) = map (mvcc_resolve c rts m) (key_groups ys)"
proof -
  have f: "feeds (mv_inner (mvcc_reseek (map Inr ys) st)) ys"
    by (simp add: feeds_def mvcc_reseek_def reset_front_peeked_def reset_back_peeked_def
        peekable_wf_def peekable_rest_def)
  then show "mvcc_ok m rts (mvcc_reseek (map Inr ys) st)"
    using assms by (auto simp: mvcc_ok_def mvcc_reseek_def)
  show "mvcc_rest c m rts (mvcc_reseek (map Inr ys) st) = map (mvcc_resolve c rts m) (key_groups ys)"
    by (rule mvcc_rest_feeds [OF f])
qed

text \<open>
  C5: over error-free input, for every interleaving of \<open>next\<close> and \<open>next_back\<close>, an \<open>MvccStream\<close>
  returns one item per key group in order from each end: the newest version, or, when that is a
  live merge operand and an operator is configured, the merge of the group. Forward and reverse
  resolution agree, including errors of the operator, and \<open>reseek\<close> starts over on the new input.
\<close>

theorem mvcc_stream_resolves_groups:
  "fst (iter_run (mvcc_next c) (mvcc_next_back c) ds
      (with_range_tombstones rts (mvcc_new (map Inr xs) m))) =
     fst (deque_run ds (map (mvcc_resolve c rts m) (key_groups xs))) \<and>
   fst (iter_run (mvcc_next c) (mvcc_next_back c) ds' (mvcc_reseek (map Inr ys)
      (snd (iter_run (mvcc_next c) (mvcc_next_back c) ds
        (with_range_tombstones rts (mvcc_new (map Inr xs) m)))))) =
     fst (deque_run ds' (map (mvcc_resolve c rts m) (key_groups ys)))"
proof -
  let ?st = "with_range_tombstones rts (mvcc_new (map Inr xs) m)"
  obtain rs st where run: "iter_run (mvcc_next c) (mvcc_next_back c) ds ?st = (rs, st)"
    by (rule prod.exhaust)
  then have ok: "mvcc_ok m rts st" using mvcc.run_refines [OF mvcc_start(1)] by blast
  show ?thesis
    using mvcc.run_results [OF mvcc_start(1), of c ds rts xs m] mvcc.run_results [OF mvcc_reseek_start(1) [OF ok], of c ds']
    by (simp add: mvcc_start(2) mvcc_reseek_start(2) [OF ok] run)
qed

subsection \<open>The newest version of every key\<close>

context user_comparator begin

lemma version_sorted_kle: "version_sorted cmp (x # xs) \<Longrightarrow> e \<in> set xs \<Longrightarrow> kle cmp (ukey x) (ukey e)"
  by (auto intro: entry_before_kle)

lemma dropWhile_greater:
  assumes sorted: "version_sorted cmp (x # xs)" and e: "e \<in> set (dropWhile (\<lambda>e. ukey e = ukey x) xs)"
  shows "klt cmp (ukey x) (ukey e)"
proof -
  let ?P = "\<lambda>e. ukey e = ukey x"
  obtain d r where d: "dropWhile ?P xs = d # r" using e by (cases "dropWhile ?P xs") auto
  then have xs: "xs = takeWhile ?P xs @ d # r" "\<not> ?P d"
    using takeWhile_dropWhile_id [of ?P xs] by (auto simp: dropWhile_eq_Cons_conv)
  then have "d \<in> set xs" by (metis in_set_conv_decomp)
  then have "klt cmp (ukey x) (ukey d)"
    using version_sorted_kle [OF sorted] xs(2) by (auto simp: keys.less_le)
  moreover have "version_sorted cmp (d # r)"
    using sorted xs(1) by (metis sorted_wrt.simps(2) sorted_wrt_append)
  then have "kle cmp (ukey d) (ukey e)" using e d version_sorted_kle by auto
  ultimately show ?thesis by (rule keys.less_le_trans)
qed

lemma newest_Cons:
  assumes "\<And>e. e \<in> set T \<Longrightarrow> ukey e = ukey x \<and> eseqno e < eseqno x"
    and "\<And>e. e \<in> set D \<Longrightarrow> ukey e \<noteq> ukey x"
  shows "{e \<in> set (x # T @ D). \<forall>e'\<in>set (x # T @ D). ukey e' = ukey e \<longrightarrow> eseqno e' \<le> eseqno e} =
    insert x {e \<in> set D. \<forall>e'\<in>set D. ukey e' = ukey e \<longrightarrow> eseqno e' \<le> eseqno e}"
  using assms by (auto simp: not_le [symmetric]) (metis linear | metis)+

lemma key_groups_newest:
  "version_sorted cmp xs \<Longrightarrow>
    sorted_wrt (\<lambda>a b. klt cmp (ukey a) (ukey b)) (map hd (key_groups xs)) \<and>
    set (map hd (key_groups xs)) = {e \<in> set xs. \<forall>e'\<in>set xs. ukey e' = ukey e \<longrightarrow> eseqno e' \<le> eseqno e}"
proof (induction xs rule: key_groups.induct)
  case (2 x xs)
  let ?P = "\<lambda>e. ukey e = ukey x"
  define T D where "T = takeWhile ?P xs" and "D = dropWhile ?P xs"
  have "sorted_wrt (entry_before cmp) D"
    using "2.prems" sorted_wrt_append [of "entry_before cmp" T D] by (simp add: T_def D_def)
  note IH = "2.IH" [folded D_def, OF this]
  have D: "klt cmp (ukey x) (ukey e)" if "e \<in> set D" for e
    using dropWhile_greater [OF "2.prems"] that by (simp add: D_def)
  have T: "ukey e = ukey x \<and> eseqno e < eseqno x" if "e \<in> set T" for e
    using "2.prems" set_takeWhileD [OF that [unfolded T_def]] by (auto simp: entry_before_iff)
  have xs: "xs = T @ D" by (simp add: T_def D_def)
  have "ukey e \<noteq> ukey x" if "e \<in> set D" for e using D [OF that] by (auto simp: keys.less_le)
  then have new: "{e \<in> set (x # xs). \<forall>e'\<in>set (x # xs). ukey e' = ukey e \<longrightarrow> eseqno e' \<le> eseqno e} =
    insert x {e \<in> set D. \<forall>e'\<in>set D. ukey e' = ukey e \<longrightarrow> eseqno e' \<le> eseqno e}"
    unfolding xs using T by (intro newest_Cons)
  have kg: "map hd (key_groups (x # xs)) = x # map hd (key_groups D)" by (simp add: D_def)
  have "\<forall>e\<in>set (map hd (key_groups D)). klt cmp (ukey x) (ukey e)" using IH D by blast
  then show ?case unfolding new kg using IH D by simp
qed simp

end

text \<open>
  Without a merge operator, forward iteration over a version-sorted stream returns, in
  strictly ascending key order, exactly the newest version of every user key, and then ends.
\<close>

theorem mvcc_newest_per_key:
  assumes "user_comparator c" "version_sorted c xs"
  shows "\<exists>out. fst (iter_run (mvcc_next c) (mvcc_next_back c) (replicate (length out) Front @ [Front])
        (mvcc_new (map Inr xs) None)) = map (Some \<circ> Inr) out @ [None] \<and>
    sorted_wrt (\<lambda>a b. klt c (ukey a) (ukey b)) out \<and>
    set out = {e \<in> set xs. \<forall>e'\<in>set xs. ukey e' = ukey e \<longrightarrow> eseqno e' \<le> eseqno e}"
proof -
  let ?out = "map hd (key_groups xs)"
  have new: "with_range_tombstones [] (mvcc_new (map Inr xs) None) = mvcc_new (map Inr xs) None"
    by (simp add: with_range_tombstones_def mvcc_new_def)
  have res: "map (mvcc_resolve c [] None) (key_groups xs) = map Inr ?out"
    by (simp add: mvcc_resolve_def)
  have "fst (iter_run (mvcc_next c) (mvcc_next_back c) (replicate (length ?out) Front @ [Front])
      (mvcc_new (map Inr xs) None)) = map (Some \<circ> Inr) ?out @ [None]"
    using mvcc.run_results [OF mvcc_start(1), of c "replicate (length ?out) Front @ [Front]" "[]" xs None]
      deque_run_drain_end [of "map Inr ?out :: item list"]
    by (simp add: mvcc_start(2) [of c None "[]" xs, unfolded new res] new o_def)
  then show ?thesis
    using user_comparator.key_groups_newest [OF assms] by blast
qed

theorem mvcc_newest_per_key_witness:
  "let a = \<lparr>key = \<lparr>user_key = [1], seqno = 9, value_type = Tombstone\<rparr>, val = []\<rparr>;
       b = \<lparr>key = \<lparr>user_key = [1], seqno = 3, value_type = Value\<rparr>, val = [5]\<rparr>;
       d = \<lparr>key = \<lparr>user_key = [2], seqno = 4, value_type = Value\<rparr>, val = [7]\<rparr>
   in \<exists>out. fst (iter_run (mvcc_next default_compare) (mvcc_next_back default_compare)
        (replicate (length out) Front @ [Front]) (mvcc_new (map Inr [a, b, d]) None)) =
        map (Some \<circ> Inr) out @ [None] \<and> set out = {a, d}"
proof -
  define a b d where "a = \<lparr>key = \<lparr>user_key = [1], seqno = 9, value_type = Tombstone\<rparr>, val = []\<rparr>"
    and "b = \<lparr>key = \<lparr>user_key = [1], seqno = 3, value_type = Value\<rparr>, val = [5]\<rparr>"
    and "d = \<lparr>key = \<lparr>user_key = [2], seqno = 4, value_type = Value\<rparr>, val = [7]\<rparr>"
  have keys: "ukey a = [1]" "ukey b = [1]" "ukey d = [2]" "eseqno a = 9" "eseqno b = 3" "eseqno d = 4"
    by (simp_all add: a_def b_def d_def)
  have sorted: "version_sorted default_compare [a, b, d]"
    by (simp add: entry_before_def compare_with_def default_compare_def keys)
  have new: "{e \<in> set [a, b, d]. \<forall>e'\<in>set [a, b, d]. ukey e' = ukey e \<longrightarrow> eseqno e' \<le> eseqno e} = {a, d}"
    by (auto simp: keys)
  show ?thesis
    using mvcc_newest_per_key [OF user_comparator_default sorted]
    unfolding new a_def [symmetric] b_def [symmetric] d_def [symmetric] Let_def by blast
qed

end
