(* ===== verification/Merge_Heap.thy ===== *)
theory Merge_Heap
  imports Tombstone_Filter
begin

text \<open>
  \<open>heap.rs\<close> and \<open>merge.rs\<close>: the k-way merge of compaction and of full scans. The merge heap is a
  vector kept sorted by (internal key, source index); the merger refills it from the source whose
  entry it returns, at either end. The sources are the lists of their remaining items. A panic
  (indexing an empty heap) is \<open>None\<close>.
\<close>

subsection \<open>The heap\<close>

record heap_entry =
  he_index :: nat
  he_value :: internal_value

definition heap_cmp :: "comparator \<Rightarrow> heap_entry \<Rightarrow> heap_entry \<Rightarrow> ordering" where
  "heap_cmp c a b =
     then_with (compare_with c (key (he_value a)) (key (he_value b))) (ord_cmp (he_index a) (he_index b))"

definition heap_push :: "comparator \<Rightarrow> heap_entry \<Rightarrow> heap_entry list \<Rightarrow> heap_entry list" where
  "heap_push c e data = vec_insert (partition_point (\<lambda>x. heap_cmp c x e \<noteq> Greater) data) e data"

definition heap_pop_min :: "heap_entry list \<Rightarrow> heap_entry option \<times> heap_entry list" where
  "heap_pop_min data = (if data = [] then (None, []) else (Some (hd data), tl data))"

definition heap_pop_max :: "heap_entry list \<Rightarrow> heap_entry option \<times> heap_entry list" where
  "heap_pop_max data = pop_back data"

text \<open>The slides swap the new entry with its neighbour until it is in place.\<close>

fun slide_right :: "comparator \<Rightarrow> heap_entry list \<Rightarrow> heap_entry list" where
  "slide_right c (x # y # r) =
     (if heap_cmp c x y = Greater then y # slide_right c (x # r) else x # y # r)"
| "slide_right c data = data"

definition heap_replace_min ::
  "comparator \<Rightarrow> heap_entry \<Rightarrow> heap_entry list \<Rightarrow> (heap_entry \<times> heap_entry list) option" where
  "heap_replace_min c e data =
     (if data = [] then None else Some (hd data, slide_right c (e # tl data)))"

text \<open>\<open>slide_left\<close> works on the vector reversed: its last element is first.\<close>

fun slide_left :: "comparator \<Rightarrow> heap_entry list \<Rightarrow> heap_entry list" where
  "slide_left c (x # y # r) =
     (if heap_cmp c x y = Less then y # slide_left c (x # r) else x # y # r)"
| "slide_left c data = data"

definition heap_replace_max ::
  "comparator \<Rightarrow> heap_entry \<Rightarrow> heap_entry list \<Rightarrow> (heap_entry \<times> heap_entry list) option" where
  "heap_replace_max c e data =
     (if data = [] then None else Some (last data, rev (slide_left c (e # tl (rev data)))))"

subsection \<open>The merger\<close>

record merger =
  mg_iterators :: "item list list"
  mg_heap :: "heap_entry list"
  initialized_lo :: bool
  initialized_hi :: bool

definition merger_new :: "item list list \<Rightarrow> merger" where
  "merger_new iters = \<lparr>mg_iterators = iters, mg_heap = [], initialized_lo = False, initialized_hi = False\<rparr>"

text \<open>
  The initialisation loops over \<open>iterators.iter_mut().enumerate()\<close>, parameterised by the end they
  take from; they stop at the first error and leave what they have pulled so far.
\<close>

fun init_loop ::
  "(item list \<Rightarrow> item option \<times> item list) \<Rightarrow> comparator \<Rightarrow> nat \<Rightarrow> item list list \<Rightarrow> heap_entry list \<Rightarrow>
   lsm_error option \<times> item list list \<times> heap_entry list" where
  "init_loop pull c i [] heap = (None, [], heap)"
| "init_loop pull c i (it # its) heap =
     (case pull it of
        (None, it') \<Rightarrow>
          (let (e, its', heap') = init_loop pull c (Suc i) its heap in (e, it' # its', heap'))
      | (Some (Inl e), it') \<Rightarrow> (Some e, it' # its, heap)
      | (Some (Inr v), it') \<Rightarrow>
          (let (e, its', heap') =
                 init_loop pull c (Suc i) its (heap_push c \<lparr>he_index = i, he_value = v\<rparr> heap)
           in (e, it' # its', heap')))"

definition initialize_lo :: "comparator \<Rightarrow> merger \<Rightarrow> lsm_error option \<times> merger" where
  "initialize_lo c st =
     (case init_loop pop_front c 0 (mg_iterators st) (mg_heap st) of
        (Some e, its, heap) \<Rightarrow> (Some e, st\<lparr>mg_iterators := its, mg_heap := heap\<rparr>)
      | (None, its, heap) \<Rightarrow>
          (None, st\<lparr>mg_iterators := its, mg_heap := heap, initialized_lo := True\<rparr>))"

definition initialize_hi :: "comparator \<Rightarrow> merger \<Rightarrow> lsm_error option \<times> merger" where
  "initialize_hi c st =
     (case init_loop pop_back c 0 (mg_iterators st) (mg_heap st) of
        (Some e, its, heap) \<Rightarrow> (Some e, st\<lparr>mg_iterators := its, mg_heap := heap\<rparr>)
      | (None, its, heap) \<Rightarrow>
          (None, st\<lparr>mg_iterators := its, mg_heap := heap, initialized_hi := True\<rparr>))"

definition merger_next_step :: "comparator \<Rightarrow> merger \<Rightarrow> item option \<times> merger" where
  "merger_next_step c st =
     (case mg_heap st of
        [] \<Rightarrow> (None, st)
      | top_entry # _ \<Rightarrow>
          (if he_index top_entry < length (mg_iterators st)
           then (let i = he_index top_entry; (r, it') = pop_front (mg_iterators st ! i);
                     st1 = st\<lparr>mg_iterators := (mg_iterators st)[i := it']\<rparr>
                 in case r of
                      Some (Inr v) \<Rightarrow>
                        (case heap_replace_min c \<lparr>he_index = i, he_value = v\<rparr> (mg_heap st) of
                           Some (old, heap') \<Rightarrow> (Some (Inr (he_value old)), st1\<lparr>mg_heap := heap'\<rparr>)
                         | None \<Rightarrow> (Some (Inl Panicked), st1))
                    | Some (Inl e) \<Rightarrow> (Some (Inl e), st1\<lparr>mg_heap := snd (heap_pop_min (mg_heap st))\<rparr>)
                    | None \<Rightarrow>
                        (case heap_pop_min (mg_heap st) of
                           (Some old, heap') \<Rightarrow> (Some (Inr (he_value old)), st1\<lparr>mg_heap := heap'\<rparr>)
                         | (None, heap') \<Rightarrow> (None, st1\<lparr>mg_heap := heap'\<rparr>)))
           else (Some (Inl Panicked), st)))"

definition merger_next :: "comparator \<Rightarrow> merger \<Rightarrow> item option \<times> merger" where
  "merger_next c st =
     (if \<not> initialized_lo st
      then (case initialize_lo c st of
              (Some e, st1) \<Rightarrow> (Some (Inl e), st1)
            | (None, st1) \<Rightarrow> merger_next_step c st1)
      else merger_next_step c st)"

definition merger_next_back_step :: "comparator \<Rightarrow> merger \<Rightarrow> item option \<times> merger" where
  "merger_next_back_step c st =
     (if mg_heap st = [] then (None, st)
      else (let top_entry = last (mg_heap st); i = he_index top_entry
            in if i < length (mg_iterators st)
               then (let (r, it') = pop_back (mg_iterators st ! i);
                         st1 = st\<lparr>mg_iterators := (mg_iterators st)[i := it']\<rparr>
                     in case r of
                          Some (Inr v) \<Rightarrow>
                            (case heap_replace_max c \<lparr>he_index = i, he_value = v\<rparr> (mg_heap st) of
                               Some (old, heap') \<Rightarrow> (Some (Inr (he_value old)), st1\<lparr>mg_heap := heap'\<rparr>)
                             | None \<Rightarrow> (Some (Inl Panicked), st1))
                        | Some (Inl e) \<Rightarrow> (Some (Inl e), st1\<lparr>mg_heap := snd (heap_pop_max (mg_heap st))\<rparr>)
                        | None \<Rightarrow>
                            (case heap_pop_max (mg_heap st) of
                               (Some old, heap') \<Rightarrow> (Some (Inr (he_value old)), st1\<lparr>mg_heap := heap'\<rparr>)
                             | (None, heap') \<Rightarrow> (None, st1\<lparr>mg_heap := heap'\<rparr>)))
               else (Some (Inl Panicked), st)))"

definition merger_next_back :: "comparator \<Rightarrow> merger \<Rightarrow> item option \<times> merger" where
  "merger_next_back c st =
     (if \<not> initialized_hi st
      then (case initialize_hi c st of
              (Some e, st1) \<Rightarrow> (Some (Inl e), st1)
            | (None, st1) \<Rightarrow> merger_next_back_step c st1)
      else merger_next_back_step c st)"

subsection \<open>The heap stays sorted\<close>

abbreviation heap_lt :: "comparator \<Rightarrow> heap_entry \<Rightarrow> heap_entry \<Rightarrow> bool" where
  "heap_lt c a b \<equiv> heap_cmp c a b = Less"

lemma slide_right_insert_by: "slide_right c (x # ys) = insert_by (heap_cmp c) x ys"
  by (induction ys) auto

lemma slide_left_insert_by:
  "slide_left c (x # ys) = insert_by (\<lambda>a b. reverse_ord (heap_cmp c a b)) x ys"
  by (induction ys) auto

text \<open>Everything still to be returned: the heap, then what the sources hold.\<close>

abbreviation tag :: "nat \<Rightarrow> internal_value \<Rightarrow> heap_entry" where
  "tag i v \<equiv> \<lparr>he_index = i, he_value = v\<rparr>"

fun tag_all :: "nat \<Rightarrow> internal_value list list \<Rightarrow> heap_entry list" where
  "tag_all i [] = []"
| "tag_all i (vs # vss) = map (tag i) vs @ tag_all (Suc i) vss"

lemma set_tag_all:
  "e \<in> set (tag_all i vss) \<longleftrightarrow>
     (\<exists>j v. j < length vss \<and> v \<in> set (vss ! j) \<and> e = tag (i + j) v)"
proof (induction vss arbitrary: i)
  case (Cons vs vss)
  show ?case
  proof
    assume "e \<in> set (tag_all i (vs # vss))"
    then consider v where "v \<in> set vs" "e = tag i v" | "e \<in> set (tag_all (Suc i) vss)" by auto
    then show "\<exists>j v. j < length (vs # vss) \<and> v \<in> set ((vs # vss) ! j) \<and> e = tag (i + j) v"
    proof cases
      case 1
      then show ?thesis by (intro exI [of _ 0]) auto
    next
      case 2
      then obtain j v where "j < length vss" "v \<in> set (vss ! j)" "e = tag (Suc i + j) v"
        using Cons.IH by blast
      then show ?thesis by (intro exI [of _ "Suc j"]) auto
    qed
  next
    assume "\<exists>j v. j < length (vs # vss) \<and> v \<in> set ((vs # vss) ! j) \<and> e = tag (i + j) v"
    then obtain j v where j: "j < length (vs # vss)" "v \<in> set ((vs # vss) ! j)" "e = tag (i + j) v" by blast
    then show "e \<in> set (tag_all i (vs # vss))"
      using Cons.IH [of "Suc i"] by (cases j) auto
  qed
qed simp

lemma mset_tag_all_update:
  "j < length vss \<Longrightarrow> mset (vss ! j) = add_mset v (mset vs) \<Longrightarrow>
   mset (tag_all i vss) = add_mset (tag (i + j) v) (mset (tag_all i (vss[j := vs])))"
proof (induction vss arbitrary: i j)
  case (Cons ws vss)
  then show ?case by (cases j) (auto simp: Cons.IH [of _ "Suc i"])
qed simp

text \<open>
  \<open>covers R heap vss\<close>: every remaining item of a source has an entry of that source in the heap that
  \<open>R\<close> relates to it, that is one before it (for the low end) or after it (for the high end).
\<close>

definition covers ::
  "(internal_value \<Rightarrow> internal_value \<Rightarrow> bool) \<Rightarrow> heap_entry set \<Rightarrow> internal_value list list \<Rightarrow> bool" where
  "covers R heap vss \<longleftrightarrow>
     (\<forall>i<length vss. \<forall>v\<in>set (vss ! i). \<exists>e\<in>heap. he_index e = i \<and> R (he_value e) v)"

lemma coversD:
  "covers R heap vss \<Longrightarrow> i < length vss \<Longrightarrow> v \<in> set (vss ! i) \<Longrightarrow>
   \<exists>e\<in>heap. he_index e = i \<and> R (he_value e) v"
  unfolding covers_def by blast

lemma covers_pop:
  "covers R (insert x data) vss \<Longrightarrow> vss ! he_index x = [] \<Longrightarrow> covers R data vss"
  unfolding covers_def by fastforce

lemma covers_refill_near:
  assumes cov: "covers R (insert x data) vss" and i: "he_index x < length vss"
    and near: "\<And>w. w \<in> set vs \<Longrightarrow> R v w"
  shows "covers R (insert (tag (he_index x) v) data) (vss[he_index x := vs])"
  unfolding covers_def
proof (intro allI impI ballI)
  fix j w assume j: "j < length (vss[he_index x := vs])" "w \<in> set (vss[he_index x := vs] ! j)"
  show "\<exists>e\<in>insert (tag (he_index x) v) data. he_index e = j \<and> R (he_value e) w"
  proof (cases "j = he_index x")
    case True
    with j i near show ?thesis by auto
  next
    case False
    with j have "j < length vss" "w \<in> set (vss ! j)" by auto
    from coversD [OF cov this] False show ?thesis by auto
  qed
qed

lemma covers_refill_far:
  assumes cov: "covers R (insert x data) vss"
    and i: "he_index x < length vss" and sub: "set vs \<subseteq> set (vss ! he_index x)"
    and far: "\<And>w. w \<in> set (vss ! he_index x) \<Longrightarrow> \<not> R (he_value x) w"
  shows "covers R (insert (tag (he_index x) v) data) (vss[he_index x := vs])"
  unfolding covers_def
proof (intro allI impI ballI)
  fix j w assume j: "j < length (vss[he_index x := vs])" "w \<in> set (vss[he_index x := vs] ! j)"
  then have w: "j < length vss" "w \<in> set (vss ! j)"
    using sub i by (auto simp: nth_list_update split: if_splits)
  from coversD [OF cov w] obtain e where e: "e \<in> insert x data" "he_index e = j" "R (he_value e) w" by blast
  with far w have "e \<noteq> x" by auto
  with e show "\<exists>e\<in>insert (tag (he_index x) v) data. he_index e = j \<and> R (he_value e) w" by auto
qed

lemma covers_init:
  assumes "\<And>i. i < length vss \<Longrightarrow> vss ! i \<noteq> [] \<Longrightarrow> tag i (pick (vss ! i)) \<in> heap"
    and "\<And>vs w. vs \<in> set vss \<Longrightarrow> w \<in> set (keep vs) \<Longrightarrow> vs \<noteq> [] \<and> R (pick vs) w"
  shows "covers R heap (map keep vss)"
  unfolding covers_def
proof (intro allI impI ballI)
  fix i v assume i: "i < length (map keep vss)" "v \<in> set (map keep vss ! i)"
  then have "vss ! i \<noteq> []" "R (pick (vss ! i)) v" using assms(2) [of "vss ! i" v] by auto
  with assms(1) [of i] i show "\<exists>e\<in>heap. he_index e = i \<and> R (he_value e) v"
    by (intro bexI [of _ "tag i (pick (vss ! i))"]) auto
qed

lemma covers_mono:
  assumes "covers R heap vss" "heap \<subseteq> heap'" "\<And>vs. vs \<in> set vss \<Longrightarrow> set (keep vs) \<subseteq> set vs"
  shows "covers R heap' (map keep vss)"
  unfolding covers_def
proof (intro allI impI ballI)
  fix i v assume i: "i < length (map keep vss)" "v \<in> set (map keep vss ! i)"
  then have "v \<in> set (vss ! i)" using assms(3) [of "vss ! i"] by auto
  with coversD [OF assms(1), of i v] i assms(2) show "\<exists>e\<in>heap'. he_index e = i \<and> R (he_value e) v" by auto
qed

context user_comparator begin

lemma heap_cmp_antisym: "heap_lt cmp a b \<longleftrightarrow> heap_cmp cmp b a = Greater"
  using compare_with_antisym [of "key (he_value a)" "key (he_value b)"]
  by (auto simp: heap_cmp_def compare_with_Equal internal_key_eq_def)

lemma heap_cmp_trans: "heap_lt cmp a b \<Longrightarrow> heap_lt cmp b d \<Longrightarrow> heap_lt cmp a d"
  using compare_with_trans [of "key (he_value a)" "key (he_value b)" "key (he_value d)"]
  by (auto simp: heap_cmp_def compare_with_def key_order internal_key_eq_def dest: keys.less_trans)

lemma heap_cmp_irrefl: "\<not> heap_lt cmp a a"
  using heap_cmp_antisym [of a a] by auto

lemma heap_cmp_same_index:
  "he_index a = he_index b \<Longrightarrow> heap_lt cmp a b \<longleftrightarrow> entry_before cmp (he_value a) (he_value b)"
  by (auto simp: heap_cmp_def entry_before_def)

lemma heap_cmp_Equal:
  "heap_cmp cmp a b = Equal \<longleftrightarrow> internal_key_eq (key (he_value a)) (key (he_value b)) \<and> he_index a = he_index b"
  by (auto simp: heap_cmp_def compare_with_Equal)

lemma heap_cmp_le_trans:
  "heap_cmp cmp a b \<noteq> Greater \<Longrightarrow> heap_cmp cmp b d \<noteq> Greater \<Longrightarrow> heap_cmp cmp a d \<noteq> Greater"
  by (auto simp: heap_cmp_def compare_with_def key_order not_less
      dest: keys.order_trans keys.less_le_trans keys.le_less_trans keys.order_antisym)

lemma heap_preorder: "cmp_preorder (heap_cmp cmp)"
  unfolding cmp_preorder_def using heap_cmp_antisym heap_cmp_le_trans by force

abbreviation heap_sorted :: "heap_entry list \<Rightarrow> bool" where
  "heap_sorted \<equiv> sorted_wrt (\<lambda>a b. heap_cmp cmp a b \<noteq> Greater)"

lemma heap_push_sorted:
  assumes "heap_sorted data"
  shows "heap_sorted (heap_push cmp e data)"
proof -
  let ?f = "\<lambda>x. if heap_cmp cmp x e \<noteq> Greater then Less else Greater"
  have "sorted_wrt (\<lambda>x y. heap_cmp cmp y e \<noteq> Greater \<longrightarrow> heap_cmp cmp x e \<noteq> Greater) data"
    using assms by (rule sorted_wrt_mono_rel [rotated]) (use heap_cmp_le_trans in blast)
  then have "probe_mono ?f data" by (intro probe_mono_two) auto
  note parts = binary_search_parts [OF this, folded partition_point_def]
  show ?thesis unfolding heap_push_def
  proof (rule sorted_vec_insert [OF assms])
    fix y assume "y \<in> set (take (partition_point (\<lambda>x. heap_cmp cmp x e \<noteq> Greater) data) data)"
    from parts(1) [OF this] show "heap_cmp cmp y e \<noteq> Greater" by (auto split: if_splits)
  next
    fix y assume "y \<in> set (drop (partition_point (\<lambda>x. heap_cmp cmp x e \<noteq> Greater) data) data)"
    from parts(2) [OF this] show "heap_cmp cmp e y \<noteq> Greater"
      using heap_cmp_antisym [of e y] by (auto split: if_splits)
  qed
qed

lemma mset_heap_push: "mset (heap_push cmp e data) = add_mset e (mset data)"
  by (simp add: heap_push_def)

lemma heap_replace_min_law:
  assumes "heap_sorted (x # data)"
  shows "\<exists>data'. heap_replace_min cmp e (x # data) = Some (x, data') \<and> heap_sorted data' \<and>
    mset data' = add_mset e (mset data)"
  using assms sorted_insert_by [OF heap_preorder, of data e]
  by (simp add: heap_replace_min_def slide_right_insert_by)

lemma heap_replace_max_law:
  assumes "heap_sorted (data @ [x])"
  shows "\<exists>data'. heap_replace_max cmp e (data @ [x]) = Some (x, data') \<and> heap_sorted data' \<and>
    mset data' = add_mset e (mset data)"
proof -
  let ?r = "\<lambda>a b. reverse_ord (heap_cmp cmp a b)"
  have flip: "?r a b \<noteq> Greater \<longleftrightarrow> heap_cmp cmp b a \<noteq> Greater" for a b
    using heap_cmp_antisym [of a b] by auto
  have pre: "cmp_preorder ?r"
    unfolding cmp_preorder_def flip using heap_cmp_antisym heap_cmp_le_trans by force
  have "sorted_wrt (\<lambda>a b. ?r a b \<noteq> Greater) (rev data)"
    unfolding flip using assms by (simp add: sorted_wrt_append sorted_wrt_rev)
  from sorted_insert_by [OF pre this, of e]
  have "heap_sorted (rev (insert_by ?r e (rev data)))" unfolding flip by (simp add: sorted_wrt_rev)
  then show ?thesis by (simp add: heap_replace_max_def slide_left_insert_by)
qed

subsection \<open>The merger keeps the iterator contract\<close>

text \<open>
  The invariant: the heap is sorted; all remaining entries are pairwise different in the order;
  once an end is initialised, every source's remaining item has an entry of that source beyond it
  in the heap.
\<close>

abbreviation lo_covers :: "heap_entry list \<Rightarrow> internal_value list list \<Rightarrow> bool" where
  "lo_covers heap vss \<equiv> covers (entry_before cmp) (set heap) vss"

abbreviation hi_covers :: "heap_entry list \<Rightarrow> internal_value list list \<Rightarrow> bool" where
  "hi_covers heap vss \<equiv> covers (\<lambda>e v. entry_before cmp v e) (set heap) vss"

definition merger_ok :: "internal_value list list \<Rightarrow> merger \<Rightarrow> bool" where
  "merger_ok vss st \<longleftrightarrow>
     mg_iterators st = map (map Inr) vss \<and> heap_sorted (mg_heap st) \<and>
     (\<forall>vs\<in>set vss. version_sorted cmp vs) \<and> (\<forall>e\<in>set (mg_heap st). he_index e < length vss) \<and>
     (\<exists>S. sorted_wrt (heap_lt cmp) S \<and> mset S = mset (mg_heap st) + mset (tag_all 0 vss)) \<and>
     (initialized_lo st \<longrightarrow> lo_covers (mg_heap st) vss) \<and>
     (initialized_hi st \<longrightarrow> hi_covers (mg_heap st) vss)"

definition merger_rest :: "merger \<Rightarrow> item list" where
  "merger_rest st =
     map (Inr \<circ> he_value)
       (sort_by (heap_cmp cmp) (mg_heap st @ tag_all 0 (map (map projr) (mg_iterators st))))"

lemma merger_rest_eq:
  assumes "mg_iterators st = map (map Inr) vss" "sorted_wrt (heap_lt cmp) S"
    "mset S = mset (mg_heap st) + mset (tag_all 0 vss)"
  shows "merger_rest st = map (Inr \<circ> he_value) S"
proof -
  have "map (map projr) (mg_iterators st) = vss" using assms(1) by (simp add: o_def)
  then have "mset (mg_heap st @ tag_all 0 (map (map projr) (mg_iterators st))) = mset S"
    using assms(3) by simp
  from sort_by_unique [OF heap_preorder _ assms(2) this] show ?thesis
    using heap_cmp_antisym by (simp add: merger_rest_def)
qed

lemma init_loop_law:
  assumes pull: "\<And>vs. pull (map Inr vs) =
      (if vs = [] then None else Some (Inr (pick vs)), map Inr (keep vs))"
    and keep: "keep [] = []" "\<And>vs. vs \<noteq> [] \<Longrightarrow> mset vs = add_mset (pick vs) (mset (keep vs))"
  shows "heap_sorted heap \<Longrightarrow>
    \<exists>heap'. init_loop pull cmp i (map (map Inr) vss) heap = (None, map (map Inr) (map keep vss), heap') \<and>
      heap_sorted heap' \<and>
      mset heap' + mset (tag_all i (map keep vss)) = mset heap + mset (tag_all i vss) \<and>
      set heap \<subseteq> set heap' \<and> (\<forall>j<length vss. vss ! j \<noteq> [] \<longrightarrow> tag (i + j) (pick (vss ! j)) \<in> set heap') \<and>
      (\<forall>e\<in>set heap'. e \<in> set heap \<or> he_index e < i + length vss)"
proof (induction vss arbitrary: i heap)
  case (Cons vs vss)
  show ?case
  proof (cases "vs = []")
    case True
    from Cons.IH [OF Cons.prems, of "Suc i"] obtain heap' where
      IH: "init_loop pull cmp (Suc i) (map (map Inr) vss) heap = (None, map (map Inr) (map keep vss), heap')"
        "heap_sorted heap'" "mset heap' + mset (tag_all (Suc i) (map keep vss)) = mset heap + mset (tag_all (Suc i) vss)"
        "set heap \<subseteq> set heap'" "\<forall>j<length vss. vss ! j \<noteq> [] \<longrightarrow> tag (Suc i + j) (pick (vss ! j)) \<in> set heap'"
        "\<forall>e\<in>set heap'. e \<in> set heap \<or> he_index e < Suc i + length vss" by blast
    have "tag (i + j) (pick ((vs # vss) ! j)) \<in> set heap'" if "j < length (vs # vss)" "(vs # vss) ! j \<noteq> []" for j
      using that IH(5) True by (cases j) auto
    with IH pull [of vs] keep(1) True show ?thesis by auto
  next
    case False
    let ?e = "tag i (pick vs)"
    from Cons.IH [OF heap_push_sorted [OF Cons.prems], of "Suc i" ?e] obtain heap' where
      IH: "init_loop pull cmp (Suc i) (map (map Inr) vss) (heap_push cmp ?e heap) = (None, map (map Inr) (map keep vss), heap')"
        "heap_sorted heap'" "mset heap' + mset (tag_all (Suc i) (map keep vss)) = add_mset ?e (mset heap) + mset (tag_all (Suc i) vss)"
        "set (heap_push cmp ?e heap) \<subseteq> set heap'" "\<forall>j<length vss. vss ! j \<noteq> [] \<longrightarrow> tag (Suc i + j) (pick (vss ! j)) \<in> set heap'"
        "\<forall>e\<in>set heap'. e \<in> set (heap_push cmp ?e heap) \<or> he_index e < Suc i + length vss"
      by (auto simp: mset_heap_push)
    have sub: "set heap \<subseteq> set heap'" "?e \<in> set heap'" using IH(4) by (auto simp: heap_push_def)
    have "tag (i + j) (pick ((vs # vss) ! j)) \<in> set heap'" if "j < length (vs # vss)" "(vs # vss) ! j \<noteq> []" for j
      using that IH(5) sub(2) by (cases j) auto
    moreover have "mset heap' + mset (tag_all i (map keep (vs # vss))) = mset heap + mset (tag_all i (vs # vss))"
      using IH(3) keep(2) [OF False] by (simp add: ac_simps)
    moreover have "\<forall>e\<in>set heap'. e \<in> set heap \<or> he_index e < i + length (vs # vss)"
      using IH(6) by (auto simp: heap_push_def)
    ultimately show ?thesis using IH(1,2) sub(1) pull [of vs] False by auto
  qed
qed simp

lemma pull_front: "pop_front (map Inr vs) = (if vs = [] then None else Some (Inr (hd vs)), map Inr (tl vs))"
  by (cases vs) auto

lemma pull_back: "pop_back (map Inr vs) = (if vs = [] then None else Some (Inr (last vs)), map Inr (butlast vs))"
  by (cases vs rule: rev_cases) auto

lemma version_sorted_tl: "version_sorted cmp vs \<Longrightarrow> version_sorted cmp (tl vs)"
  by (cases vs) auto

lemma version_sorted_butlast: "version_sorted cmp vs \<Longrightarrow> version_sorted cmp (butlast vs)"
  by (cases vs rule: rev_cases) (auto simp: sorted_wrt_append)

lemma tl_keep:
  "tl [] = []" "vs \<noteq> [] \<Longrightarrow> mset vs = add_mset (hd vs) (mset (tl vs))" "set (tl vs) \<subseteq> set vs"
  by (cases vs; auto)+

lemma butlast_keep:
  "butlast [] = []" "vs \<noteq> [] \<Longrightarrow> mset vs = add_mset (last vs) (mset (butlast vs))"
  "set (butlast vs) \<subseteq> set vs"
  by (cases vs rule: rev_cases; auto)+

lemma hd_before_tl: "version_sorted cmp vs \<Longrightarrow> w \<in> set (tl vs) \<Longrightarrow> vs \<noteq> [] \<and> entry_before cmp (hd vs) w"
  by (cases vs) auto

lemma last_after_butlast:
  "version_sorted cmp vs \<Longrightarrow> w \<in> set (butlast vs) \<Longrightarrow> vs \<noteq> [] \<and> entry_before cmp w (last vs)"
  by (cases vs rule: rev_cases) (auto simp: sorted_wrt_append)

lemma initialize_lo_law:
  assumes ok: "merger_ok vss st"
  shows "\<exists>st' vss'. initialize_lo cmp st = (None, st') \<and> merger_ok vss' st' \<and> initialized_lo st' \<and>
    merger_rest st' = merger_rest st"
proof -
  have inv: "mg_iterators st = map (map Inr) vss" "heap_sorted (mg_heap st)" "\<forall>vs\<in>set vss. version_sorted cmp vs"
    using ok by (auto simp: merger_ok_def)
  obtain S where S: "sorted_wrt (heap_lt cmp) S" "mset S = mset (mg_heap st) + mset (tag_all 0 vss)"
    using ok unfolding merger_ok_def by blast
  obtain heap' where h: "init_loop pop_front cmp 0 (map (map Inr) vss) (mg_heap st) =
      (None, map (map Inr) (map tl vss), heap')" "heap_sorted heap'"
    "mset heap' + mset (tag_all 0 (map tl vss)) = mset (mg_heap st) + mset (tag_all 0 vss)"
    "set (mg_heap st) \<subseteq> set heap'" "\<forall>j<length vss. vss ! j \<noteq> [] \<longrightarrow> tag j (hd (vss ! j)) \<in> set heap'"
    "\<forall>e\<in>set heap'. e \<in> set (mg_heap st) \<or> he_index e < length vss"
    using init_loop_law [OF pull_front tl_keep(1,2) inv(2), of 0 vss] by auto
  define st' where "st' = st\<lparr>mg_iterators := map (map Inr) (map tl vss), mg_heap := heap', initialized_lo := True\<rparr>"
  have "lo_covers heap' (map tl vss)"
    by (rule covers_init [where pick = hd]) (use h(5) inv(3) hd_before_tl in blast)+
  moreover have "initialized_hi st \<Longrightarrow> hi_covers heap' (map tl vss)"
    by (rule covers_mono [OF _ h(4) tl_keep(3)]) (use ok in \<open>simp add: merger_ok_def\<close>)
  ultimately have "merger_ok (map tl vss) st'"
    using ok h S inv version_sorted_tl by (auto simp: merger_ok_def st'_def)
  moreover have "merger_rest st' = merger_rest st"
    using merger_rest_eq [OF inv(1) S] merger_rest_eq [of st' "map tl vss" S] S h(3) by (simp add: st'_def)
  ultimately show ?thesis using h(1) inv(1) by (auto simp: initialize_lo_def st'_def)
qed

lemma initialize_hi_law:
  assumes ok: "merger_ok vss st"
  shows "\<exists>st' vss'. initialize_hi cmp st = (None, st') \<and> merger_ok vss' st' \<and> initialized_hi st' \<and>
    merger_rest st' = merger_rest st"
proof -
  have inv: "mg_iterators st = map (map Inr) vss" "heap_sorted (mg_heap st)" "\<forall>vs\<in>set vss. version_sorted cmp vs"
    using ok by (auto simp: merger_ok_def)
  obtain S where S: "sorted_wrt (heap_lt cmp) S" "mset S = mset (mg_heap st) + mset (tag_all 0 vss)"
    using ok unfolding merger_ok_def by blast
  obtain heap' where h: "init_loop pop_back cmp 0 (map (map Inr) vss) (mg_heap st) =
      (None, map (map Inr) (map butlast vss), heap')" "heap_sorted heap'"
    "mset heap' + mset (tag_all 0 (map butlast vss)) = mset (mg_heap st) + mset (tag_all 0 vss)"
    "set (mg_heap st) \<subseteq> set heap'" "\<forall>j<length vss. vss ! j \<noteq> [] \<longrightarrow> tag j (last (vss ! j)) \<in> set heap'"
    "\<forall>e\<in>set heap'. e \<in> set (mg_heap st) \<or> he_index e < length vss"
    using init_loop_law [OF pull_back butlast_keep(1,2) inv(2), of 0 vss] by auto
  define st' where "st' = st\<lparr>mg_iterators := map (map Inr) (map butlast vss), mg_heap := heap', initialized_hi := True\<rparr>"
  have "hi_covers heap' (map butlast vss)"
    by (rule covers_init [where pick = last]) (use h(5) inv(3) last_after_butlast in blast)+
  moreover have "initialized_lo st \<Longrightarrow> lo_covers heap' (map butlast vss)"
    by (rule covers_mono [OF _ h(4) butlast_keep(3)]) (use ok in \<open>simp add: merger_ok_def\<close>)
  ultimately have "merger_ok (map butlast vss) st'"
    using ok h S inv version_sorted_butlast by (auto simp: merger_ok_def st'_def)
  moreover have "merger_rest st' = merger_rest st"
    using merger_rest_eq [OF inv(1) S] merger_rest_eq [of st' "map butlast vss" S] S h(3) by (simp add: st'_def)
  ultimately show ?thesis using h(1) inv(1) by (auto simp: initialize_hi_def st'_def)
qed

lemma sorted_first:
  assumes "sorted_wrt (heap_lt cmp) S" "x \<in> set S" "\<And>y. y \<in> set S \<Longrightarrow> heap_cmp cmp x y \<noteq> Greater"
  shows "\<exists>S'. S = x # S'"
proof (cases S)
  case (Cons y S')
  then have "x = y"
    using assms(1,2) assms(3) [of y] heap_cmp_antisym [of y x] by auto
  with Cons show ?thesis by blast
qed (use assms in simp)

lemma sorted_last:
  assumes "sorted_wrt (heap_lt cmp) S" "x \<in> set S" "\<And>y. y \<in> set S \<Longrightarrow> heap_cmp cmp y x \<noteq> Greater"
  shows "\<exists>S'. S = S' @ [x]"
proof (cases S rule: rev_cases)
  case (snoc S' y)
  then have "x = y"
    using assms(1,2) assms(3) [of y] heap_cmp_antisym [of x y] by (auto simp: sorted_wrt_append)
  with snoc show ?thesis by blast
qed (use assms in simp)

text \<open>The heap entry at an initialised end is the extreme of everything that remains.\<close>

lemma merger_first:
  assumes S: "sorted_wrt (heap_lt cmp) S" "mset S = mset (x # data) + mset (tag_all 0 vss)"
    and sorted: "heap_sorted (x # data)" and cov: "lo_covers (x # data) vss"
  shows "\<exists>S'. S = x # S'"
proof (rule sorted_first [OF S(1)])
  have setS: "set S = set (x # data) \<union> set (tag_all 0 vss)"
    using S(2) by (metis set_mset_mset set_mset_union)
  then show "x \<in> set S" by simp
  have minh: "heap_cmp cmp x y \<noteq> Greater" if "y \<in> set (x # data)" for y
    using sorted that heap_cmp_antisym [of x x] by auto
  fix y assume "y \<in> set S"
  show "heap_cmp cmp x y \<noteq> Greater"
  proof (cases "y \<in> set (x # data)")
    case False
    with \<open>y \<in> set S\<close> setS obtain j v where j: "j < length vss" "v \<in> set (vss ! j)" "y = tag j v"
      using set_tag_all [of y 0 vss] by auto
    from coversD [OF cov j(1,2)] obtain e where
      e: "e \<in> set (x # data)" "he_index e = j" "entry_before cmp (he_value e) v" by blast
    then have "heap_lt cmp e y" using heap_cmp_same_index [of e y] j(3) by simp
    with heap_cmp_le_trans [OF minh [OF e(1)], of y] show ?thesis by simp
  qed (use minh in blast)
qed

lemma merger_last:
  assumes S: "sorted_wrt (heap_lt cmp) S" "mset S = mset (data @ [x]) + mset (tag_all 0 vss)"
    and sorted: "heap_sorted (data @ [x])" and cov: "hi_covers (data @ [x]) vss"
  shows "\<exists>S'. S = S' @ [x]"
proof (rule sorted_last [OF S(1)])
  have setS: "set S = set (data @ [x]) \<union> set (tag_all 0 vss)"
    using S(2) by (metis set_mset_mset set_mset_union)
  then show "x \<in> set S" by simp
  have maxh: "heap_cmp cmp y x \<noteq> Greater" if "y \<in> set (data @ [x])" for y
    using sorted that heap_cmp_antisym [of x x] by (auto simp: sorted_wrt_append)
  fix y assume "y \<in> set S"
  show "heap_cmp cmp y x \<noteq> Greater"
  proof (cases "y \<in> set (data @ [x])")
    case False
    with \<open>y \<in> set S\<close> setS obtain j v where j: "j < length vss" "v \<in> set (vss ! j)" "y = tag j v"
      using set_tag_all [of y 0 vss] by auto
    from coversD [OF cov j(1,2)] obtain e where
      e: "e \<in> set (data @ [x])" "he_index e = j" "entry_before cmp v (he_value e)" by blast
    then have "heap_lt cmp y e" using heap_cmp_same_index [of y e] j(3) by simp
    with heap_cmp_le_trans [OF _ maxh [OF e(1)], of y] show ?thesis by simp
  qed (use maxh in blast)
qed

text \<open>Consequently it is beyond every remaining item of its own source.\<close>

lemma entry_before_eq:
  "internal_key_eq (key a) (key b) \<Longrightarrow> entry_before cmp b d \<Longrightarrow> entry_before cmp a d"
  "internal_key_eq (key a) (key b) \<Longrightarrow> entry_before cmp d a \<Longrightarrow> entry_before cmp d b"
  by (simp_all add: entry_before_def compare_with_def internal_key_eq_def)

lemma extreme_before:
  assumes "lo_covers heap vss" "\<And>y. y \<in> set heap \<Longrightarrow> heap_cmp cmp x y \<noteq> Greater"
    and "he_index x < length vss" "w \<in> set (vss ! he_index x)"
  shows "entry_before cmp (he_value x) w"
proof -
  obtain e where e: "e \<in> set heap" "he_index e = he_index x" "entry_before cmp (he_value e) w"
    using coversD [OF assms(1,3,4)] by blast
  then have "entry_before cmp (he_value x) (he_value e) \<or> internal_key_eq (key (he_value x)) (key (he_value e))"
    using assms(2) [OF e(1)] heap_cmp_same_index [of x e] heap_cmp_Equal [of x e]
    by (cases "heap_cmp cmp x e") simp_all
  with e(3) show ?thesis
    using entry_before_trans entry_before_eq by blast
qed

lemma extreme_after:
  assumes "hi_covers heap vss" "\<And>y. y \<in> set heap \<Longrightarrow> heap_cmp cmp y x \<noteq> Greater"
    and "he_index x < length vss" "w \<in> set (vss ! he_index x)"
  shows "entry_before cmp w (he_value x)"
proof -
  obtain e where e: "e \<in> set heap" "he_index e = he_index x" "entry_before cmp w (he_value e)"
    using coversD [OF assms(1,3,4)] by blast
  then have "entry_before cmp (he_value e) (he_value x) \<or> internal_key_eq (key (he_value e)) (key (he_value x))"
    using assms(2) [OF e(1)] heap_cmp_same_index [of e x] heap_cmp_Equal [of e x]
    by (cases "heap_cmp cmp e x") simp_all
  with e(3) show ?thesis
    using entry_before_trans entry_before_eq by blast
qed

lemma entry_before_asym: "entry_before cmp a b \<Longrightarrow> \<not> entry_before cmp b a"
  using compare_with_antisym [of "key a" "key b"] by (simp add: entry_before_def)

text \<open>Taking the extreme entry, with or without a refill from its source.\<close>

lemma version_sorted_update:
  "\<forall>us\<in>set vss. version_sorted cmp us \<Longrightarrow> version_sorted cmp vs \<Longrightarrow>
   \<forall>us\<in>set (vss[i := vs]). version_sorted cmp us"
  by (auto dest!: set_update_subset_insert [THEN subsetD])

lemma merger_pop_ok:
  assumes ok: "merger_ok vss st" and heap: "mset (mg_heap st) = add_mset x (mset data)"
    and data: "heap_sorted data" and S: "sorted_wrt (heap_lt cmp) S" "mset S = mset data + mset (tag_all 0 vss)"
    and empty: "vss ! he_index x = []"
  shows "merger_ok vss (st\<lparr>mg_heap := data\<rparr>)" and "merger_rest (st\<lparr>mg_heap := data\<rparr>) = map (Inr \<circ> he_value) S"
proof -
  have set_heap: "set (mg_heap st) = insert x (set data)"
    using heap by (metis set_mset_add_mset_insert set_mset_mset)
  show "merger_ok vss (st\<lparr>mg_heap := data\<rparr>)"
    using ok data S covers_pop [OF _ empty] unfolding merger_ok_def set_heap by auto
  show "merger_rest (st\<lparr>mg_heap := data\<rparr>) = map (Inr \<circ> he_value) S"
    by (rule merger_rest_eq) (use ok S in \<open>auto simp: merger_ok_def\<close>)
qed

lemma merger_refill_ok:
  assumes ok: "merger_ok vss st" and heap: "mset (mg_heap st) = add_mset x (mset data)"
    and i: "he_index x < length vss"
    and data': "heap_sorted data'" "mset data' = add_mset (tag (he_index x) v) (mset data)"
    and vs: "mset (vss ! he_index x) = add_mset v (mset vs)" "version_sorted cmp vs"
    and S: "sorted_wrt (heap_lt cmp) S" "mset S = mset data + mset (tag_all 0 vss)"
    and lo: "initialized_lo st \<Longrightarrow> lo_covers data' (vss[he_index x := vs])"
    and hi: "initialized_hi st \<Longrightarrow> hi_covers data' (vss[he_index x := vs])"
  defines "st' \<equiv> st\<lparr>mg_iterators := map (map Inr) (vss[he_index x := vs]), mg_heap := data'\<rparr>"
  shows "merger_ok (vss[he_index x := vs]) st'" and "merger_rest st' = map (Inr \<circ> he_value) S"
proof -
  have mset': "mset S = mset data' + mset (tag_all 0 (vss[he_index x := vs]))"
    using mset_tag_all_update [OF i vs(1), of 0] data'(2) S(2) by simp
  have "set data' \<subseteq> insert (tag (he_index x) v) (set (mg_heap st))"
    using heap data'(2) by (metis insert_mono set_mset_add_mset_insert set_mset_mset subset_insertI)
  then have "\<forall>e\<in>set data'. he_index e < length vss"
    using ok i by (auto simp: merger_ok_def)
  moreover have "\<forall>us\<in>set (vss[he_index x := vs]). version_sorted cmp us"
    using version_sorted_update ok vs(2) unfolding merger_ok_def by blast
  ultimately show "merger_ok (vss[he_index x := vs]) st'"
    unfolding merger_ok_def st'_def using data'(1) mset' S(1) lo hi by auto
  show "merger_rest st' = map (Inr \<circ> he_value) S"
    by (rule merger_rest_eq [of _ "vss[he_index x := vs]"]) (use S(1) mset' in \<open>simp_all add: st'_def\<close>)
qed

lemma merger_next_step_law:
  assumes ok: "merger_ok vss st" and lo: "initialized_lo st" and step: "merger_next_step cmp st = (r, st')"
  shows "\<exists>vss'. merger_ok vss' st' \<and> pop_front (merger_rest st) = (r, merger_rest st')"
proof -
  have inv: "mg_iterators st = map (map Inr) vss" "heap_sorted (mg_heap st)" "lo_covers (mg_heap st) vss"
    using ok lo by (auto simp: merger_ok_def)
  obtain S where S: "sorted_wrt (heap_lt cmp) S" "mset S = mset (mg_heap st) + mset (tag_all 0 vss)"
    using ok unfolding merger_ok_def by blast
  note rest = merger_rest_eq [OF inv(1) S]
  show ?thesis
  proof (cases "mg_heap st")
    case Nil
    then have "tag_all 0 vss = []" using inv(3) set_tag_all [of _ 0 vss]
      by (cases "tag_all 0 vss") (force simp: covers_def)+
    with S(2) rest step Nil ok show ?thesis by (auto simp: merger_next_step_def)
  next
    case heap: (Cons x data)
    have i: "he_index x < length vss" using ok heap by (auto simp: merger_ok_def)
    obtain S' where S': "S = x # S'" using merger_first [of S x data vss] S inv heap by auto
    then have S'': "sorted_wrt (heap_lt cmp) S'" "mset S' = mset data + mset (tag_all 0 vss)"
      using S heap by auto
    have mset_heap: "mset (mg_heap st) = add_mset x (mset data)" using heap by simp
    show ?thesis
    proof (cases "vss ! he_index x")
      case Nil
      then have nil: "mg_iterators st ! he_index x = []" "he_index x < length (mg_iterators st)"
        using i inv(1) by auto
      then have same: "(mg_iterators st)[he_index x := []] = mg_iterators st" by (metis list_update_id)
      have st': "r = Some (Inr (he_value x))" "st' = st\<lparr>mg_heap := data\<rparr>"
        using step heap nil by (auto simp: merger_next_step_def heap_pop_min_def same)
      have "heap_sorted data" using inv(2) heap by simp
      from merger_pop_ok [OF ok mset_heap this S'' Nil] show ?thesis
        using rest S' st' by auto
    next
      case (Cons v vs)
      from heap_replace_min_law [of x data "tag (he_index x) v"] inv(2) heap
      obtain data' where d: "heap_replace_min cmp (tag (he_index x) v) (mg_heap st) = Some (x, data')"
        "heap_sorted data'" "mset data' = add_mset (tag (he_index x) v) (mset data)" by auto
      have st': "r = Some (Inr (he_value x))"
        "st' = st\<lparr>mg_iterators := map (map Inr) (vss[he_index x := vs]), mg_heap := data'\<rparr>"
        using step heap i inv(1) Cons d(1) by (auto simp: merger_next_step_def map_update)
      have set_d: "set data' = insert (tag (he_index x) v) (set data)"
        using d(3) by (metis set_mset_add_mset_insert set_mset_mset)
      have vsorted: "version_sorted cmp (v # vs)" using ok i Cons by (metis merger_ok_def nth_mem)
      have minh: "heap_cmp cmp x y \<noteq> Greater" if "y \<in> set (mg_heap st)" for y
        using inv(2) heap that heap_cmp_antisym [of x x] by auto
      have x_lt: "\<not> entry_before cmp w (he_value x)" if "w \<in> set (vss ! he_index x)" for w
        using extreme_before [OF inv(3) minh i that] entry_before_asym by blast
      have "lo_covers data' (vss[he_index x := vs])"
        unfolding set_d by (rule covers_refill_near) (use inv(3) heap i vsorted in auto)
      moreover have "hi_covers data' (vss[he_index x := vs])" if "initialized_hi st"
        unfolding set_d by (rule covers_refill_far) (use ok heap i Cons x_lt that in \<open>auto simp: merger_ok_def\<close>)
      ultimately show ?thesis
        using merger_refill_ok [OF ok mset_heap i d(2,3) _ _ S'', of vs] Cons vsorted rest S' st' by auto
    qed
  qed
qed

lemma merger_next_back_step_law:
  assumes ok: "merger_ok vss st" and hi: "initialized_hi st" and step: "merger_next_back_step cmp st = (r, st')"
  shows "\<exists>vss'. merger_ok vss' st' \<and> pop_back (merger_rest st) = (r, merger_rest st')"
proof -
  have inv: "mg_iterators st = map (map Inr) vss" "heap_sorted (mg_heap st)" "hi_covers (mg_heap st) vss"
    using ok hi by (auto simp: merger_ok_def)
  obtain S where S: "sorted_wrt (heap_lt cmp) S" "mset S = mset (mg_heap st) + mset (tag_all 0 vss)"
    using ok unfolding merger_ok_def by blast
  note rest = merger_rest_eq [OF inv(1) S]
  show ?thesis
  proof (cases "mg_heap st" rule: rev_cases)
    case Nil
    then have "tag_all 0 vss = []" using inv(3) set_tag_all [of _ 0 vss]
      by (cases "tag_all 0 vss") (force simp: covers_def)+
    with S(2) rest step Nil ok show ?thesis by (auto simp: merger_next_back_step_def)
  next
    case heap: (snoc data x)
    have i: "he_index x < length vss" using ok heap by (auto simp: merger_ok_def)
    obtain S' where S': "S = S' @ [x]" using merger_last [of S data x vss] S inv heap by auto
    then have S'': "sorted_wrt (heap_lt cmp) S'" "mset S' = mset data + mset (tag_all 0 vss)"
      using S heap by (auto simp: sorted_wrt_append)
    have mset_heap: "mset (mg_heap st) = add_mset x (mset data)" using heap by simp
    show ?thesis
    proof (cases "vss ! he_index x" rule: rev_cases)
      case Nil
      then have nil: "mg_iterators st ! he_index x = []" "he_index x < length (mg_iterators st)"
        using i inv(1) by auto
      then have same: "(mg_iterators st)[he_index x := []] = mg_iterators st" by (metis list_update_id)
      have st': "r = Some (Inr (he_value x))" "st' = st\<lparr>mg_heap := data\<rparr>"
        using step heap nil by (auto simp: merger_next_back_step_def heap_pop_max_def same)
      have "heap_sorted data" using inv(2) heap by (simp add: sorted_wrt_append)
      from merger_pop_ok [OF ok mset_heap this S'' Nil] show ?thesis
        using rest S' st' by auto
    next
      case (snoc vs v)
      from heap_replace_max_law [of data x "tag (he_index x) v"] inv(2) heap
      obtain data' where d: "heap_replace_max cmp (tag (he_index x) v) (mg_heap st) = Some (x, data')"
        "heap_sorted data'" "mset data' = add_mset (tag (he_index x) v) (mset data)" by auto
      have st': "r = Some (Inr (he_value x))"
        "st' = st\<lparr>mg_iterators := map (map Inr) (vss[he_index x := vs]), mg_heap := data'\<rparr>"
        using step heap i inv(1) snoc d(1) by (auto simp: merger_next_back_step_def map_update)
      have set_d: "set data' = insert (tag (he_index x) v) (set data)"
        using d(3) by (metis set_mset_add_mset_insert set_mset_mset)
      have vsorted: "version_sorted cmp (vs @ [v])" using ok i snoc by (metis merger_ok_def nth_mem)
      have maxh: "heap_cmp cmp y x \<noteq> Greater" if "y \<in> set (mg_heap st)" for y
        using inv(2) heap that heap_cmp_antisym [of x x] by (auto simp: sorted_wrt_append)
      have x_gt: "\<not> entry_before cmp (he_value x) w" if "w \<in> set (vss ! he_index x)" for w
        using extreme_after [OF inv(3) maxh i that] entry_before_asym by blast
      have "hi_covers data' (vss[he_index x := vs])"
        unfolding set_d by (rule covers_refill_near) (use inv(3) heap i vsorted in \<open>auto simp: sorted_wrt_append\<close>)
      moreover have "lo_covers data' (vss[he_index x := vs])" if "initialized_lo st"
        unfolding set_d by (rule covers_refill_far) (use ok heap i snoc x_gt that in \<open>auto simp: merger_ok_def\<close>)
      ultimately show ?thesis
        using merger_refill_ok [OF ok mset_heap i d(2,3) _ _ S'', of vs] snoc vsorted rest S' st'
        by (auto simp: sorted_wrt_append)
    qed
  qed
qed

lemma merger_next_law:
  assumes "merger_ok vss st" "merger_next cmp st = (r, st')"
  shows "\<exists>vss'. merger_ok vss' st' \<and> pop_front (merger_rest st) = (r, merger_rest st')"
proof (cases "initialized_lo st")
  case True
  with assms merger_next_step_law show ?thesis by (auto simp: merger_next_def)
next
  case False
  from initialize_lo_law [OF assms(1)] obtain st1 vss1 where
    i: "initialize_lo cmp st = (None, st1)" "merger_ok vss1 st1" "initialized_lo st1" "merger_rest st1 = merger_rest st"
    by blast
  with False assms(2) have "merger_next_step cmp st1 = (r, st')" by (simp add: merger_next_def)
  from merger_next_step_law [OF i(2,3) this] i(4) show ?thesis by simp
qed

lemma merger_next_back_law:
  assumes "merger_ok vss st" "merger_next_back cmp st = (r, st')"
  shows "\<exists>vss'. merger_ok vss' st' \<and> pop_back (merger_rest st) = (r, merger_rest st')"
proof (cases "initialized_hi st")
  case True
  with assms merger_next_back_step_law show ?thesis by (auto simp: merger_next_back_def)
next
  case False
  from initialize_hi_law [OF assms(1)] obtain st1 vss1 where
    i: "initialize_hi cmp st = (None, st1)" "merger_ok vss1 st1" "initialized_hi st1" "merger_rest st1 = merger_rest st"
    by blast
  with False assms(2) have "merger_next_back_step cmp st1 = (r, st')" by (simp add: merger_next_back_def)
  from merger_next_back_step_law [OF i(2,3) this] i(4) show ?thesis by simp
qed

lemma merger_iterator:
  "double_ended_iterator (merger_next cmp) (merger_next_back cmp) (\<lambda>st. \<exists>vss. merger_ok vss st) merger_rest"
  using merger_next_law merger_next_back_law by unfold_locales blast+

lemma tag_all_distinct:
  "\<forall>vs\<in>set vss. version_sorted cmp vs \<Longrightarrow>
   distinct (map (\<lambda>e. (ukey (he_value e), eseqno (he_value e), he_index e)) (tag_all i vss))"
proof (induction vss arbitrary: i)
  case (Cons vs vss)
  have "version_sorted cmp vs \<Longrightarrow> distinct (map (\<lambda>v. (ukey v, eseqno v, i)) vs)"
    by (induction vs) (auto simp: entry_before_iff)
  moreover have "e \<in> set (tag_all (Suc i) vss) \<Longrightarrow> i < he_index e" for e
    by (auto simp: set_tag_all)
  ultimately show ?case using Cons by (force simp: o_def)
qed simp

lemma tag_all_strict:
  assumes "\<forall>vs\<in>set vss. version_sorted cmp vs"
  shows "sorted_wrt (heap_lt cmp) (sort_by (heap_cmp cmp) (tag_all 0 vss))"
proof -
  let ?id = "\<lambda>e. (ukey (he_value e), eseqno (he_value e), he_index e)"
  let ?S = "sort_by (heap_cmp cmp) (tag_all 0 vss)"
  have "mset (map ?id ?S) = mset (map ?id (tag_all 0 vss))" by simp
  then have "distinct (map ?id ?S)"
    using tag_all_distinct [OF assms, of 0] mset_eq_imp_distinct_iff by blast
  then have ids: "?id (?S ! i) \<noteq> ?id (?S ! j)" if "i < j" "j < length ?S" for i j
    using that nth_eq_iff_index_eq [of "map ?id ?S" i j] by (simp del: length_sort_by)
  have weak: "heap_cmp cmp (?S ! i) (?S ! j) \<noteq> Greater" if "i < j" "j < length ?S" for i j
    using sorted_wrt_nth_less [OF sorted_sort_by [OF heap_preorder]] that by blast
  have "heap_lt cmp (?S ! i) (?S ! j)" if "i < j" "j < length ?S" for i j
    using ids [OF that] weak [OF that] heap_cmp_Equal [of "?S ! i" "?S ! j"]
    by (cases "heap_cmp cmp (?S ! i) (?S ! j)") (simp_all add: internal_key_eq_def)
  then show ?thesis unfolding sorted_wrt_iff_nth_less by blast
qed

lemma merger_new_ok:
  assumes "\<forall>vs\<in>set vss. version_sorted cmp vs"
  shows "merger_ok vss (merger_new (map (map Inr) vss))"
    and "merger_rest (merger_new (map (map Inr) vss)) = map (Inr \<circ> he_value) (sort_by (heap_cmp cmp) (tag_all 0 vss))"
proof -
  show "merger_ok vss (merger_new (map (map Inr) vss))"
    using assms tag_all_strict [OF assms] by (auto simp: merger_ok_def merger_new_def)
  show "merger_rest (merger_new (map (map Inr) vss)) = map (Inr \<circ> he_value) (sort_by (heap_cmp cmp) (tag_all 0 vss))"
    by (rule merger_rest_eq) (use tag_all_strict [OF assms] in \<open>auto simp: merger_new_def\<close>)
qed

end

interpretation merger_default: double_ended_iterator "merger_next default_compare"
    "merger_next_back default_compare" "\<lambda>st. \<exists>vss. default_cmp.merger_ok vss st" default_cmp.merger_rest
  by (rule default_cmp.merger_iterator)

lemma mset_tag_all_values: "image_mset he_value (mset (tag_all i vss)) = mset (concat vss)"
  by (induction vss arbitrary: i) (auto simp: multiset.map_comp o_def)

text \<open>
  C12: for sorted error-free sources, a \<open>Merger\<close> driven by any interleaving of \<open>next\<close> and \<open>next_back\<close>
  is a deque of one fixed list: a permutation of all source entries in internal key order.
  Nothing is lost, duplicated or reordered when the two ends meet inside a source.
\<close>

theorem merger_is_sorted_merge:
  assumes "user_comparator c" "\<forall>vs\<in>set vss. version_sorted c vs"
  shows "\<exists>out. mset out = mset (concat vss) \<and>
    sorted_wrt (\<lambda>a b. compare_with c (key a) (key b) \<noteq> Greater) out \<and>
    (\<forall>ds. fst (iter_run (merger_next c) (merger_next_back c) ds (merger_new (map (map Inr) vss))) =
       fst (deque_run ds (map Inr out)))"
proof -
  let ?S = "sort_by (heap_cmp c) (tag_all 0 vss)"
  note it = user_comparator.merger_iterator [OF assms(1)] and new = user_comparator.merger_new_ok [OF assms]
  have "sorted_wrt (heap_lt c) ?S" by (rule user_comparator.tag_all_strict [OF assms])
  then have "sorted_wrt (\<lambda>a b. compare_with c (key a) (key b) \<noteq> Greater) (map he_value ?S)"
    unfolding sorted_wrt_map by (rule sorted_wrt_mono_rel [rotated]) (auto simp: heap_cmp_def)
  moreover have "mset (map he_value ?S) = mset (concat vss)"
    using mset_tag_all_values [of 0 vss] by simp
  moreover have "fst (iter_run (merger_next c) (merger_next_back c) ds (merger_new (map (map Inr) vss))) =
      fst (deque_run ds (map Inr (map he_value ?S)))" for ds
    using double_ended_iterator.run_results [OF it, of "merger_new (map (map Inr) vss)" ds] new by auto
  ultimately show ?thesis by blast
qed

theorem merger_is_sorted_merge_witness:
  "let e = (\<lambda>k s. \<lparr>key = \<lparr>user_key = [k], seqno = s, value_type = Value\<rparr>, val = []\<rparr>)
   in \<exists>out. mset out = {#e 5 1, e 1 2, e 3 4#} \<and>
     fst (iter_run (merger_next default_compare) (merger_next_back default_compare) [Front, Back, Front]
       (merger_new (map (map Inr) [[e 5 1], [e 1 2, e 3 4]]))) =
       fst (deque_run [Front, Back, Front] (map Inr out))"
proof -
  define e where "e = (\<lambda>k s. \<lparr>key = \<lparr>user_key = [k], seqno = s, value_type = Value\<rparr>, val = []\<rparr>)"
  have "\<forall>vs\<in>set [[e 5 1], [e 1 2, e 3 4]]. version_sorted default_compare vs"
    by (simp add: e_def entry_before_def compare_with_def default_compare_def)
  from merger_is_sorted_merge [OF user_comparator_default this]
  show ?thesis unfolding Let_def e_def [symmetric] by (auto simp del: iter_run.simps)
qed

end
