(* ===== verification/Loser_Tree.thy ===== *)
theory Loser_Tree
  imports Prelude
begin

text \<open>
  \<open>loser_tree.rs\<close>: the tournament the seeking merger picks its next entry with. A leaf and its
  byte of the presence map are one \<open>option\<close>: \<open>None\<close> is an absent leaf, whose storage is
  uninitialised. An operation that would read such storage, index out of bounds, or fail an
  \<open>expect\<close> or \<open>debug_assert!\<close> has the result \<open>None\<close>.
\<close>

record 'e loser_tree =
  lt_leaves :: "'e option list"
  lt_tree :: "nat list"
  lt_n_sources :: nat
  lt_active :: nat

type_synonym 'e entry_cmp = "'e \<Rightarrow> 'e \<Rightarrow> ordering"

definition cmp_indices :: "'e entry_cmp \<Rightarrow> 'e option list \<Rightarrow> nat \<Rightarrow> nat \<Rightarrow> ordering" where
  "cmp_indices c ls a b =
     (case (ls ! a, ls ! b) of
        (Some x, Some y) \<Rightarrow> c x y
      | (Some _, None) \<Rightarrow> Less
      | (None, Some _) \<Rightarrow> Greater
      | (None, None) \<Rightarrow> Equal)"

text \<open>\<open>usize::next_power_of_two\<close>.\<close>

function next_power_from :: "nat \<Rightarrow> nat \<Rightarrow> nat" where
  "next_power_from n p = (if n \<le> p \<or> p = 0 then p else next_power_from n (2 * p))"
  by pat_completeness auto
termination
  by (relation "measure (\<lambda>(n, p). n - p)") auto

declare next_power_from.simps [simp del]

definition next_power_of_two :: "nat \<Rightarrow> nat" where
  "next_power_of_two n = next_power_from n 1"

function build_subtree ::
  "'e entry_cmp \<Rightarrow> 'e option list \<Rightarrow> nat \<Rightarrow> nat \<Rightarrow> nat \<Rightarrow> nat list \<Rightarrow> nat \<times> nat list" where
  "build_subtree c ls node lo hi t =
     (if hi - lo \<le> 1 then (lo, t)
      else (let mid = (lo + hi) div 2;
                (left_winner, t1) = build_subtree c ls (2 * node) lo mid t;
                (right_winner, t2) = build_subtree c ls (2 * node + 1) mid hi t1;
                (winner, loser) =
                  (if cmp_indices c ls left_winner right_winner \<noteq> Greater
                   then (left_winner, right_winner) else (right_winner, left_winner));
                t3 = t2[node := loser]
            in (winner, if node = 1 then t3[0 := winner] else t3)))"
  by pat_completeness auto
termination
  by (relation "measure (\<lambda>(_, _, _, lo, hi, _). hi - lo)") auto

declare build_subtree.simps [simp del]

definition lt_build :: "'e entry_cmp \<Rightarrow> 'e option list \<Rightarrow> 'e loser_tree" where
  "lt_build c initial =
     (let n = length initial; cap = max (next_power_of_two n) 2;
          leaves = initial @ replicate (cap - n) None
      in \<lparr>lt_leaves = leaves,
          lt_tree = snd (build_subtree c leaves 1 0 cap (replicate cap 0)),
          lt_n_sources = n, lt_active = length (filter (\<lambda>x. x \<noteq> None) initial)\<rparr>)"

definition lt_clear :: "'e loser_tree \<Rightarrow> 'e loser_tree" where
  "lt_clear q = q\<lparr>lt_leaves := replicate (length (lt_leaves q)) None, lt_active := 0\<rparr>"

text \<open>Pulling the head of every slot in turn; \<open>pull\<close> may change the state it draws from.\<close>

fun pull_slots :: "(nat \<Rightarrow> 's \<Rightarrow> 'e option \<times> 's) \<Rightarrow> nat list \<Rightarrow> 's \<Rightarrow> 'e option list \<times> 's" where
  "pull_slots pull [] s = ([], s)"
| "pull_slots pull (slot # slots) s =
     (let (v, s') = pull slot s; (vs, s'') = pull_slots pull slots s' in (v # vs, s''))"

text \<open>
  \<open>refill_with\<close> calls \<open>pull\<close> once per source slot; what the closure mutates is the state \<open>'s\<close>.
\<close>

fun refill_loop ::
  "(nat \<Rightarrow> 's \<Rightarrow> 'e option \<times> 's) \<Rightarrow> nat list \<Rightarrow> 's \<Rightarrow> 'e loser_tree \<Rightarrow> 'e loser_tree \<times> 's" where
  "refill_loop pull [] s q = (q, s)"
| "refill_loop pull (slot # slots) s q =
     (case pull slot s of
        (Some v, s') \<Rightarrow>
          refill_loop pull slots s'
            (q\<lparr>lt_leaves := (lt_leaves q)[slot := Some v], lt_active := lt_active q + 1\<rparr>)
      | (None, s') \<Rightarrow> refill_loop pull slots s' q)"

definition refill_with ::
  "'e entry_cmp \<Rightarrow> (nat \<Rightarrow> 's \<Rightarrow> 'e option \<times> 's) \<Rightarrow> 's \<Rightarrow> 'e loser_tree \<Rightarrow> 'e loser_tree \<times> 's" where
  "refill_with c pull s q =
     (let (q1, s1) = refill_loop pull [0..<lt_n_sources q] s (lt_clear q)
      in (q1\<lparr>lt_tree := snd (build_subtree c (lt_leaves q1) 1 0 (length (lt_leaves q1)) (lt_tree q1))\<rparr>, s1))"

definition lt_is_empty :: "'e loser_tree \<Rightarrow> bool" where
  "lt_is_empty q \<longleftrightarrow> lt_active q = 0"

definition winner_slot :: "'e loser_tree \<Rightarrow> nat option" where
  "winner_slot q = (if lt_is_empty q then None else Some (lt_tree q ! 0))"

definition peek_slot :: "'e loser_tree \<Rightarrow> nat \<Rightarrow> 'e option" where
  "peek_slot q slot = (if slot \<ge> length (lt_leaves q) then None else lt_leaves q ! slot)"

definition lt_peek_min :: "'e loser_tree \<Rightarrow> 'e option" where
  "lt_peek_min q = (case winner_slot q of None \<Rightarrow> None | Some idx \<Rightarrow> lt_leaves q ! idx)"

text \<open>The loop of \<open>replay\<close>, from a node to the root.\<close>

function replay_loop :: "'e entry_cmp \<Rightarrow> 'e option list \<Rightarrow> nat \<Rightarrow> nat \<Rightarrow> nat list \<Rightarrow> nat \<times> nat list" where
  "replay_loop c ls node winner t =
     (if node \<ge> 1
      then (let other = t ! node;
                (winner', t') = (if cmp_indices c ls other winner = Less
                                 then (other, t[node := winner]) else (winner, t))
            in replay_loop c ls (node div 2) winner' t')
      else (winner, t))"
  by pat_completeness auto
termination
  by (relation "measure (\<lambda>(_, _, node, _, _). node)") auto

declare replay_loop.simps [simp del]

definition replay :: "'e entry_cmp \<Rightarrow> nat \<Rightarrow> 'e loser_tree \<Rightarrow> 'e loser_tree" where
  "replay c leaf q =
     (let (winner, t) =
            replay_loop c (lt_leaves q) ((length (lt_leaves q) + leaf) div 2) leaf (lt_tree q)
      in q\<lparr>lt_tree := t[0 := winner]\<rparr>)"

definition lt_replace_min :: "'e entry_cmp \<Rightarrow> 'e \<Rightarrow> 'e loser_tree \<Rightarrow> ('e \<times> 'e loser_tree) option" where
  "lt_replace_min c new q =
     (case winner_slot q of
        None \<Rightarrow> None
      | Some slot \<Rightarrow>
          (case lt_leaves q ! slot of
             None \<Rightarrow> None
           | Some old \<Rightarrow> Some (old, replay c slot (q\<lparr>lt_leaves := (lt_leaves q)[slot := Some new]\<rparr>))))"

definition lt_pop_min :: "'e entry_cmp \<Rightarrow> 'e loser_tree \<Rightarrow> ('e option \<times> 'e loser_tree) option" where
  "lt_pop_min c q =
     (case winner_slot q of
        None \<Rightarrow> Some (None, q)
      | Some slot \<Rightarrow>
          (case lt_leaves q ! slot of
             None \<Rightarrow> None
           | Some old \<Rightarrow>
               Some (Some old, replay c slot
                 (q\<lparr>lt_leaves := (lt_leaves q)[slot := None], lt_active := lt_active q - 1\<rparr>))))"

definition take_slot :: "'e entry_cmp \<Rightarrow> nat \<Rightarrow> 'e loser_tree \<Rightarrow> 'e option \<times> 'e loser_tree" where
  "take_slot c slot q =
     (if slot \<ge> length (lt_leaves q) then (None, q)
      else case lt_leaves q ! slot of
          None \<Rightarrow> (None, q)
        | Some taken \<Rightarrow>
            (Some taken, replay c slot
               (q\<lparr>lt_leaves := (lt_leaves q)[slot := None], lt_active := lt_active q - 1\<rparr>)))"

subsection \<open>The tournament invariant\<close>

text \<open>
  With \<open>2 ^ K\<close> leaves, the node of height \<open>k\<close> over the leaves \<open>b * 2 ^ k ..< (b + 1) * 2 ^ k\<close> is at
  index \<open>2 ^ (K - k) + b\<close>. \<open>game c K ls t k b w\<close>: the games recorded below that node are consistent
  and \<open>w\<close> has won them all.
\<close>

abbreviation node_at :: "nat \<Rightarrow> nat \<Rightarrow> nat \<Rightarrow> nat" where
  "node_at K k b \<equiv> 2 ^ (K - k) + b"

primrec game :: "'e entry_cmp \<Rightarrow> nat \<Rightarrow> 'e option list \<Rightarrow> nat list \<Rightarrow> nat \<Rightarrow> nat \<Rightarrow> nat \<Rightarrow> bool" where
  "game c K ls t 0 b w \<longleftrightarrow> w = b"
| "game c K ls t (Suc k) b w \<longleftrightarrow>
     (\<exists>wl wr. game c K ls t k (2 * b) wl \<and> game c K ls t k (2 * b + 1) wr \<and>
        (w = wl \<and> t ! node_at K (Suc k) b = wr \<or> w = wr \<and> t ! node_at K (Suc k) b = wl) \<and>
        cmp_indices c ls w (t ! node_at K (Suc k) b) \<noteq> Greater)"

lemma game_range: "game c K ls t k b w \<Longrightarrow> w div 2 ^ k = b"
proof (induction k arbitrary: b w)
  case (Suc k)
  then have "w div 2 ^ k = 2 * b \<or> w div 2 ^ k = 2 * b + 1" by auto
  then have "w div 2 ^ k div 2 = b" by auto
  then show ?case by (simp add: div_mult2_eq [symmetric] mult.commute)
qed simp

lemma half_block: "(i :: nat) div 2 ^ Suc k = b \<longleftrightarrow> i div 2 ^ k = 2 * b \<or> i div 2 ^ k = 2 * b + 1"
proof -
  have "i div 2 ^ Suc k = i div 2 ^ k div 2" by (simp add: div_mult2_eq [symmetric] mult.commute)
  moreover have "q div 2 = b \<longleftrightarrow> q = 2 * b \<or> q = 2 * b + 1" for q :: nat by presburger
  ultimately show ?thesis by simp
qed

text \<open>Nodes of different height or block are different array cells.\<close>

lemma node_at_inj:
  assumes "node_at K j b = node_at K j' b'" "b < 2 ^ (K - j)" "b' < 2 ^ (K - j')" "j \<le> K" "j' \<le> K"
  shows "j = j' \<and> b = b'"
proof -
  have "K - j = K - j'"
  proof (rule ccontr)
    assume "K - j \<noteq> K - j'"
    then consider "Suc (K - j) \<le> K - j'" | "Suc (K - j') \<le> K - j" by linarith
    then show False
    proof cases
      case 1
      then have "(2::nat) ^ Suc (K - j) \<le> 2 ^ (K - j')" by (intro power_increasing) auto
      with assms(1,2) show False by simp
    next
      case 2
      then have "(2::nat) ^ Suc (K - j') \<le> 2 ^ (K - j)" by (intro power_increasing) auto
      with assms(1,3) show False by simp
    qed
  qed
  with assms show ?thesis by auto
qed

text \<open>\<open>below K k b n\<close>: cell \<open>n\<close> belongs to the games under block \<open>b\<close> of height \<open>k\<close>.\<close>

definition below :: "nat \<Rightarrow> nat \<Rightarrow> nat \<Rightarrow> nat \<Rightarrow> bool" where
  "below K k b n \<longleftrightarrow> (\<exists>j b'. 0 < j \<and> j \<le> k \<and> b' div 2 ^ (k - j) = b \<and> n = node_at K j b')"

lemma below_child:
  assumes "below K k (2 * b) n \<or> below K k (2 * b + 1) n"
  shows "below K (Suc k) b n"
proof -
  obtain b2 where b2: "b2 = 2 * b \<or> b2 = 2 * b + 1" "below K k b2 n" using assms by blast
  then obtain j b' where j: "0 < j" "j \<le> k" "b' div 2 ^ (k - j) = b2" "n = node_at K j b'"
    by (auto simp: below_def)
  then have "b' div 2 ^ Suc (k - j) = b" using b2(1) half_block [of b' "k - j" b] by simp
  then have "b' div 2 ^ (Suc k - j) = b" using j(2) by (simp add: Suc_diff_le)
  then show ?thesis unfolding below_def using j by (intro exI [of _ j] exI [of _ b']) auto
qed

lemma below_top: "below K (Suc k) b (node_at K (Suc k) b)"
  unfolding below_def by (intro exI [of _ "Suc k"] exI [of _ b]) auto

lemma below_bound:
  assumes "below K k b n" "b < 2 ^ (K - k)" "k \<le> K"
  obtains j b' where "0 < j" "j \<le> k" "b' div 2 ^ (k - j) = b" "n = node_at K j b'" "b' < 2 ^ (K - j)"
proof -
  obtain j b' where j: "0 < j" "j \<le> k" "b' div 2 ^ (k - j) = b" "n = node_at K j b'"
    using assms(1) by (auto simp: below_def)
  have "(2::nat) ^ (K - j) = 2 ^ (K - k) * 2 ^ (k - j)"
    using j(2) assms(3) by (simp flip: power_add)
  moreover have "b' < 2 ^ (K - k) * 2 ^ (k - j)"
    using j(3) assms(2) by (simp flip: div_less_iff_less_mult)
  ultimately show thesis using that j by simp
qed

lemma below_pos: "below K k b n \<Longrightarrow> 0 < n"
  by (auto simp: below_def)

lemma below_disjoint:
  assumes "below K k b n" "below K k b2 n" "b < 2 ^ (K - k)" "b2 < 2 ^ (K - k)" "k \<le> K"
  shows "b = b2"
proof -
  obtain j b' where j: "0 < j" "j \<le> k" "b' div 2 ^ (k - j) = b" "n = node_at K j b'" "b' < 2 ^ (K - j)"
    using below_bound [OF assms(1,3,5)] by blast
  obtain i a where i: "0 < i" "i \<le> k" "a div 2 ^ (k - i) = b2" "n = node_at K i a" "a < 2 ^ (K - i)"
    using below_bound [OF assms(2,4,5)] by blast
  have "j = i \<and> b' = a" using j i assms(5) by (intro node_at_inj [of K]) auto
  then show ?thesis using i j by simp
qed

lemma not_below_top:
  assumes "b2 < 2 ^ (K - k)" "b < 2 ^ (K - Suc k)" "Suc k \<le> K"
  shows "\<not> below K k b2 (node_at K (Suc k) b)"
proof
  assume "below K k b2 (node_at K (Suc k) b)"
  then obtain j b' where "j \<le> k" "node_at K (Suc k) b = node_at K j b'" "b' < 2 ^ (K - j)"
    using below_bound [OF _ assms(1)] assms(3) by (metis Suc_leD)
  then show False using node_at_inj [of K "Suc k" b j b'] assms by auto
qed

lemma game_cong:
  "(\<And>n. below K k b n \<Longrightarrow> t' ! n = t ! n) \<Longrightarrow> (\<And>i. i div 2 ^ k = b \<Longrightarrow> ls' ! i = ls ! i) \<Longrightarrow>
   game c K ls' t' k b w \<longleftrightarrow> game c K ls t k b w"
proof (induction k arbitrary: b w)
  case (Suc k)
  have sub: "game c K ls' t' k b2 w2 \<longleftrightarrow> game c K ls t k b2 w2" if "b2 = 2 * b \<or> b2 = 2 * b + 1" for b2 w2
  proof (rule Suc.IH)
    show "t' ! n = t ! n" if "below K k b2 n" for n
      using Suc.prems(1) below_child \<open>b2 = 2 * b \<or> b2 = 2 * b + 1\<close> that by blast
    show "ls' ! i = ls ! i" if "i div 2 ^ k = b2" for i
      using Suc.prems(2) half_block [of i k b] that \<open>b2 = 2 * b \<or> b2 = 2 * b + 1\<close> by blast
  qed
  have top: "t' ! node_at K (Suc k) b = t ! node_at K (Suc k) b"
    using Suc.prems(1) below_top by blast
  have cmp: "cmp_indices c ls' x y = cmp_indices c ls x y" if "x div 2 ^ Suc k = b" "y div 2 ^ Suc k = b" for x y
    using Suc.prems(2) that by (simp add: cmp_indices_def)
  have in_block: "x div 2 ^ Suc k = b" if "game c K ls t k b2 x" "b2 = 2 * b \<or> b2 = 2 * b + 1" for x b2
    using game_range [OF that(1)] that(2) half_block by blast
  show ?case
  proof
    assume "game c K ls' t' (Suc k) b w"
    then obtain wl wr where w: "game c K ls t k (2 * b) wl" "game c K ls t k (2 * b + 1) wr"
      "w = wl \<and> t ! node_at K (Suc k) b = wr \<or> w = wr \<and> t ! node_at K (Suc k) b = wl"
      "cmp_indices c ls' w (t ! node_at K (Suc k) b) \<noteq> Greater"
      using sub top by (simp only: game.simps) blast
    moreover have "cmp_indices c ls' w (t ! node_at K (Suc k) b) = cmp_indices c ls w (t ! node_at K (Suc k) b)"
      using w(3) in_block [OF w(1)] in_block [OF w(2)] cmp by blast
    ultimately show "game c K ls t (Suc k) b w" unfolding game.simps by metis
  next
    assume "game c K ls t (Suc k) b w"
    then obtain wl wr where w: "game c K ls t k (2 * b) wl" "game c K ls t k (2 * b + 1) wr"
      "w = wl \<and> t ! node_at K (Suc k) b = wr \<or> w = wr \<and> t ! node_at K (Suc k) b = wl"
      "cmp_indices c ls w (t ! node_at K (Suc k) b) \<noteq> Greater"
      by (simp only: game.simps) blast
    moreover have "cmp_indices c ls' w (t ! node_at K (Suc k) b) = cmp_indices c ls w (t ! node_at K (Suc k) b)"
      using w(3) in_block [OF w(1)] in_block [OF w(2)] cmp by blast
    ultimately show "game c K ls' t' (Suc k) b w" unfolding game.simps top using sub by metis
  qed
qed simp

lemma build_subtree_step:
  assumes "\<not> hi - lo \<le> 1" "(lo + hi) div 2 = mid"
    "build_subtree c ls (2 * node) lo mid t = (lw, t1)"
    "build_subtree c ls (2 * node + 1) mid hi t1 = (rw, t2)"
    "ws = (if cmp_indices c ls lw rw \<noteq> Greater then (lw, rw) else (rw, lw))"
  shows "build_subtree c ls node lo hi t =
    (fst ws, if node = 1 then t2[node := snd ws, 0 := fst ws] else t2[node := snd ws])"
  using assms by (simp add: build_subtree.simps [of c ls node lo hi t] Let_def)

lemma next_power_from_pow: "\<exists>k. next_power_from n (2 ^ j) = 2 ^ k \<and> n \<le> 2 ^ k"
proof (induction "n - 2 ^ j" arbitrary: j rule: less_induct)
  case less
  show ?case
  proof (cases "n \<le> 2 ^ j")
    case True
    then show ?thesis by (auto simp: next_power_from.simps [of n "2 ^ j"])
  next
    case False
    moreover have "n - 2 * p < n - p" if "0 < p" "\<not> n \<le> p" for p :: nat using that by linarith
    ultimately have "n - 2 ^ Suc j < n - 2 ^ j" by simp
    from less [OF this] False show ?thesis by (simp add: next_power_from.simps [of n "2 ^ j"])
  qed
qed

lemma capacity_power: "\<exists>K. max (next_power_of_two n) 2 = 2 ^ K \<and> 0 < K \<and> n \<le> 2 ^ K"
proof -
  obtain k where k: "next_power_of_two n = 2 ^ k" "n \<le> 2 ^ k"
    using next_power_from_pow [of n 0] by (auto simp: next_power_of_two_def)
  show ?thesis
  proof (cases "k = 0")
    case True
    with k show ?thesis by (intro exI [of _ 1]) auto
  next
    case False
    then have "(2::nat) ^ 1 \<le> 2 ^ k" by (intro power_increasing) auto
    with k False show ?thesis by (intro exI [of _ k]) auto
  qed
qed

lemma length_pull_slots [simp]: "length (fst (pull_slots pull slots s)) = length slots"
  by (induction slots arbitrary: s) (simp_all add: Let_def case_prod_beta)

lemma refill_loop_law:
  assumes "a \<le> b" "b \<le> length (lt_leaves q)" "\<forall>i. a \<le> i \<and> i < b \<longrightarrow> lt_leaves q ! i = None"
    "pull_slots pull [a..<b] s = (vs, s')"
  shows "refill_loop pull [a..<b] s q =
    (q\<lparr>lt_leaves := take a (lt_leaves q) @ vs @ drop b (lt_leaves q),
       lt_active := lt_active q + length (filter (\<lambda>x. x \<noteq> None) vs)\<rparr>, s')"
  using assms
proof (induction "b - a" arbitrary: a s q vs)
  case 0
  then show ?case by simp
next
  case (Suc m)
  then have up: "[a..<b] = a # [Suc a..<b]" and ab: "a < b" by (simp_all add: upt_conv_Cons)
  obtain v s1 where p: "pull a s = (v, s1)" by (rule prod.exhaust)
  obtain us where us: "pull_slots pull [Suc a..<b] s1 = (us, s')" "vs = v # us"
    using Suc.prems(4) p by (auto simp: up Let_def split: prod.splits)
  have m: "m = b - Suc a" "Suc a \<le> b" using Suc.hyps(2) ab by auto
  have tk: "take (Suc a) (lt_leaves q) = take a (lt_leaves q) @ [lt_leaves q ! a]"
    using Suc.prems(2) ab by (simp add: take_Suc_conv_app_nth)
  show ?case
  proof (cases v)
    case None
    have "lt_leaves q ! a = None" using Suc.prems(3) ab by simp
    with Suc.hyps(1) [OF m, of q s1 us] Suc.prems(2,3) us None p tk show ?thesis by (simp add: up)
  next
    case (Some e)
    let ?q = "q\<lparr>lt_leaves := (lt_leaves q)[a := Some e], lt_active := lt_active q + 1\<rparr>"
    have "take (Suc a) ((lt_leaves q)[a := Some e]) = take a (lt_leaves q) @ [Some e]"
      using Suc.prems(2) ab by (simp add: take_Suc_conv_app_nth)
    with Suc.hyps(1) [OF m, of ?q s1 us] Suc.prems(2,3) us Some p ab show ?thesis by (simp add: up)
  qed
qed

text \<open>The two children of a node, told apart by which one holds the leaf \<open>l\<close>.\<close>

definition siblings :: "nat \<Rightarrow> nat \<Rightarrow> nat \<Rightarrow> bool" where
  "siblings B b b' \<longleftrightarrow> b = 2 * B \<and> b' = 2 * B + 1 \<or> b = 2 * B + 1 \<and> b' = 2 * B"

lemma game_split:
  assumes "game c K ls t (Suc k) B l"
  obtains b' where "siblings B (l div 2 ^ k) b'" "game c K ls t k (l div 2 ^ k) l"
    "game c K ls t k b' (t ! node_at K (Suc k) B)"
proof -
  obtain wl wr where w: "game c K ls t k (2 * B) wl" "game c K ls t k (2 * B + 1) wr"
    "l = wl \<and> t ! node_at K (Suc k) B = wr \<or> l = wr \<and> t ! node_at K (Suc k) B = wl"
    using assms by (simp only: game.simps) blast
  from w(3) show thesis
  proof
    assume "l = wl \<and> t ! node_at K (Suc k) B = wr"
    then show thesis using w(1,2) game_range [OF w(1)] that [of "2 * B + 1"] by (auto simp: siblings_def)
  next
    assume "l = wr \<and> t ! node_at K (Suc k) B = wl"
    then show thesis using w(1,2) game_range [OF w(2)] that [of "2 * B"] by (auto simp: siblings_def)
  qed
qed

lemma game_join:
  assumes "siblings B b b'" "game c K ls t k b x" "game c K ls t k b' y"
    "w = x \<and> t ! node_at K (Suc k) B = y \<or> w = y \<and> t ! node_at K (Suc k) B = x"
    "cmp_indices c ls w (t ! node_at K (Suc k) B) \<noteq> Greater"
  shows "game c K ls t (Suc k) B w"
  using assms unfolding siblings_def game.simps by metis

lemma block_bound: "(l :: nat) < 2 ^ K \<Longrightarrow> k \<le> K \<Longrightarrow> l div 2 ^ k < 2 ^ (K - k)"
  by (simp add: div_less_iff_less_mult flip: power_add)

lemma siblings_bound:
  assumes "siblings B b b'" "Suc k \<le> K" "B < 2 ^ (K - Suc k)"
  shows "b' \<noteq> b" "b' < 2 ^ (K - k)"
proof -
  have "(2::nat) ^ (K - k) = 2 * 2 ^ (K - Suc k)"
    using assms(2) by (simp add: Suc_diff_Suc flip: power_Suc)
  then show "b' \<noteq> b" "b' < 2 ^ (K - k)" using assms by (auto simp: siblings_def)
qed

lemma node_at_less: "0 < k \<Longrightarrow> k \<le> K \<Longrightarrow> b < 2 ^ (K - k) \<Longrightarrow> node_at K k b < 2 ^ K"
proof -
  assume a: "0 < k" "k \<le> K" "b < 2 ^ (K - k)"
  then have "node_at K k b < 2 ^ Suc (K - k)" by simp
  also have "(2::nat) ^ Suc (K - k) \<le> 2 ^ K" using a by (intro power_increasing) auto
  finally show ?thesis .
qed

text \<open>The replay loop, one step per height.\<close>

primrec replay_steps ::
  "'e entry_cmp \<Rightarrow> 'e option list \<Rightarrow> nat \<Rightarrow> nat \<Rightarrow> nat list \<Rightarrow> nat \<Rightarrow> nat \<times> nat list" where
  "replay_steps c ls K l t 0 = (l, t)"
| "replay_steps c ls K l t (Suc k) =
     (let (w, t') = replay_steps c ls K l t k; n = node_at K (Suc k) (l div 2 ^ Suc k)
      in if cmp_indices c ls (t' ! n) w = Less then (t' ! n, t'[n := w]) else (w, t'))"

lemma node_div: "k \<le> K \<Longrightarrow> ((2::nat) ^ K + l) div 2 ^ k = node_at K k (l div 2 ^ k)"
proof -
  assume "k \<le> K"
  then have "(2::nat) ^ K = 2 ^ (K - k) * 2 ^ k" by (simp flip: power_add)
  then show ?thesis by simp
qed

lemma replay_loop_step:
  "0 < n \<Longrightarrow> replay_loop c ls n w t =
     (if cmp_indices c ls (t ! n) w = Less then replay_loop c ls (n div 2) (t ! n) (t[n := w])
      else replay_loop c ls (n div 2) w t)"
  by (simp add: replay_loop.simps [of c ls n w t] Let_def)

lemma replay_loop_steps:
  assumes "l < 2 ^ K" "k \<le> K"
  shows "replay_loop c ls ((2 ^ K + l) div 2 ^ Suc k) (fst (replay_steps c ls K l t k))
      (snd (replay_steps c ls K l t k)) = replay_steps c ls K l t K"
  using assms(2)
proof (induction "K - k" arbitrary: k)
  case 0
  then have "(2 ^ K + l) div 2 ^ Suc k = 0" using assms(1) by simp
  then show ?case using 0 by (simp add: replay_loop.simps [of _ _ 0])
next
  case (Suc m)
  then have k: "Suc k \<le> K" "m = K - Suc k" by auto
  let ?n = "node_at K (Suc k) (l div 2 ^ Suc k)"
  obtain w t' where s: "replay_steps c ls K l t k = (w, t')" by (rule prod.exhaust)
  have half: "?n div 2 = (2 ^ K + l) div 2 ^ Suc (Suc k)"
    using node_div [OF k(1), of l] by (metis div_mult2_eq power_Suc2)
  have "replay_loop c ls ?n w t' = replay_loop c ls (?n div 2) (fst (replay_steps c ls K l t (Suc k)))
      (snd (replay_steps c ls K l t (Suc k)))"
    unfolding replay_steps.simps s by (subst replay_loop_step) (simp_all add: Let_def)
  then show ?case using Suc.hyps(1) [OF k(2,1)] unfolding half s node_div [OF k(1)] by simp
qed

text \<open>The tournament over the whole array: what every operation keeps.\<close>

definition lt_ok :: "'e entry_cmp \<Rightarrow> 'e loser_tree \<Rightarrow> bool" where
  "lt_ok c q \<longleftrightarrow>
     (\<exists>K. length (lt_leaves q) = 2 ^ K \<and> length (lt_tree q) = 2 ^ K \<and> 0 < K \<and>
          game c K (lt_leaves q) (lt_tree q) K 0 (lt_tree q ! 0)) \<and>
     lt_active q = length (filter (\<lambda>x. x \<noteq> None) (lt_leaves q)) \<and>
     lt_n_sources q \<le> length (lt_leaves q)"

text \<open>The shape alone, which \<open>clear\<close> keeps while the recorded games are stale.\<close>

definition lt_shape :: "'e loser_tree \<Rightarrow> bool" where
  "lt_shape q \<longleftrightarrow>
     (\<exists>K. length (lt_leaves q) = 2 ^ K \<and> length (lt_tree q) = 2 ^ K \<and> 0 < K) \<and>
     lt_n_sources q \<le> length (lt_leaves q)"

text \<open>What the tree asks of the entries' comparator: a total preorder.\<close>

locale entry_order =
  fixes ecmp :: "'e entry_cmp"
  assumes ecmp_sym: "ecmp x y = Greater \<longleftrightarrow> ecmp y x = Less"
    and ecmp_trans: "ecmp x y \<noteq> Greater \<Longrightarrow> ecmp y z \<noteq> Greater \<Longrightarrow> ecmp x z \<noteq> Greater"
begin

lemma ecmp_refl: "ecmp x x \<noteq> Greater"
  using ecmp_sym [of x x] by auto

lemma idx_refl: "cmp_indices ecmp ls i i \<noteq> Greater"
  by (simp add: cmp_indices_def ecmp_refl split: option.splits)

lemma idx_total: "cmp_indices ecmp ls i j \<noteq> Less \<Longrightarrow> cmp_indices ecmp ls j i \<noteq> Greater"
  using ecmp_sym by (auto simp: cmp_indices_def split: option.splits)

lemma idx_trans:
  "cmp_indices ecmp ls i j \<noteq> Greater \<Longrightarrow> cmp_indices ecmp ls j k \<noteq> Greater \<Longrightarrow>
   cmp_indices ecmp ls i k \<noteq> Greater"
  by (cases "ls ! i"; cases "ls ! j"; cases "ls ! k") (auto simp: cmp_indices_def dest: ecmp_trans)

lemma idx_sym: "cmp_indices ecmp ls i j = Greater \<longleftrightarrow> cmp_indices ecmp ls j i = Less"
  using ecmp_sym by (auto simp: cmp_indices_def split: option.splits)

lemma game_min:
  "game ecmp K ls t k b w \<Longrightarrow> i div 2 ^ k = b \<Longrightarrow> cmp_indices ecmp ls w i \<noteq> Greater"
proof (induction k arbitrary: b w)
  case 0
  then show ?case by (simp add: idx_refl)
next
  case (Suc k)
  obtain wl wr where w: "game ecmp K ls t k (2 * b) wl" "game ecmp K ls t k (2 * b + 1) wr"
    "w = wl \<and> t ! node_at K (Suc k) b = wr \<or> w = wr \<and> t ! node_at K (Suc k) b = wl"
    "cmp_indices ecmp ls w (t ! node_at K (Suc k) b) \<noteq> Greater"
    using Suc.prems(1) by (simp only: game.simps) blast
  then have le: "cmp_indices ecmp ls w wl \<noteq> Greater" "cmp_indices ecmp ls w wr \<noteq> Greater"
    using idx_refl by metis+
  from Suc.prems(2) consider "i div 2 ^ k = 2 * b" | "i div 2 ^ k = 2 * b + 1"
    using half_block by blast
  then show ?case
  proof cases
    case 1
    then show ?thesis using Suc.IH [OF w(1)] le(1) idx_trans by blast
  next
    case 2
    then show ?thesis using Suc.IH [OF w(2)] le(2) idx_trans by blast
  qed
qed

lemma build_subtree_game:
  "k \<le> K \<Longrightarrow> b < 2 ^ (K - k) \<Longrightarrow> length t = 2 ^ K \<Longrightarrow> 0 < K \<Longrightarrow>
   build_subtree ecmp ls (node_at K k b) (b * 2 ^ k) ((b + 1) * 2 ^ k) t = (w, t') \<Longrightarrow>
   game ecmp K ls t' k b w \<and> length t' = 2 ^ K \<and> (k = K \<longrightarrow> t' ! 0 = w) \<and>
   (\<forall>n. 0 < n \<longrightarrow> \<not> below K k b n \<longrightarrow> t' ! n = t ! n)"
proof (induction k arbitrary: b t w t')
  case 0
  then show ?case by (simp add: build_subtree.simps)
next
  case (Suc k)
  let ?n = "node_at K (Suc k) b"
  have pw: "(2::nat) ^ (K - k) = 2 * 2 ^ (K - Suc k)"
    using Suc.prems(1) by (simp add: Suc_diff_Suc flip: power_Suc)
  have child: "2 * ?n = node_at K k (2 * b)" "2 * ?n + 1 = node_at K k (2 * b + 1)" by (simp_all add: pw)
  have mid: "(b * 2 ^ Suc k + (b + 1) * 2 ^ Suc k) div 2 = (2 * b + 1) * 2 ^ k" by (simp add: algebra_simps)
  have ends: "b * 2 ^ Suc k = (2 * b) * 2 ^ k" "(b + 1) * 2 ^ Suc k = (2 * b + 1 + 1) * 2 ^ k"
    by (simp_all add: algebra_simps)
  obtain lw t1 where l: "build_subtree ecmp ls (2 * ?n) (b * 2 ^ Suc k) ((2 * b + 1) * 2 ^ k) t = (lw, t1)"
    by (rule prod.exhaust)
  obtain rw t2 where r: "build_subtree ecmp ls (2 * ?n + 1) ((2 * b + 1) * 2 ^ k) ((b + 1) * 2 ^ Suc k) t1 = (rw, t2)"
    by (rule prod.exhaust)
  note L = Suc.IH [OF _ _ Suc.prems(3,4) l [unfolded child(1) ends]]
  have bl: "2 * b < 2 ^ (K - k)" "2 * b + 1 < 2 ^ (K - k)" "k \<le> K" using Suc.prems(1,2) pw by auto
  note L = L [OF bl(3,1)]
  note R = Suc.IH [OF bl(3,2) _ Suc.prems(4) r [unfolded child(2) ends]]
  note R = R [OF conjunct1 [OF conjunct2 [OF L]]]
  define ws where "ws = (if cmp_indices ecmp ls lw rw \<noteq> Greater then (lw, rw) else (rw, lw))"
  have "(b + 1) * 2 ^ Suc k - b * 2 ^ Suc k = 2 * 2 ^ k" by (simp add: algebra_simps)
  moreover have "\<not> 2 * p \<le> 1" if "1 \<le> p" for p :: nat using that by linarith
  ultimately have big: "\<not> ((b + 1) * 2 ^ Suc k - b * 2 ^ Suc k \<le> 1)"
    using one_le_power [of "2::nat" k] by (simp only: one_le_numeral not_False_eq_True)
  have res: "w = fst ws" "t' = (if ?n = 1 then t2[?n := snd ws, 0 := fst ws] else t2[?n := snd ws])"
    using build_subtree_step [OF big mid l r ws_def] Suc.prems(5) by auto
  have lens: "length t1 = 2 ^ K" "length t2 = 2 ^ K" using L R by auto
  have tn: "t' ! n = t2 ! n" if "n \<noteq> ?n" "0 < n" for n using res(2) that by simp
  have "?n < 2 ^ (K - k)" using pw Suc.prems(2) by simp
  also have "(2::nat) ^ (K - k) \<le> 2 ^ K" by (intro power_increasing) auto
  finally have top: "t' ! ?n = snd ws" using res(2) lens(2) by simp
  have gl: "game ecmp K ls t' k (2 * b) lw"
  proof (rule game_cong [THEN iffD2, OF _ _ conjunct1 [OF L]])
    fix n assume n: "below K k (2 * b) n"
    have "n \<noteq> ?n" using n not_below_top [OF bl(1) Suc.prems(2,1)] by blast
    moreover have "\<not> below K k (2 * b + 1) n" using below_disjoint [OF n _ bl(1,2,3)] by auto
    ultimately show "t' ! n = t1 ! n" using tn R below_pos [OF n] by simp
  qed simp
  have gr: "game ecmp K ls t' k (2 * b + 1) rw"
  proof (rule game_cong [THEN iffD2, OF _ _ conjunct1 [OF R]])
    fix n assume n: "below K k (2 * b + 1) n"
    then have "n \<noteq> ?n" using not_below_top [OF bl(2) Suc.prems(2,1)] by blast
    then show "t' ! n = t2 ! n" using tn below_pos [OF n] by simp
  qed simp
  have "cmp_indices ecmp ls w (t' ! ?n) \<noteq> Greater"
    unfolding top res(1) ws_def using idx_sym [of ls lw rw] by auto
  then have g: "game ecmp K ls t' (Suc k) b w"
    unfolding game.simps using gl gr top res(1) ws_def by (intro exI [of _ lw] exI [of _ rw]) auto
  have "t' ! n = t ! n" if "0 < n" "\<not> below K (Suc k) b n" for n
  proof -
    have "n \<noteq> ?n" using that below_top by blast
    then have "t' ! n = t2 ! n" using tn that by blast
    then show ?thesis using L R that below_child by metis
  qed
  moreover have "t' ! 0 = w" if "Suc k = K"
    using that Suc.prems(2) res lens by simp
  ultimately show ?case using g res lens by auto
qed

text \<open>
  Replaying from leaf \<open>l\<close> repairs the games above it, provided \<open>l\<close> won them before its value
  changed: the cells on its path then hold the winners of the sibling blocks.
\<close>

lemma replay_steps_game:
  "game ecmp K ls t k (l div 2 ^ k) l \<Longrightarrow> l < 2 ^ K \<Longrightarrow> k \<le> K \<Longrightarrow> length t = 2 ^ K \<Longrightarrow>
   (\<And>i. i \<noteq> l \<Longrightarrow> ls' ! i = ls ! i) \<Longrightarrow> replay_steps ecmp ls' K l t k = (w, t') \<Longrightarrow>
   game ecmp K ls' t' k (l div 2 ^ k) w \<and> length t' = 2 ^ K \<and>
   (\<forall>n. \<not> below K k (l div 2 ^ k) n \<longrightarrow> t' ! n = t ! n)"
proof (induction k arbitrary: w t')
  case 0
  then show ?case by simp
next
  case (Suc k)
  let ?B = "l div 2 ^ Suc k" and ?b = "l div 2 ^ k" and ?n = "node_at K (Suc k) (l div 2 ^ Suc k)"
  obtain b' where sib: "siblings ?B ?b b'" and g: "game ecmp K ls t k ?b l"
    "game ecmp K ls t k b' (t ! ?n)"
    using game_split [OF Suc.prems(1)] by blast
  obtain w1 t1 where s: "replay_steps ecmp ls' K l t k = (w1, t1)" by (rule prod.exhaust)
  have bnd: "k \<le> K" "?B < 2 ^ (K - Suc k)" "?b < 2 ^ (K - k)" "b' < 2 ^ (K - k)" "b' \<noteq> ?b"
    using Suc.prems(3) block_bound [OF Suc.prems(2), of k] block_bound [OF Suc.prems(2,3)]
      siblings_bound [OF sib Suc.prems(3) block_bound [OF Suc.prems(2,3)]] by simp_all
  note IH = Suc.IH [OF g(1) Suc.prems(2) bnd(1) Suc.prems(4,5) s]
  have t1n: "t1 ! ?n = t ! ?n" using IH not_below_top [OF bnd(3,2) Suc.prems(3)] by blast
  have g': "game ecmp K ls' t1 k b' (t ! ?n)"
  proof (rule game_cong [THEN iffD2, OF _ _ g(2)])
    show "t1 ! n = t ! n" if "below K k b' n" for n
      using IH below_disjoint [OF that _ bnd(4,3,1)] bnd(5) by blast
    show "ls' ! i = ls ! i" if "i div 2 ^ k = b'" for i using Suc.prems(5) [of i] that bnd(5) by metis
  qed
  have n_len: "?n < 2 ^ K" using node_at_less Suc.prems(3) bnd(2) by simp
  have outside: "n \<noteq> ?n \<and> \<not> below K k ?b n" if "\<not> below K (Suc k) ?B n" for n
    using that below_top below_child sib unfolding siblings_def by metis
  show ?case
  proof (cases "cmp_indices ecmp ls' (t ! ?n) w1 = Less")
    case True
    then have r: "w = t ! ?n" "t' = t1[?n := w1]" using Suc.prems(6) s t1n by (auto simp: Let_def)
    have keep: "game ecmp K ls' t' k b2 x \<longleftrightarrow> game ecmp K ls' t1 k b2 x" if "b2 < 2 ^ (K - k)" for b2 x
      using not_below_top [OF that bnd(2) Suc.prems(3)] unfolding r(2)
      by (intro game_cong) (metis nth_list_update_neq, simp)
    have "game ecmp K ls' t' (Suc k) ?B w"
      using True IH n_len r keep bnd(3,4) g' idx_sym [of ls' w w1]
      by (intro game_join [OF sib, of _ _ _ _ _ w1 "t ! ?n"]) auto
    moreover have "t' ! n = t ! n" if "\<not> below K (Suc k) ?B n" for n
      using outside [OF that] IH r by simp
    ultimately show ?thesis using IH r by simp
  next
    case False
    then have r: "w = w1" "t' = t1" using Suc.prems(6) s t1n by (auto simp: Let_def)
    have "game ecmp K ls' t' (Suc k) ?B w"
      using IH r g' t1n idx_total [OF False]
      by (intro game_join [OF sib, of _ _ _ _ _ w1 "t ! ?n"]) auto
    moreover have "t' ! n = t ! n" if "\<not> below K (Suc k) ?B n" for n
      using outside [OF that] IH r by simp
    ultimately show ?thesis using IH r by simp
  qed
qed

lemma lt_okE:
  assumes "lt_ok ecmp q"
  obtains K where "length (lt_leaves q) = 2 ^ K" "length (lt_tree q) = 2 ^ K" "0 < K"
    "game ecmp K (lt_leaves q) (lt_tree q) K 0 (lt_tree q ! 0)"
    "lt_active q = length (filter (\<lambda>x. x \<noteq> None) (lt_leaves q))"
    "lt_n_sources q \<le> length (lt_leaves q)"
  using assms unfolding lt_ok_def by blast

lemma lt_ok_build:
  assumes "length ls = 2 ^ K" "length t = 2 ^ K" "0 < K" "n \<le> length ls"
    "act = length (filter (\<lambda>x. x \<noteq> None) ls)"
  shows "lt_ok ecmp \<lparr>lt_leaves = ls, lt_tree = snd (build_subtree ecmp ls 1 0 (length ls) t),
    lt_n_sources = n, lt_active = act\<rparr>"
proof -
  obtain w t' where b: "build_subtree ecmp ls 1 0 (length ls) t = (w, t')" by (rule prod.exhaust)
  have "game ecmp K ls t' K 0 w \<and> length t' = 2 ^ K \<and> t' ! 0 = w"
    using build_subtree_game [of K K 0 t ls w t'] assms b by simp
  then show ?thesis unfolding lt_ok_def using assms b by auto
qed

text \<open>The winner is the least present leaf, and there is one unless every leaf is absent.\<close>

lemma winner_none: "lt_ok ecmp q \<Longrightarrow> winner_slot q = None \<longleftrightarrow> (\<forall>i. peek_slot q i = None)"
proof -
  assume "lt_ok ecmp q"
  then have "winner_slot q = None \<longleftrightarrow> (\<forall>i<length (lt_leaves q). lt_leaves q ! i = None)"
    by (simp add: lt_ok_def winner_slot_def lt_is_empty_def filter_empty_conv all_set_conv_all_nth)
  then show ?thesis unfolding peek_slot_def by (metis linorder_not_less)
qed

lemma winner_least:
  assumes ok: "lt_ok ecmp q" and w: "winner_slot q = Some i"
  obtains e where "peek_slot q i = Some e" "i < length (lt_leaves q)"
    "\<And>j e'. peek_slot q j = Some e' \<Longrightarrow> ecmp e e' \<noteq> Greater"
proof -
  obtain K where K: "length (lt_leaves q) = 2 ^ K" "game ecmp K (lt_leaves q) (lt_tree q) K 0 (lt_tree q ! 0)"
    using lt_okE [OF ok] by blast
  have i: "i = lt_tree q ! 0" using w by (simp add: winner_slot_def split: if_splits)
  have len: "i < length (lt_leaves q)" using game_range [OF K(2)] K(1) i by (simp add: div_eq_0_iff)
  have le: "cmp_indices ecmp (lt_leaves q) i j \<noteq> Greater" if "j < length (lt_leaves q)" for j
    using game_min [OF K(2), of j] that K(1) i by simp
  obtain j0 e0 where "peek_slot q j0 = Some e0" using winner_none [OF ok] w by auto
  then have j0: "j0 < length (lt_leaves q)" "lt_leaves q ! j0 = Some e0"
    by (auto simp: peek_slot_def split: if_splits)
  then obtain e where e: "lt_leaves q ! i = Some e"
    using le [OF j0(1)] by (cases "lt_leaves q ! i") (auto simp: cmp_indices_def)
  have "ecmp e e' \<noteq> Greater" if "peek_slot q j = Some e'" for j e'
    using le [of j] that e by (auto simp: peek_slot_def cmp_indices_def split: if_splits)
  then show thesis using that e len by (simp add: peek_slot_def)
qed

lemma replay_ok:
  assumes ok: "lt_ok ecmp q" and w: "winner_slot q = Some i"
    and act: "act = length (filter (\<lambda>x. x \<noteq> None) ((lt_leaves q)[i := v]))"
  shows "lt_ok ecmp (replay ecmp i (q\<lparr>lt_leaves := (lt_leaves q)[i := v], lt_active := act\<rparr>))"
proof -
  obtain K where K: "length (lt_leaves q) = 2 ^ K" "length (lt_tree q) = 2 ^ K" "0 < K"
    "game ecmp K (lt_leaves q) (lt_tree q) K 0 (lt_tree q ! 0)" "lt_n_sources q \<le> length (lt_leaves q)"
    using lt_okE [OF ok] by blast
  have i: "lt_tree q ! 0 = i" using w by (simp add: winner_slot_def split: if_splits)
  have len: "i < 2 ^ K" using game_range [OF K(4)] i by (simp add: div_eq_0_iff)
  let ?ls = "(lt_leaves q)[i := v]"
  obtain w' t' where s: "replay_steps ecmp ?ls K i (lt_tree q) K = (w', t')" by (rule prod.exhaust)
  have loop: "replay_loop ecmp ?ls ((2 ^ K + i) div 2) i (lt_tree q) = (w', t')"
    using replay_loop_steps [OF len, of 0 ecmp ?ls "lt_tree q"] s by simp
  have g: "game ecmp K ?ls t' K 0 w' \<and> length t' = 2 ^ K"
    using replay_steps_game [of K "lt_leaves q" "lt_tree q" K i ?ls w' t'] K(2,4) i len s by auto
  have "game ecmp K ?ls (t'[0 := w']) K 0 w'"
    by (rule game_cong [THEN iffD2, OF _ _ conjunct1 [OF g]]) (auto dest: below_pos)
  then show ?thesis using loop g K(1,3,5) act by (auto simp: lt_ok_def replay_def)
qed

lemma count_update:
  assumes "i < length ls" "ls ! i = Some e"
  shows "length (filter (\<lambda>x. x \<noteq> None) (ls[i := Some v])) = length (filter (\<lambda>x. x \<noteq> None) ls)"
    and "length (filter (\<lambda>x. x \<noteq> None) (ls[i := None])) = length (filter (\<lambda>x. x \<noteq> None) ls) - 1"
proof -
  have "ls = take i ls @ Some e # drop (Suc i) ls" using assms by (metis id_take_nth_drop)
  then obtain xs ys where "ls = xs @ Some e # ys" "i = length xs"
    using assms(1) by (metis length_take less_imp_le min.absorb2)
  then show "length (filter (\<lambda>x. x \<noteq> None) (ls[i := Some v])) = length (filter (\<lambda>x. x \<noteq> None) ls)"
    "length (filter (\<lambda>x. x \<noteq> None) (ls[i := None])) = length (filter (\<lambda>x. x \<noteq> None) ls) - 1"
    by (simp_all add: list_update_append)
qed

lemma replay_frame [simp]:
  "lt_leaves (replay ecmp i q) = lt_leaves q" "lt_n_sources (replay ecmp i q) = lt_n_sources q"
  "lt_active (replay ecmp i q) = lt_active q"
  by (simp_all add: replay_def split: prod.splits)

lemma replace_min_law:
  assumes ok: "lt_ok ecmp q" and w: "winner_slot q = Some i"
  obtains old q' where "lt_replace_min ecmp v q = Some (old, q')" "peek_slot q i = Some old" "lt_ok ecmp q'"
    "\<And>j. peek_slot q' j = (if j = i then Some v else peek_slot q j)" "lt_n_sources q' = lt_n_sources q"
proof -
  obtain e where e: "peek_slot q i = Some e" "i < length (lt_leaves q)" by (rule winner_least [OF ok w])
  then have le: "lt_leaves q ! i = Some e" by (simp add: peek_slot_def)
  let ?q = "q\<lparr>lt_leaves := (lt_leaves q)[i := Some v]\<rparr>"
  have "lt_active q = length (filter (\<lambda>x. x \<noteq> None) ((lt_leaves q)[i := Some v]))"
    unfolding count_update(1) [OF e(2) le] using ok by (simp add: lt_ok_def)
  note ok' = replay_ok [OF ok w this]
  have "q\<lparr>lt_leaves := (lt_leaves q)[i := Some v], lt_active := lt_active q\<rparr> = ?q" by (cases q) simp
  with ok' have "lt_ok ecmp (replay ecmp i ?q)" by (simp only:)
  note ok' = this
  have eq: "lt_replace_min ecmp v q = Some (e, replay ecmp i ?q)" using w le by (simp add: lt_replace_min_def)
  have "peek_slot (replay ecmp i ?q) j = (if j = i then Some v else peek_slot q j)" for j
    using e(2) by (simp add: peek_slot_def)
  from that [OF eq e(1) ok' this] show thesis by simp
qed

lemma pop_min_law:
  assumes ok: "lt_ok ecmp q" and w: "winner_slot q = Some i"
  obtains old q' where "lt_pop_min ecmp q = Some (Some old, q')" "peek_slot q i = Some old" "lt_ok ecmp q'"
    "\<And>j. peek_slot q' j = (if j = i then None else peek_slot q j)" "lt_n_sources q' = lt_n_sources q"
proof -
  obtain e where e: "peek_slot q i = Some e" "i < length (lt_leaves q)" by (rule winner_least [OF ok w])
  then have le: "lt_leaves q ! i = Some e" by (simp add: peek_slot_def)
  let ?q = "q\<lparr>lt_leaves := (lt_leaves q)[i := None], lt_active := lt_active q - 1\<rparr>"
  have "lt_active q - 1 = length (filter (\<lambda>x. x \<noteq> None) ((lt_leaves q)[i := None]))"
    unfolding count_update(2) [OF e(2) le] using ok by (simp add: lt_ok_def)
  from replay_ok [OF ok w this] have "lt_ok ecmp (replay ecmp i ?q)" by simp
  then show thesis using that [of e "replay ecmp i ?q"] w le e
    by (simp add: lt_pop_min_def peek_slot_def)
qed

lemma build_law:
  "lt_ok ecmp (lt_build ecmp initial)" "lt_n_sources (lt_build ecmp initial) = length initial"
  "peek_slot (lt_build ecmp initial) i = (if i < length initial then initial ! i else None)"
proof -
  let ?n = "length initial"
  obtain K where K: "max (next_power_of_two ?n) 2 = 2 ^ K" "0 < K" "?n \<le> 2 ^ K"
    using capacity_power by blast
  let ?ls = "initial @ replicate (2 ^ K - ?n) None"
  have len: "length ?ls = 2 ^ K" using K(3) by simp
  have "lt_build ecmp initial = \<lparr>lt_leaves = ?ls,
      lt_tree = snd (build_subtree ecmp ?ls 1 0 (length ?ls) (replicate (2 ^ K) 0)),
      lt_n_sources = ?n, lt_active = length (filter (\<lambda>x. x \<noteq> None) initial)\<rparr>"
    unfolding lt_build_def Let_def K(1) len ..
  moreover note lt_ok_build [OF len length_replicate K(2), of ?n "length (filter (\<lambda>x. x \<noteq> None) initial)"]
  ultimately show "lt_ok ecmp (lt_build ecmp initial)" "lt_n_sources (lt_build ecmp initial) = ?n"
    "peek_slot (lt_build ecmp initial) i = (if i < ?n then initial ! i else None)"
    by (simp_all add: peek_slot_def nth_append)
qed

lemma refill_law:
  assumes shape: "lt_shape q" and pull: "pull_slots pull [0..<lt_n_sources q] s = (vs, s')"
  obtains q' where "refill_with ecmp pull s q = (q', s')" "lt_ok ecmp q'" "lt_n_sources q' = lt_n_sources q"
    "\<And>i. peek_slot q' i = (if i < lt_n_sources q then vs ! i else None)"
proof -
  let ?n = "lt_n_sources q"
  let ?ls = "vs @ replicate (length (lt_leaves q) - ?n) None"
  obtain K where K: "length (lt_leaves q) = 2 ^ K" "length (lt_tree q) = 2 ^ K" "0 < K" "?n \<le> 2 ^ K"
    using shape unfolding lt_shape_def by auto
  have len: "length vs = ?n" using length_pull_slots [of pull "[0..<?n]" s] pull by simp
  have "refill_loop pull [0..<?n] s (lt_clear q) =
      ((lt_clear q)\<lparr>lt_leaves := take 0 (lt_leaves (lt_clear q)) @ vs @ drop ?n (lt_leaves (lt_clear q)),
        lt_active := lt_active (lt_clear q) + length (filter (\<lambda>x. x \<noteq> None) vs)\<rparr>, s')"
    by (rule refill_loop_law) (use pull K in \<open>auto simp: lt_clear_def\<close>)
  also have "\<dots> = (q\<lparr>lt_leaves := ?ls, lt_active := length (filter (\<lambda>x. x \<noteq> None) vs)\<rparr>, s')"
    by (simp add: lt_clear_def)
  finally have eq: "refill_with ecmp pull s q =
      (\<lparr>lt_leaves = ?ls, lt_tree = snd (build_subtree ecmp ?ls 1 0 (length ?ls) (lt_tree q)),
        lt_n_sources = ?n, lt_active = length (filter (\<lambda>x. x \<noteq> None) vs)\<rparr>, s')" (is "_ = (?q', s')")
    by (cases q) (simp add: refill_with_def)
  have "length ?ls = 2 ^ K" using len K by simp
  from lt_ok_build [OF this K(2,3), of ?n "length (filter (\<lambda>x. x \<noteq> None) vs)"] have "lt_ok ecmp ?q'"
    using len by simp
  moreover have "peek_slot ?q' i = (if i < ?n then vs ! i else None)" for i
    using len by (simp add: peek_slot_def nth_append)
  ultimately show thesis using that [OF eq] by simp
qed

lemma lt_ok_shape: "lt_ok ecmp q \<Longrightarrow> lt_shape q"
  unfolding lt_ok_def lt_shape_def by blast

end

lemma lt_clear_shape: "lt_shape q \<Longrightarrow> lt_shape (lt_clear q)"
  by (simp add: lt_shape_def lt_clear_def)

text \<open>
  No operation changes the shape of a tree, even one whose games are inconsistent. \<open>same_shape\<close>
  is that a tree has the array lengths and the number of sources of another.
\<close>

definition same_shape :: "'e loser_tree \<Rightarrow> 'e loser_tree \<Rightarrow> bool" where
  "same_shape q q' \<longleftrightarrow> length (lt_leaves q') = length (lt_leaves q) \<and>
     length (lt_tree q') = length (lt_tree q) \<and> lt_n_sources q' = lt_n_sources q"

lemma same_shapeD:
  "same_shape q q' \<Longrightarrow> lt_shape q \<Longrightarrow> lt_shape q'"
  "same_shape q q' \<Longrightarrow> lt_n_sources q' = lt_n_sources q"
  unfolding same_shape_def lt_shape_def by metis+

lemma length_replay_loop: "length (snd (replay_loop c ls n w t)) = length t"
proof (induction c ls n w t rule: replay_loop.induct)
  case (1 c ls n w t)
  show ?case
  proof (cases "n = 0")
    case True
    then show ?thesis by (simp add: replay_loop.simps [of c ls 0 w t])
  next
    case False
    then show ?thesis using 1 by (simp add: replay_loop_step)
  qed
qed

lemma length_build_subtree: "length (snd (build_subtree c ls node lo hi t)) = length t"
proof (induction c ls node lo hi t rule: build_subtree.induct)
  case (1 c ls node lo hi t)
  show ?case
  proof (cases "hi - lo \<le> 1")
    case True
    then show ?thesis by (simp add: build_subtree.simps [of c ls node lo hi t])
  next
    case False
    obtain lw t1 where l: "build_subtree c ls (2 * node) lo ((lo + hi) div 2) t = (lw, t1)" by (rule prod.exhaust)
    obtain rw t2 where r: "build_subtree c ls (2 * node + 1) ((lo + hi) div 2) hi t1 = (rw, t2)" by (rule prod.exhaust)
    have "length t1 = length t" "length t2 = length t1" using 1(1) [OF False refl] 1(2) [OF False refl l [symmetric] refl] l r by auto
    then show ?thesis unfolding build_subtree_step [OF False refl l r refl] by simp
  qed
qed

lemma replay_shape: "same_shape q (replay c i q)"
  using length_replay_loop [of c "lt_leaves q" "(length (lt_leaves q) + i) div 2" i "lt_tree q"]
  by (auto simp: same_shape_def replay_def split: prod.splits)

lemma same_shape_intros:
  "same_shape q q"
  "same_shape q (replay c i (q\<lparr>lt_leaves := (lt_leaves q)[j := v], lt_active := a\<rparr>))"
  "same_shape q (replay c i (q\<lparr>lt_leaves := (lt_leaves q)[j := v]\<rparr>))"
  using replay_shape [of "q\<lparr>lt_leaves := (lt_leaves q)[j := v], lt_active := a\<rparr>" c i]
    replay_shape [of "q\<lparr>lt_leaves := (lt_leaves q)[j := v]\<rparr>" c i]
  by (simp_all add: same_shape_def)

lemma replace_min_shape: "lt_replace_min c v q = Some (old, q') \<Longrightarrow> same_shape q q'"
  by (auto simp: lt_replace_min_def split: option.splits intro: same_shape_intros)

lemma pop_min_shape: "lt_pop_min c q = Some (old, q') \<Longrightarrow> same_shape q q'"
  by (auto simp: lt_pop_min_def split: option.splits intro: same_shape_intros)

lemma take_slot_shape: "take_slot c i q = (v, q') \<Longrightarrow> same_shape q q'"
  by (auto simp: take_slot_def split: option.splits if_splits intro: same_shape_intros)

lemma refill_loop_shape:
  "refill_loop pull slots s q = (q', s') \<Longrightarrow> same_shape q q' \<and> s' = snd (pull_slots pull slots s)"
proof (induction slots arbitrary: s q)
  case (Cons slot slots)
  then show ?case
    by (fastforce simp: Let_def case_prod_beta same_shape_def split: option.splits prod.splits)
qed (auto simp: same_shape_def)

lemma refill_with_shape:
  assumes "refill_with c pull s q = (q', s')"
  shows "same_shape q q' \<and> s' = snd (pull_slots pull [0..<lt_n_sources q] s)"
proof -
  obtain q1 s1 where r: "refill_loop pull [0..<lt_n_sources q] s (lt_clear q) = (q1, s1)" by (rule prod.exhaust)
  from refill_loop_shape [OF r] assms r show ?thesis
    by (auto simp: refill_with_def same_shape_def lt_clear_def length_build_subtree)
qed

subsection \<open>Reachable trees\<close>

text \<open>
  The trees a client can build with the operations, taking a single slot only when it is the winner.
  A stateful \<open>pull\<close> gives \<open>refill_with\<close> some value \<open>f i\<close> for each slot \<open>i\<close>.
\<close>

inductive lt_reach :: "'e entry_cmp \<Rightarrow> 'e loser_tree \<Rightarrow> bool" for c where
  reach_build: "lt_reach c (lt_build c initial)"
| reach_replace: "lt_reach c q \<Longrightarrow> lt_replace_min c v q = Some (old, q') \<Longrightarrow> lt_reach c q'"
| reach_pop: "lt_reach c q \<Longrightarrow> lt_pop_min c q = Some (r, q') \<Longrightarrow> lt_reach c q'"
| reach_take: "lt_reach c q \<Longrightarrow> winner_slot q = Some i \<Longrightarrow> lt_reach c (snd (take_slot c i q))"
| reach_refill: "lt_reach c q \<Longrightarrow> lt_reach c (fst (refill_with c (\<lambda>i s. (f i, s)) () q))"

context entry_order begin

lemma take_winner_pop:
  assumes "lt_ok ecmp q" "winner_slot q = Some i"
  shows "\<exists>e. lt_pop_min ecmp q = Some (Some e, snd (take_slot ecmp i q))"
proof -
  obtain e where "peek_slot q i = Some e" "i < length (lt_leaves q)" by (rule winner_least [OF assms])
  then show ?thesis using assms(2) by (simp add: lt_pop_min_def take_slot_def peek_slot_def)
qed

lemma pop_min_ok: "lt_ok ecmp q \<Longrightarrow> lt_pop_min ecmp q = Some (r, q') \<Longrightarrow> lt_ok ecmp q'"
proof (cases "winner_slot q")
  case (Some i)
  assume ok: "lt_ok ecmp q" and pop: "lt_pop_min ecmp q = Some (r, q')"
  obtain old q1 where "lt_pop_min ecmp q = Some (Some old, q1)" "lt_ok ecmp q1"
    by (rule pop_min_law [OF ok Some]) blast
  with pop show ?thesis by simp
qed (simp add: lt_pop_min_def)

lemma replace_min_ok: "lt_ok ecmp q \<Longrightarrow> lt_replace_min ecmp v q = Some (r, q') \<Longrightarrow> lt_ok ecmp q'"
proof (cases "winner_slot q")
  case (Some i)
  assume ok: "lt_ok ecmp q" and repl: "lt_replace_min ecmp v q = Some (r, q')"
  obtain old q1 where "lt_replace_min ecmp v q = Some (old, q1)" "lt_ok ecmp q1"
    by (rule replace_min_law [OF ok Some]) blast
  with repl show ?thesis by simp
qed (simp add: lt_replace_min_def)

lemma reach_ok: "lt_reach ecmp q \<Longrightarrow> lt_ok ecmp q"
proof (induction rule: lt_reach.induct)
  case (reach_take q i)
  then show ?case using take_winner_pop pop_min_ok by blast
next
  case (reach_refill q f)
  obtain vs where "pull_slots (\<lambda>i s. (f i, s)) [0..<lt_n_sources q] () = (vs, ())" by (metis prod.exhaust unit.exhaust)
  then obtain q' where "refill_with ecmp (\<lambda>i s. (f i, s)) () q = (q', ())" "lt_ok ecmp q'"
    by (rule refill_law [OF lt_ok_shape [OF reach_refill.IH]])
  then show ?case by simp
qed (auto intro: build_law(1) replace_min_ok pop_min_ok)

lemma pop_min_spec:
  assumes ok: "lt_ok ecmp q"
  shows "case lt_pop_min ecmp q of
      None \<Rightarrow> False
    | Some (None, q') \<Rightarrow> q' = q \<and> (\<forall>l\<in>set (lt_leaves q). l = None)
    | Some (Some e, q') \<Rightarrow> lt_peek_min q = Some e \<and> (\<forall>x. Some x \<in> set (lt_leaves q) \<longrightarrow> ecmp e x \<noteq> Greater) \<and>
        (\<exists>i<length (lt_leaves q). lt_leaves q ! i = Some e \<and> lt_leaves q' = (lt_leaves q)[i := None])"
proof (cases "winner_slot q")
  case None
  then have "\<forall>i. peek_slot q i = None" using winner_none [OF ok] by simp
  then have "l = None" if "l \<in> set (lt_leaves q)" for l
    using that unfolding in_set_conv_nth peek_slot_def by (metis linorder_not_less)
  with None show ?thesis by (simp add: lt_pop_min_def)
next
  case (Some i)
  obtain e where e: "peek_slot q i = Some e" "i < length (lt_leaves q)"
    "\<And>j e'. peek_slot q j = Some e' \<Longrightarrow> ecmp e e' \<noteq> Greater" by (rule winner_least [OF ok Some]) blast
  have "ecmp e x \<noteq> Greater" if "Some x \<in> set (lt_leaves q)" for x
    using that e(3) unfolding in_set_conv_nth peek_slot_def by (metis linorder_not_less)
  with Some e(1,2) show ?thesis by (auto simp: lt_pop_min_def lt_peek_min_def peek_slot_def)
qed

end

lemma entry_order_ord_cmp: "entry_order (ord_cmp :: nat \<Rightarrow> nat \<Rightarrow> ordering)"
  by unfold_locales (auto simp: ord_cmp_def split: if_splits)



end
