(* ===== verification/Seeking_Merger.thy ===== *)
theory Seeking_Merger
  imports Merge_Heap Loser_Tree
begin

text \<open>
  \<open>seeking_merger.rs\<close>: the k-way merge of range scans, over two loser trees. The struct has every
  field twice, for the forward and for the backward direction, and \<open>next\<close> and \<open>next_back\<close> are
  mirror images; here a direction is a record \<open>direction\<close>, and each routine takes the active and
  the other one. Sources are the lists of their remaining items, taken from at either end
  (\<open>CoherentMergeSource\<close>). A \<open>MergerEntry\<close> has the fields of a \<open>HeapEntry\<close>.
\<close>

definition min_cmp :: "comparator \<Rightarrow> heap_entry \<Rightarrow> heap_entry \<Rightarrow> ordering" where
  "min_cmp c a b =
     then_with (compare_with c (key (he_value a)) (key (he_value b))) (ord_cmp (he_index a) (he_index b))"

definition max_cmp :: "comparator \<Rightarrow> heap_entry \<Rightarrow> heap_entry \<Rightarrow> ordering" where
  "max_cmp c a b =
     then_with (compare_with c (key (he_value b)) (key (he_value a))) (ord_cmp (he_index b) (he_index a))"

datatype parked_cache = Stale | Empty | Best nat

record direction =
  d_tree :: "heap_entry loser_tree option"
  pending_error :: "lsm_error option"
  primed :: bool
  vacated :: "nat list"
  parked_best :: parked_cache

record seeking_merger =
  sm_sources :: "item list list"
  sm_n_sources :: nat
  forward :: direction
  backward :: direction

definition direction_new :: direction where
  "direction_new = \<lparr>d_tree = None, pending_error = None, primed = False, vacated = [], parked_best = Stale\<rparr>"

definition sm_new :: "item list list \<Rightarrow> seeking_merger" where
  "sm_new sources =
     \<lparr>sm_sources = sources, sm_n_sources = length sources,
      forward = direction_new, backward = direction_new\<rparr>"

subsection \<open>Parked leaves\<close>

text \<open>The scan over the vacated slots for the parked leaf that sorts first.\<close>

fun scan_parked ::
  "heap_entry entry_cmp \<Rightarrow> heap_entry loser_tree \<Rightarrow> nat list \<Rightarrow> (nat \<times> heap_entry) option \<Rightarrow>
   (nat \<times> heap_entry) option" where
  "scan_parked ecmp other [] best = best"
| "scan_parked ecmp other (slot # slots) best =
     (case peek_slot other slot of
        None \<Rightarrow> scan_parked ecmp other slots best
      | Some parked \<Rightarrow>
          scan_parked ecmp other slots
            (case best of
               None \<Rightarrow> Some (slot, parked)
             | Some (_, current) \<Rightarrow> if ecmp parked current = Less then Some (slot, parked) else best))"

definition pick_parked ::
  "heap_entry entry_cmp \<Rightarrow> heap_entry loser_tree \<Rightarrow> heap_entry loser_tree option \<Rightarrow> nat list \<Rightarrow>
   parked_cache \<Rightarrow> nat option \<times> parked_cache" where
  "pick_parked ecmp active other_opt vac cache =
     (case other_opt of
        None \<Rightarrow> (None, cache)
      | Some other \<Rightarrow>
          if vac = [] \<or> lt_is_empty other then (None, cache)
          else (let recompute =
                      (let computed = map_option fst (scan_parked ecmp other vac None)
                       in (computed, case computed of None \<Rightarrow> Empty | Some slot \<Rightarrow> Best slot));
                    (best_slot, cache') =
                      (case cache of
                         Best slot \<Rightarrow> if peek_slot other slot \<noteq> None then (Some slot, cache) else recompute
                       | Empty \<Rightarrow> (None, cache)
                       | Stale \<Rightarrow> recompute)
                in case best_slot of
                     None \<Rightarrow> (None, cache')
                   | Some slot \<Rightarrow>
                       (case peek_slot other slot of
                          None \<Rightarrow> (None, cache')
                        | Some parked \<Rightarrow>
                            (case Option.bind (winner_slot active) (peek_slot active) of
                               Some w \<Rightarrow> (if ecmp parked w = Less then Some slot else None, cache')
                             | None \<Rightarrow> (Some slot, cache')))))"

subsection \<open>Priming a direction\<close>

text \<open>
  The closure \<open>pull\<close> of \<open>initialize_forward\<close> and \<open>initialize_backward\<close>. Its state: the sources, the
  queued error of the active direction, and the other direction, whose leaf it migrates when the
  source is exhausted.
\<close>

type_synonym pull_state = "item list list \<times> lsm_error option \<times> direction"

definition pull_head ::
  "(item list \<Rightarrow> item option \<times> item list) \<Rightarrow> heap_entry entry_cmp \<Rightarrow> nat \<Rightarrow> pull_state \<Rightarrow>
   heap_entry option \<times> pull_state" where
  "pull_head pull ocmp i s =
     (let (sources, err, other) = s; (r, it') = pull (sources ! i); sources' = sources[i := it']
      in case r of
           Some (Inr v) \<Rightarrow> (Some (tag i v), (sources', err, other))
         | Some (Inl e) \<Rightarrow>
             (None, (sources', case err of None \<Rightarrow> Some e | Some e0 \<Rightarrow> Some e0, other))
         | None \<Rightarrow>
             (case d_tree other of
                None \<Rightarrow> (None, (sources', err, other))
              | Some ot \<Rightarrow>
                  (let (migrated, ot') = take_slot ocmp i ot
                   in (migrated, (sources', err,
                         other\<lparr>d_tree := Some ot',
                               vacated := vacated other @ (if migrated \<noteq> None then [i] else [])\<rparr>)))))"

text \<open>The retained tree is refilled in place; the first use builds it.\<close>

definition populate_tree ::
  "(item list \<Rightarrow> item option \<times> item list) \<Rightarrow> heap_entry entry_cmp \<Rightarrow> heap_entry entry_cmp \<Rightarrow> nat \<Rightarrow>
   heap_entry loser_tree option \<Rightarrow> pull_state \<Rightarrow> heap_entry loser_tree \<times> pull_state" where
  "populate_tree pull ecmp ocmp n tree s =
     (case tree of
        Some t \<Rightarrow> refill_with ecmp (pull_head pull ocmp) s t
      | None \<Rightarrow>
          (let (initial, s') = pull_slots (pull_head pull ocmp) [0..<n] s
           in (lt_build ecmp initial, s')))"

definition initialize_direction ::
  "(item list \<Rightarrow> item option \<times> item list) \<Rightarrow> heap_entry entry_cmp \<Rightarrow> heap_entry entry_cmp \<Rightarrow> nat \<Rightarrow>
   item list list \<Rightarrow> direction \<Rightarrow> direction \<Rightarrow> item list list \<times> direction \<times> direction" where
  "initialize_direction pull ecmp ocmp n sources active other =
     (let (tree, sources', err, other') =
            populate_tree pull ecmp ocmp n (d_tree active) (sources, pending_error active, other)
      in (sources',
          active\<lparr>d_tree := Some tree, pending_error := err,
                 vacated := filter (\<lambda>i. peek_slot tree i = None) [0..<n], parked_best := Stale\<rparr>,
          other'\<lparr>parked_best := Stale\<rparr>))"

subsection \<open>A step\<close>

text \<open>A parked leaf that goes first is taken from the other direction's tree.\<close>

definition claim_parked ::
  "heap_entry entry_cmp \<Rightarrow> nat option \<Rightarrow> heap_entry loser_tree option \<Rightarrow>
   (heap_entry \<times> nat \<times> heap_entry loser_tree) option" where
  "claim_parked ocmp pick other_tree =
     (case (pick, other_tree) of
        (Some slot, Some ot) \<Rightarrow>
          (case take_slot ocmp slot ot of
             (Some entry, ot') \<Rightarrow> Some (entry, slot, ot')
           | (None, _) \<Rightarrow> None)
      | _ \<Rightarrow> None)"

text \<open>Otherwise the winner is returned, and its slot refilled or vacated.\<close>

definition take_winner ::
  "(item list \<Rightarrow> item option \<times> item list) \<Rightarrow> heap_entry entry_cmp \<Rightarrow> heap_entry loser_tree \<Rightarrow>
   item list list \<Rightarrow> direction \<Rightarrow> item option \<times> item list list \<times> direction" where
  "take_winner pull ecmp tree sources active =
     (case winner_slot tree of
        None \<Rightarrow> (None, sources, active)
      | Some src \<Rightarrow>
          (let (r, it') = pull (sources ! src); sources' = sources[src := it']
           in case r of
                Some (Inr v) \<Rightarrow>
                  (case lt_replace_min ecmp (tag src v) tree of
                     Some (old, tree') \<Rightarrow>
                       (Some (Inr (he_value old)), sources', active\<lparr>d_tree := Some tree'\<rparr>)
                   | None \<Rightarrow> (Some (Inl Panicked), sources', active))
              | _ \<Rightarrow>
                  (case lt_pop_min ecmp tree of
                     Some (Some old, tree') \<Rightarrow>
                       (Some (Inr (he_value old)), sources',
                        active\<lparr>d_tree := Some tree',
                               pending_error :=
                                 (case (pending_error active, r) of
                                    (None, Some (Inl e)) \<Rightarrow> Some e | (p, _) \<Rightarrow> p),
                               vacated := vacated active @ [src], parked_best := Stale\<rparr>)
                   | Some (None, tree') \<Rightarrow> (None, sources', active\<lparr>d_tree := Some tree'\<rparr>)
                   | None \<Rightarrow> (Some (Inl Panicked), sources', active))))"

text \<open>The part of \<open>next\<close> after the queued errors and the priming.\<close>

definition advance ::
  "(item list \<Rightarrow> item option \<times> item list) \<Rightarrow> heap_entry entry_cmp \<Rightarrow> heap_entry entry_cmp \<Rightarrow>
   item list list \<Rightarrow> direction \<Rightarrow> direction \<Rightarrow> item option \<times> item list list \<times> direction \<times> direction" where
  "advance pull ecmp ocmp sources active other =
     (case d_tree active of
        None \<Rightarrow> (None, sources, active, other)
      | Some tree \<Rightarrow>
          (let other1 = other\<lparr>parked_best := Stale\<rparr>;
               (pick, cache) = pick_parked ecmp tree (d_tree other) (vacated active) (parked_best active);
               active1 = active\<lparr>parked_best := cache\<rparr>
           in case claim_parked ocmp pick (d_tree other) of
                Some (entry, slot, ot') \<Rightarrow>
                  (Some (Inr (he_value entry)), sources, active1\<lparr>parked_best := Stale\<rparr>,
                   other1\<lparr>d_tree := Some ot', vacated := vacated other1 @ [slot]\<rparr>)
              | None \<Rightarrow>
                  (let (r, sources', active') = take_winner pull ecmp tree sources active1
                   in (r, sources', active', other1))))"

definition step_direction ::
  "(item list \<Rightarrow> item option \<times> item list) \<Rightarrow> heap_entry entry_cmp \<Rightarrow> heap_entry entry_cmp \<Rightarrow> nat \<Rightarrow>
   item list list \<Rightarrow> direction \<Rightarrow> direction \<Rightarrow> item option \<times> item list list \<times> direction \<times> direction" where
  "step_direction pull ecmp ocmp n sources active other =
     (case pending_error active of
        Some e \<Rightarrow> (Some (Inl e), sources, active\<lparr>pending_error := None\<rparr>, other)
      | None \<Rightarrow>
          (case pending_error other of
             Some e \<Rightarrow> (Some (Inl e), sources, active, other\<lparr>pending_error := None\<rparr>)
           | None \<Rightarrow>
               if \<not> primed active
               then (let (sources1, active1, other1) = initialize_direction pull ecmp ocmp n sources active other;
                         active2 = active1\<lparr>primed := True\<rparr>
                     in case pending_error active2 of
                          Some e \<Rightarrow> (Some (Inl e), sources1, active2\<lparr>pending_error := None\<rparr>, other1)
                        | None \<Rightarrow> advance pull ecmp ocmp sources1 active2 other1)
               else advance pull ecmp ocmp sources active other))"

definition sm_next :: "comparator \<Rightarrow> seeking_merger \<Rightarrow> item option \<times> seeking_merger" where
  "sm_next c st =
     (let (r, sources, fwd, bwd) =
            step_direction pop_front (min_cmp c) (max_cmp c) (sm_n_sources st) (sm_sources st)
              (forward st) (backward st)
      in (r, st\<lparr>sm_sources := sources, forward := fwd, backward := bwd\<rparr>))"

definition sm_next_back :: "comparator \<Rightarrow> seeking_merger \<Rightarrow> item option \<times> seeking_merger" where
  "sm_next_back c st =
     (let (r, sources, bwd, fwd) =
            step_direction pop_back (max_cmp c) (min_cmp c) (sm_n_sources st) (sm_sources st)
              (backward st) (forward st)
      in (r, st\<lparr>sm_sources := sources, forward := fwd, backward := bwd\<rparr>))"

text \<open>\<open>reseek\<close>; how a source repositions itself is the parameter \<open>seek\<close>.\<close>

definition direction_reset :: "direction \<Rightarrow> direction" where
  "direction_reset d =
     d\<lparr>d_tree := map_option lt_clear (d_tree d), primed := False, vacated := [], parked_best := Stale,
       pending_error := None\<rparr>"

definition sm_reseek :: "('ctx \<Rightarrow> item list \<Rightarrow> item list) \<Rightarrow> 'ctx \<Rightarrow> seeking_merger \<Rightarrow> seeking_merger" where
  "sm_reseek seek ctx st =
     st\<lparr>sm_sources := map (seek ctx) (sm_sources st),
        forward := direction_reset (forward st), backward := direction_reset (backward st)\<rparr>"

subsection \<open>One direction is a sorted merge\<close>

lemma pull_run_back: "fst (pull_run n pop_back xs) = fst (pull_run n pop_front (rev xs))"
proof (induction n arbitrary: xs)
  case (Suc n)
  then show ?case by (cases xs rule: rev_cases) (simp_all add: Let_def case_prod_beta)
qed simp

lemma sorted_wrt_tl: "sorted_wrt P xs \<Longrightarrow> sorted_wrt P (tl xs)"
  by (cases xs) auto

text \<open>
  The queue of a slot is its leaf followed by what its source still holds. \<open>src\<close> is how a source
  stores a queue: as it is when taken from the front, reversed when taken from the back.
\<close>

locale merge_direction = entry_order ecmp for ecmp :: "heap_entry entry_cmp" +
  fixes pull :: "item list \<Rightarrow> item option \<times> item list"
    and src :: "internal_value list \<Rightarrow> item list"
  assumes pull_nil: "pull (src []) = (None, src [])"
    and pull_cons: "pull (src (v # vs)) = (Some (Inr v), src vs)"
begin

definition queue_sorted :: "internal_value list list \<Rightarrow> bool" where
  "queue_sorted ws \<longleftrightarrow>
     (\<forall>j<length ws. sorted_wrt (\<lambda>a b. ecmp (tag j a) (tag j b) = Less) (ws ! j))"

definition heads :: "internal_value list list \<Rightarrow> nat \<Rightarrow> heap_entry option" where
  "heads ws i = (if i < length ws \<and> ws ! i \<noteq> [] then Some (tag i (hd (ws ! i))) else None)"

definition running :: "internal_value list list \<Rightarrow> item list list \<Rightarrow> direction \<Rightarrow> bool" where
  "running ws sources d \<longleftrightarrow> sources = map (src \<circ> tl) ws \<and>
     (\<exists>t. d_tree d = Some t \<and> lt_ok ecmp t \<and> lt_n_sources t = length ws \<and> peek_slot t = heads ws)"

definition waiting :: "internal_value list list \<Rightarrow> item list list \<Rightarrow> direction \<Rightarrow> bool" where
  "waiting ws sources d \<longleftrightarrow> sources = map src ws \<and>
     (\<forall>t. d_tree d = Some t \<longrightarrow> lt_shape t \<and> lt_n_sources t = length ws)"

definition idle :: "direction \<Rightarrow> bool" where
  "idle d \<longleftrightarrow> pending_error d = None \<and>
     (\<forall>t. d_tree d = Some t \<longrightarrow> lt_is_empty t \<and> (\<forall>i. peek_slot t i = None))"

lemma head_first:
  assumes S: "sorted_wrt (\<lambda>a b. ecmp a b = Less) S" "mset S = mset (tag_all 0 ws)"
    and sorted: "queue_sorted ws" and i: "i < length ws" "ws ! i = v # vs"
    and least: "\<And>j e. heads ws j = Some e \<Longrightarrow> ecmp (tag i v) e \<noteq> Greater"
  shows "\<exists>S'. S = tag i v # S' \<and> mset S' = mset (tag_all 0 (ws[i := vs]))"
proof -
  have upd: "mset (tag_all 0 ws) = add_mset (tag i v) (mset (tag_all 0 (ws[i := vs])))"
    using mset_tag_all_update [OF i(1), of v vs 0] i(2) by simp
  have "set S = set (tag_all 0 ws)" using S(2) by (metis set_mset_mset)
  moreover have "tag i v \<in> set (tag_all 0 ws)" using upd by (metis set_mset_mset union_single_eq_member)
  ultimately obtain y S' where y: "S = y # S'" "y \<in> set (tag_all 0 ws)" "tag i v \<in> set S"
    by (cases S) auto
  obtain j u where j: "j < length ws" "u \<in> set (ws ! j)" "y = tag j u"
    using y(2) by (auto simp: set_tag_all)
  then obtain h us where h: "ws ! j = h # us" by (cases "ws ! j") auto
  then have "ecmp (tag i v) (tag j h) \<noteq> Greater" using least [of j "tag j h"] j(1) by (simp add: heads_def)
  moreover have "ecmp (tag j h) y \<noteq> Greater"
    using sorted j h ecmp_refl by (auto simp: queue_sorted_def)
  ultimately have "ecmp (tag i v) y \<noteq> Greater" by (rule ecmp_trans)
  then have "y = tag i v" using S(1) y(1,3) ecmp_sym by auto
  with y S(2) upd show ?thesis by auto
qed

lemma queue_sorted_tl: "queue_sorted ws \<Longrightarrow> i < length ws \<Longrightarrow> queue_sorted (ws[i := tl (ws ! i)])"
  unfolding queue_sorted_def by (auto simp: nth_list_update intro: sorted_wrt_tl)

lemma idle_pick: "idle other \<Longrightarrow> pick_parked ecmp t (d_tree other) vac cache = (None, cache)"
  by (auto simp: pick_parked_def idle_def split: option.splits)

lemma idle_simps [simp]: "idle (d\<lparr>parked_best := x\<rparr>) \<longleftrightarrow> idle d"
  by (simp add: idle_def)

lemma advance_law:
  assumes run: "running ws sources active" and idle: "idle other"
    and S: "sorted_wrt (\<lambda>a b. ecmp a b = Less) S" "mset S = mset (tag_all 0 ws)"
    and sorted: "queue_sorted ws" and pend: "pending_error active = None"
    and adv: "advance pull ecmp ocmp sources active other = (r, sources', active', other')"
  shows "\<exists>ws' S'. running ws' sources' active' \<and> idle other' \<and> pending_error active' = None \<and>
    primed active' = primed active \<and> length ws' = length ws \<and> queue_sorted ws' \<and>
    mset S' = mset (tag_all 0 ws') \<and> sorted_wrt (\<lambda>a b. ecmp a b = Less) S' \<and>
    pop_front (map (Inr \<circ> he_value) S) = (r, map (Inr \<circ> he_value) S')"
proof -
  obtain t where t: "d_tree active = Some t" "lt_ok ecmp t" "lt_n_sources t = length ws" "peek_slot t = heads ws"
    and src: "sources = map (src \<circ> tl) ws"
    using run by (auto simp: running_def)
  have no_claim: "claim_parked ocmp None ot = None" for ot by (simp add: claim_parked_def)
  have "advance pull ecmp ocmp sources active other =
      (let (r, sources', active') = take_winner pull ecmp t sources active
       in (r, sources', active', other\<lparr>parked_best := Stale\<rparr>))"
    by (simp add: advance_def t(1) idle_pick [OF idle] no_claim)
  then have adv: "take_winner pull ecmp t sources active = (r, sources', active')"
    "other' = other\<lparr>parked_best := Stale\<rparr>"
    using adv by (auto split: prod.splits)
  note adv = adv(1) [unfolded take_winner_def Let_def case_prod_conv] adv(2)
  show ?thesis
  proof (cases "winner_slot t")
    case None
    then have "heads ws = (\<lambda>_. None)" using winner_none [OF t(2)] t(4) by auto
    then have "ws ! j = []" if "j < length ws" for j using that unfolding heads_def by (metis option.distinct(1))
    then have "e \<notin> set (tag_all 0 ws)" for e by (simp add: set_tag_all)
    then have "set (tag_all 0 ws) = {}" by (metis equals0I)
    then have "S = []" using S(2) by simp
    with None adv run idle sorted pend S show ?thesis
      by (intro exI [of _ ws] exI [of _ S]) (auto simp: running_def)
  next
    case (Some i)
    obtain e where e: "peek_slot t i = Some e" "\<And>j e'. peek_slot t j = Some e' \<Longrightarrow> ecmp e e' \<noteq> Greater"
      by (rule winner_least [OF t(2) Some]) blast
    then obtain v vs where w: "i < length ws" "ws ! i = v # vs" "e = tag i v"
      using t(4) by (cases "ws ! i") (auto simp: heads_def split: if_splits)
    obtain S' where S': "S = tag i v # S'" "mset S' = mset (tag_all 0 (ws[i := vs]))"
      using head_first [OF S sorted w(1,2)] e(2) t(4) w(3) by auto
    have sorted': "queue_sorted (ws[i := vs])" using queue_sorted_tl [OF sorted w(1)] w(2) by simp
    have src_i: "sources ! i = src vs" using w src by simp
    have running': "running (ws[i := vs]) (sources[i := src (tl vs)]) d"
      if "d_tree d = Some t'" "lt_ok ecmp t'" "lt_n_sources t' = lt_n_sources t"
        "\<And>j. peek_slot t' j = (if j = i then heads (ws[i := vs]) i else peek_slot t j)" for d t'
    proof -
      have "peek_slot t' = heads (ws[i := vs])"
        using that(4) t(4) by (intro ext) (auto simp: heads_def)
      then show ?thesis using that t(3) src by (auto simp: running_def map_update)
    qed
    show ?thesis
    proof (cases vs)
      case Nil
      obtain old t' where p: "lt_pop_min ecmp t = Some (Some old, t')" "peek_slot t i = Some old" "lt_ok ecmp t'"
        "\<And>j. peek_slot t' j = (if j = i then None else peek_slot t j)" "lt_n_sources t' = lt_n_sources t"
        by (rule pop_min_law [OF t(2) Some]) blast
      let ?d = "active\<lparr>d_tree := Some t', vacated := vacated active @ [i], parked_best := Stale\<rparr>"
      have "heads (ws[i := vs]) i = None" using w(1) Nil by (simp add: heads_def)
      with running' [of ?d t'] p have "running (ws[i := vs]) (sources[i := src (tl vs)]) ?d" by simp
      moreover have "r = Some (Inr v)" "sources' = sources[i := src (tl vs)]" "active' = ?d" "other' = other\<lparr>parked_best := Stale\<rparr>"
        using adv Some Nil p(1,2) e(1) w(3) pend by (auto simp: src_i pull_nil)
      ultimately show ?thesis using S S' sorted' idle pend
        by (intro exI [of _ "ws[i := vs]"] exI [of _ S']) simp
    next
      case (Cons u us)
      obtain old t' where p: "lt_replace_min ecmp (tag i u) t = Some (old, t')" "peek_slot t i = Some old" "lt_ok ecmp t'"
        "\<And>j. peek_slot t' j = (if j = i then Some (tag i u) else peek_slot t j)" "lt_n_sources t' = lt_n_sources t"
        by (rule replace_min_law [OF t(2) Some]) blast
      let ?d = "active\<lparr>d_tree := Some t'\<rparr>"
      have "heads (ws[i := vs]) i = Some (tag i u)" using w(1) Cons by (simp add: heads_def)
      with running' [of ?d t'] p have "running (ws[i := vs]) (sources[i := src (tl vs)]) ?d" by simp
      moreover have "r = Some (Inr v)" "sources' = sources[i := src (tl vs)]" "active' = ?d" "other' = other\<lparr>parked_best := Stale\<rparr>"
        using adv Some Cons p(1,2) e(1) w(3) pend by (auto simp: src_i pull_cons)
      ultimately show ?thesis using S S' sorted' idle pend
        by (intro exI [of _ "ws[i := vs]"] exI [of _ S']) simp
    qed
  qed
qed

lemma pull_head_idle:
  assumes "idle other" "i < length ws" "length xs = i"
  shows "pull_head pull ocmp i (xs @ map src (drop i ws), err, other) =
    (heads ws i, (xs @ src (tl (ws ! i)) # map src (drop (Suc i) ws), err, other))"
proof -
  have d: "map src (drop i ws) = src (ws ! i) # map src (drop (Suc i) ws)"
    using assms(2) by (simp flip: Cons_nth_drop_Suc)
  show ?thesis
  proof (cases "ws ! i")
    case Nil
    have "take_slot ocmp i t = (None, t)" if "d_tree other = Some t" for t
      using assms(1) that by (auto simp: idle_def take_slot_def peek_slot_def split: if_splits)
    then have "pull_head pull ocmp i (xs @ map src (drop i ws), err, other) =
        (None, (xs @ src [] # map src (drop (Suc i) ws), err, other))"
      using assms(3) Nil by (cases "d_tree other") (auto simp: pull_head_def d pull_nil nth_append list_update_append)
    then show ?thesis using Nil by (simp add: heads_def)
  next
    case (Cons v vs)
    then show ?thesis using assms by (auto simp: pull_head_def d pull_cons nth_append heads_def list_update_append)
  qed
qed

lemma pull_slots_heads:
  assumes "idle other" "a \<le> length ws" "xs = map (src \<circ> tl) (take a ws)"
  shows "pull_slots (pull_head pull ocmp) [a..<length ws] (xs @ map src (drop a ws), err, other) =
    (map (heads ws) [a..<length ws], (map (src \<circ> tl) ws, err, other))"
  using assms(2,3)
proof (induction "length ws - a" arbitrary: a xs)
  case 0
  then show ?case by simp
next
  case (Suc m)
  then have a: "a < length ws" "[a..<length ws] = a # [Suc a..<length ws]" by (simp_all add: upt_conv_Cons)
  let ?xs = "xs @ [src (tl (ws ! a))]"
  have "?xs = map (src \<circ> tl) (take (Suc a) ws)" using Suc.prems(2) a(1) by (simp add: take_Suc_conv_app_nth)
  from Suc.hyps(1) [OF _ _ this] Suc.hyps(2) a(1)
  have "pull_slots (pull_head pull ocmp) [Suc a..<length ws] (?xs @ map src (drop (Suc a) ws), err, other) =
      (map (heads ws) [Suc a..<length ws], (map (src \<circ> tl) ws, err, other))" by simp
  with pull_head_idle [OF assms(1) a(1), of xs ocmp err] Suc.prems(2) a show ?case by simp
qed

lemma initialize_law:
  assumes wait: "waiting ws sources active" and idle: "idle other" and pend: "pending_error active = None"
  shows "\<exists>active'. initialize_direction pull ecmp ocmp (length ws) sources active other =
      (map (src \<circ> tl) ws, active', other\<lparr>parked_best := Stale\<rparr>) \<and>
    running ws (map (src \<circ> tl) ws) active' \<and> pending_error active' = None"
proof -
  let ?n = "length ws"
  let ?s = "(sources, pending_error active, other)"
  have pulled: "pull_slots (pull_head pull ocmp) [0..<?n] ?s =
      (map (heads ws) [0..<?n], (map (src \<circ> tl) ws, pending_error active, other))"
    using pull_slots_heads [OF idle, of 0 ws "[]" ocmp "pending_error active"] wait by (simp add: waiting_def)
  have beyond: "heads ws i = (if i < ?n then map (heads ws) [0..<?n] ! i else None)" for i
    by (auto simp: heads_def)
  have "\<exists>t'. populate_tree pull ecmp ocmp ?n (d_tree active) ?s =
      (t', (map (src \<circ> tl) ws, pending_error active, other)) \<and>
    lt_ok ecmp t' \<and> lt_n_sources t' = ?n \<and> peek_slot t' = heads ws"
  proof (cases "d_tree active")
    case None
    have "peek_slot (lt_build ecmp (map (heads ws) [0..<?n])) = heads ws"
      using beyond by (intro ext) (simp add: build_law(3))
    with None pulled build_law(1,2) show ?thesis by (simp add: populate_tree_def)
  next
    case (Some t)
    then have t: "lt_shape t" "lt_n_sources t = ?n" using wait by (auto simp: waiting_def)
    obtain t' where t': "refill_with ecmp (pull_head pull ocmp) ?s t = (t', (map (src \<circ> tl) ws, pending_error active, other))"
      "lt_ok ecmp t'" "lt_n_sources t' = lt_n_sources t"
      "\<And>i. peek_slot t' i = (if i < lt_n_sources t then map (heads ws) [0..<?n] ! i else None)"
      by (rule refill_law [OF t(1) pulled [folded t(2)]]) (use t(2) in auto)
    have "peek_slot t' = heads ws" using t'(4) t(2) beyond by (intro ext) simp
    with Some t' t(2) show ?thesis by (simp add: populate_tree_def)
  qed
  then show ?thesis using pend by (auto simp: initialize_direction_def running_def)
qed

definition holds_sorted ::
  "nat \<times> item list list \<times> direction \<times> direction \<Rightarrow> heap_entry list \<Rightarrow> bool" where
  "holds_sorted st S \<longleftrightarrow> (case st of (n, sources, active, other) \<Rightarrow>
     \<exists>ws. n = length ws \<and> sorted_wrt (\<lambda>a b. ecmp a b = Less) S \<and> mset S = mset (tag_all 0 ws) \<and>
       queue_sorted ws \<and> pending_error active = None \<and> idle other \<and>
       (if primed active then running ws sources active else waiting ws sources active))"

lemma step_direction_law:
  assumes "holds_sorted (n, sources, active, other) S"
    and step: "step_direction pull ecmp ocmp n sources active other = (r, sources', active', other')"
  shows "\<exists>S'. holds_sorted (n, sources', active', other') S' \<and>
    pop_front (map (Inr \<circ> he_value) S) = (r, map (Inr \<circ> he_value) S')"
proof -
  obtain ws where ws: "n = length ws" "sorted_wrt (\<lambda>a b. ecmp a b = Less) S" "mset S = mset (tag_all 0 ws)"
    "queue_sorted ws" "pending_error active = None" "idle other"
    "if primed active then running ws sources active else waiting ws sources active"
    using assms(1) by (auto simp: holds_sorted_def)
  have "pending_error other = None" using ws(6) by (simp add: idle_def)
  note step = step [unfolded step_direction_def ws(5) this option.case]
  obtain so ac ot where run: "running ws so ac" "idle ot" "pending_error ac = None" "primed ac"
    "advance pull ecmp ocmp so ac ot = (r, sources', active', other')"
  proof (cases "primed active")
    case True
    then show thesis using that [of sources active other] ws step by simp
  next
    case False
    then have "waiting ws sources active" using ws(7) by simp
    from initialize_law [OF this ws(6,5)] obtain active1 where
      i: "initialize_direction pull ecmp ocmp n sources active other =
        (map (src \<circ> tl) ws, active1, other\<lparr>parked_best := Stale\<rparr>)"
        "running ws (map (src \<circ> tl) ws) active1" "pending_error active1 = None" using ws(1) by blast
    show thesis using that [of "map (src \<circ> tl) ws" "active1\<lparr>primed := True\<rparr>" "other\<lparr>parked_best := Stale\<rparr>"]
      False step i ws(6) by (simp add: running_def)
  qed
  from advance_law [OF run(1,2) ws(2,3,4) run(3,5)] obtain ws' S' where
    a: "running ws' sources' active'" "idle other'" "pending_error active' = None" "primed active' = primed ac"
      "length ws' = length ws" "queue_sorted ws'" "mset S' = mset (tag_all 0 ws')"
      "sorted_wrt (\<lambda>a b. ecmp a b = Less) S'"
      "pop_front (map (Inr \<circ> he_value) S) = (r, map (Inr \<circ> he_value) S')" by blast
  then have "holds_sorted (n, sources', active', other') S'"
    using ws(1) run(4) by (auto simp: holds_sorted_def intro!: exI [of _ ws'])
  with a(9) show ?thesis by blast
qed

end

lemma min_cmp_heap_cmp: "min_cmp c = heap_cmp c"
  by (intro ext) (simp add: min_cmp_def heap_cmp_def)

lemma max_cmp_heap_cmp: "max_cmp c a b = heap_cmp c b a"
  by (simp add: max_cmp_def heap_cmp_def)

context user_comparator begin

lemma heap_cmp_Greater: "heap_cmp cmp x y = Greater \<longleftrightarrow> heap_cmp cmp y x = Less"
  using heap_cmp_antisym by blast

end

sublocale user_comparator \<subseteq> min_merge: merge_direction "min_cmp cmp" pop_front "map Inr"
proof unfold_locales
  fix x y z
  show "min_cmp cmp x y = Greater \<longleftrightarrow> min_cmp cmp y x = Less"
    by (simp add: min_cmp_heap_cmp heap_cmp_Greater)
  show "min_cmp cmp x z \<noteq> Greater" if "min_cmp cmp x y \<noteq> Greater" "min_cmp cmp y z \<noteq> Greater"
    using that heap_preorder unfolding min_cmp_heap_cmp cmp_preorder_def by blast
qed simp_all

sublocale user_comparator \<subseteq> max_merge: merge_direction "max_cmp cmp" pop_back "\<lambda>vs. map Inr (rev vs)"
proof unfold_locales
  fix x y z
  show "max_cmp cmp x y = Greater \<longleftrightarrow> max_cmp cmp y x = Less"
    by (simp add: max_cmp_heap_cmp heap_cmp_Greater)
  show "max_cmp cmp x z \<noteq> Greater" if "max_cmp cmp x y \<noteq> Greater" "max_cmp cmp y z \<noteq> Greater"
    using that heap_preorder unfolding max_cmp_heap_cmp cmp_preorder_def by blast
qed simp_all

subsection \<open>Reseeking\<close>

text \<open>Whatever the calls, both trees keep the shape that a refill in place relies on.\<close>

definition dir_shape :: "nat \<Rightarrow> direction \<Rightarrow> bool" where
  "dir_shape n d \<longleftrightarrow> (\<forall>t. d_tree d = Some t \<longrightarrow> lt_shape t \<and> lt_n_sources t = n)"

lemma dir_shape_simps [simp]:
  "dir_shape n (d\<lparr>pending_error := e\<rparr>) = dir_shape n d" "dir_shape n (d\<lparr>primed := p\<rparr>) = dir_shape n d"
  "dir_shape n (d\<lparr>vacated := v\<rparr>) = dir_shape n d" "dir_shape n (d\<lparr>parked_best := b\<rparr>) = dir_shape n d"
  "dir_shape n direction_new" "dir_shape n (d\<lparr>d_tree := Some t\<rparr>) = (lt_shape t \<and> lt_n_sources t = n)"
  by (simp_all add: dir_shape_def direction_new_def)

lemma dir_shape_same:
  "dir_shape n d \<Longrightarrow> d_tree d = Some t \<Longrightarrow> same_shape t t' \<Longrightarrow> lt_shape t' \<and> lt_n_sources t' = n"
  using same_shapeD unfolding dir_shape_def by metis

lemma pull_head_shape:
  assumes "pull_head pull ocmp i (so, err, other) = (v, so', err', other')" "dir_shape n other"
  shows "length so' = length so \<and> dir_shape n other'"
proof -
  obtain r it' where p: "pull (so ! i) = (r, it')" by (rule prod.exhaust)
  note eq = assms(1) [unfolded pull_head_def Let_def case_prod_conv p]
  show ?thesis
  proof (cases r)
    case None
    show ?thesis
    proof (cases "d_tree other")
      case (Some t)
      obtain m t' where "take_slot ocmp i t = (m, t')" by (rule prod.exhaust)
      with None Some eq dir_shape_same [OF assms(2) Some take_slot_shape] show ?thesis by force
    qed (use None eq assms(2) in auto)
  next
    case (Some x)
    then show ?thesis using eq assms(2) by (cases x) auto
  qed
qed

lemma pull_slots_shape:
  "pull_slots (pull_head pull ocmp) slots (so, err, other) = (vs, so', err', other') \<Longrightarrow>
   dir_shape n other \<Longrightarrow> length so' = length so \<and> dir_shape n other'"
proof (induction slots arbitrary: so err other vs)
  case (Cons i slots)
  obtain v so1 err1 other1 where one: "pull_head pull ocmp i (so, err, other) = (v, so1, err1, other1)"
    by (metis prod.exhaust)
  obtain us where two: "pull_slots (pull_head pull ocmp) slots (so1, err1, other1) = (us, so', err', other')"
    using Cons.prems(1) one by (auto simp: Let_def split: prod.splits)
  show ?case using Cons.IH [OF two] pull_head_shape [OF one Cons.prems(2)] by simp
qed simp

context user_comparator begin

definition wf_cmp :: "heap_entry entry_cmp \<Rightarrow> bool" where
  "wf_cmp ecmp \<longleftrightarrow> ecmp = min_cmp cmp \<or> ecmp = max_cmp cmp"

lemma build_shape: "wf_cmp ecmp \<Longrightarrow> lt_shape (lt_build ecmp vs) \<and> lt_n_sources (lt_build ecmp vs) = length vs"
  unfolding wf_cmp_def using min_merge.build_law(1,2) max_merge.build_law(1,2)
    min_merge.lt_ok_shape max_merge.lt_ok_shape by blast

lemma initialize_shape:
  assumes i: "initialize_direction pull ecmp ocmp n so active other = (so', active', other')"
    and shape: "dir_shape n active" "dir_shape n other" "wf_cmp ecmp"
  shows "length so' = length so \<and> dir_shape n active' \<and> dir_shape n other'"
proof -
  obtain t so1 err1 other1 where p:
    "populate_tree pull ecmp ocmp n (d_tree active) (so, pending_error active, other) = (t, so1, err1, other1)"
    by (metis prod.exhaust)
  obtain vs so2 err2 other2 where s:
    "pull_slots (pull_head pull ocmp) [0..<n] (so, pending_error active, other) = (vs, so2, err2, other2)"
    by (metis prod.exhaust)
  note ps = pull_slots_shape [OF s shape(2)]
  have len: "length vs = n" using length_pull_slots [of "pull_head pull ocmp" "[0..<n]"] s by (metis diff_zero fst_conv length_upt)
  have "lt_shape t \<and> lt_n_sources t = n \<and> (so1, err1, other1) = (so2, err2, other2)"
  proof (cases "d_tree active")
    case None
    then show ?thesis using p s build_shape [OF shape(3), of vs] len by (auto simp: populate_tree_def)
  next
    case (Some t0)
    then have n: "lt_n_sources t0 = n" using shape(1) by (simp add: dir_shape_def)
    have r: "refill_with ecmp (pull_head pull ocmp) (so, pending_error active, other) t0 = (t, so1, err1, other1)"
      using p Some by (simp add: populate_tree_def)
    from refill_with_shape [OF r] dir_shape_same [OF shape(1) Some] s n show ?thesis by simp
  qed
  with ps i p show ?thesis by (auto simp: initialize_direction_def)
qed

lemma take_winner_shape:
  assumes a: "take_winner pull ecmp t so active = (r, so', active')"
    and shape: "dir_shape n active" and t: "lt_shape t" "lt_n_sources t = n"
  shows "length so' = length so \<and> dir_shape n active'"
proof (cases "winner_slot t")
  case (Some i)
  obtain x it' where p: "pull (so ! i) = (x, it')" by (rule prod.exhaust)
  note a = a [unfolded take_winner_def Some option.case Let_def p case_prod_conv]
  have pop: "lt_shape t' \<and> lt_n_sources t' = n" if "lt_pop_min ecmp t = Some (y, t')" for y t'
    using same_shapeD [OF pop_min_shape [OF that]] t by simp
  have repl: "lt_shape t' \<and> lt_n_sources t' = n" if "lt_replace_min ecmp v t = Some (y, t')" for v y t'
    using same_shapeD [OF replace_min_shape [OF that]] t by simp
  consider (refill) v where "x = Some (Inr v)" | (gone) "x = None" | (err) e where "x = Some (Inl e)"
    by (metis option.exhaust sum.exhaust)
  then show ?thesis
  proof cases
    case (refill v)
    then show ?thesis
      using a shape repl by (cases "lt_replace_min ecmp (tag i v) t") auto
  next
    case gone
    then show ?thesis
      using a shape pop by (cases "lt_pop_min ecmp t") (auto split: option.splits)
  next
    case (err e)
    then show ?thesis
      using a shape pop by (cases "lt_pop_min ecmp t") (auto split: option.splits)
  qed
qed (use a shape in \<open>auto simp: take_winner_def\<close>)

lemma claim_parked_shape:
  assumes c: "claim_parked ocmp pick (d_tree other) = Some (entry, slot, ot)" and "dir_shape n other"
  shows "lt_shape ot \<and> lt_n_sources ot = n"
proof -
  obtain t where t: "d_tree other = Some t" "pick = Some slot" "take_slot ocmp slot t = (Some entry, ot)"
    using c by (auto simp: claim_parked_def split: option.splits prod.splits)
  from dir_shape_same [OF assms(2) t(1) take_slot_shape [OF t(3)]] show ?thesis .
qed

lemma advance_shape:
  assumes a: "advance pull ecmp ocmp so active other = (r, so', active', other')"
    and shape: "dir_shape n active" "dir_shape n other"
  shows "length so' = length so \<and> dir_shape n active' \<and> dir_shape n other'"
proof (cases "d_tree active")
  case None
  then show ?thesis using a shape by (auto simp: advance_def)
next
  case (Some t)
  obtain pick cache where pp:
    "pick_parked ecmp t (d_tree other) (vacated active) (parked_best active) = (pick, cache)"
    by (rule prod.exhaust)
  have t: "lt_shape t" "lt_n_sources t = n" using shape(1) Some by (auto simp: dir_shape_def)
  note a = a [unfolded advance_def Some option.case Let_def pp case_prod_conv]
  show ?thesis
  proof (cases "claim_parked ocmp pick (d_tree other)")
    case None
    then show ?thesis
      using a shape take_winner_shape [of pull ecmp t so "active\<lparr>parked_best := cache\<rparr>" r so' active' n] t
      by (auto split: prod.splits)
  next
    case (Some x)
    obtain entry slot ot where x: "x = (entry, slot, ot)" by (rule prod_cases3)
    with Some a shape claim_parked_shape [OF _ shape(2)] show ?thesis by auto
  qed
qed

lemma step_direction_shape:
  assumes s: "step_direction pull ecmp ocmp n so active other = (r, so', active', other')"
    and shape: "dir_shape n active" "dir_shape n other" "wf_cmp ecmp"
  shows "length so' = length so \<and> dir_shape n active' \<and> dir_shape n other'"
proof -
  obtain so1 a1 o1 where i: "initialize_direction pull ecmp ocmp n so active other = (so1, a1, o1)"
    by (rule prod_cases3)
  note init = initialize_shape [OF i shape]
  note s = s [unfolded step_direction_def i Let_def case_prod_conv]
  consider e where "pending_error active = Some e" | e where "pending_error active = None" "pending_error other = Some e"
    | "pending_error active = None" "pending_error other = None" "primed active"
    | "pending_error active = None" "pending_error other = None" "\<not> primed active"
    by (metis option.exhaust)
  then show ?thesis
  proof cases
    case 3
    then have "advance pull ecmp ocmp so active other = (r, so', active', other')" using s by simp
    from advance_shape [OF this shape(1,2)] show ?thesis .
  next
    case 4
    show ?thesis
    proof (cases "pending_error a1")
      case None
      then have "advance pull ecmp ocmp so1 (a1\<lparr>primed := True\<rparr>) o1 = (r, so', active', other')"
        using s 4 by simp
      from advance_shape [OF this, of n] init show ?thesis by simp
    next
      case (Some e)
      then show ?thesis using s 4 init by auto
    qed
  qed (use s shape in auto)
qed

definition sm_shape :: "seeking_merger \<Rightarrow> bool" where
  "sm_shape st \<longleftrightarrow> length (sm_sources st) = sm_n_sources st \<and>
     dir_shape (sm_n_sources st) (forward st) \<and> dir_shape (sm_n_sources st) (backward st)"

lemma sm_new_shape: "sm_shape (sm_new sources)"
  by (simp add: sm_shape_def sm_new_def)

lemma sm_next_shape: "sm_shape st \<Longrightarrow> sm_shape (snd (sm_next cmp st))"
  using step_direction_shape [of pop_front "min_cmp cmp" "max_cmp cmp" "sm_n_sources st" "sm_sources st" "forward st" "backward st"]
  by (auto simp: sm_next_def sm_shape_def wf_cmp_def split: prod.splits)

lemma sm_next_back_shape: "sm_shape st \<Longrightarrow> sm_shape (snd (sm_next_back cmp st))"
  using step_direction_shape [of pop_back "max_cmp cmp" "min_cmp cmp" "sm_n_sources st" "sm_sources st" "backward st" "forward st"]
  by (auto simp: sm_next_back_def sm_shape_def wf_cmp_def split: prod.splits)

lemma sm_run_shape:
  "sm_shape st \<Longrightarrow> sm_shape (snd (iter_run (sm_next cmp) (sm_next_back cmp) ds st))"
proof (induction ds arbitrary: st)
  case (Cons d ds)
  have "sm_shape (snd (case d of Front \<Rightarrow> sm_next cmp st | Back \<Rightarrow> sm_next_back cmp st))"
    using Cons.prems sm_next_shape sm_next_back_shape by (cases d) auto
  from Cons.IH [OF this] show ?case by (simp add: Let_def case_prod_beta)
qed simp

text \<open>A merger about to be primed over the sources \<open>vss\<close>, fresh or repositioned.\<close>

definition sm_ready :: "internal_value list list \<Rightarrow> seeking_merger \<Rightarrow> bool" where
  "sm_ready vss st \<longleftrightarrow> sm_sources st = map (map Inr) vss \<and> sm_n_sources st = length vss \<and>
     (\<forall>d\<in>{forward st, backward st}. \<not> primed d \<and> dir_shape (length vss) d \<and> min_merge.idle d)"

lemma sm_ready_new: "sm_ready vss (sm_new (map (map Inr) vss))"
  by (simp add: sm_ready_def sm_new_def direction_new_def dir_shape_def min_merge.idle_def)

lemma direction_reset_idle:
  assumes "dir_shape n d"
  shows "\<not> primed (direction_reset d)" "dir_shape n (direction_reset d)" "min_merge.idle (direction_reset d)"
  using assms lt_clear_shape
  by (auto simp: direction_reset_def dir_shape_def min_merge.idle_def lt_is_empty_def peek_slot_def lt_clear_def lt_shape_def)

lemma sm_ready_reseek:
  assumes "sm_shape st" "map (seek ctx) (sm_sources st) = map (map Inr) vss"
  shows "sm_ready vss (sm_reseek seek ctx st)"
proof -
  have "length vss = sm_n_sources st" using assms by (metis length_map sm_shape_def)
  then show ?thesis using assms direction_reset_idle [of "sm_n_sources st" "forward st"]
      direction_reset_idle [of "sm_n_sources st" "backward st"]
    unfolding sm_ready_def sm_shape_def sm_reseek_def by simp
qed

definition holds_fwd :: "seeking_merger \<Rightarrow> item list \<Rightarrow> bool" where
  "holds_fwd st xs \<longleftrightarrow> (\<exists>S. xs = map (Inr \<circ> he_value) S \<and>
     min_merge.holds_sorted (sm_n_sources st, sm_sources st, forward st, backward st) S)"

definition holds_bwd :: "seeking_merger \<Rightarrow> item list \<Rightarrow> bool" where
  "holds_bwd st xs \<longleftrightarrow> (\<exists>S. xs = map (Inr \<circ> he_value) S \<and>
     max_merge.holds_sorted (sm_n_sources st, sm_sources st, backward st, forward st) S)"

lemma sm_next_one_way: "one_way_iterator (sm_next cmp) holds_fwd"
proof unfold_locales
  fix st xs r st' assume h: "holds_fwd st xs" and step: "sm_next cmp st = (r, st')"
  obtain S where S: "xs = map (Inr \<circ> he_value) S"
    "min_merge.holds_sorted (sm_n_sources st, sm_sources st, forward st, backward st) S"
    using h by (auto simp: holds_fwd_def)
  obtain so f b where d: "step_direction pop_front (min_cmp cmp) (max_cmp cmp) (sm_n_sources st) (sm_sources st)
      (forward st) (backward st) = (r, so, f, b)" "st' = st\<lparr>sm_sources := so, forward := f, backward := b\<rparr>"
    using step by (auto simp: sm_next_def split: prod.splits)
  from min_merge.step_direction_law [OF S(2) d(1)] show "\<exists>xs'. holds_fwd st' xs' \<and> pop_front xs = (r, xs')"
    using S(1) d(2) by (auto simp: holds_fwd_def)
qed

lemma sm_next_back_one_way: "one_way_iterator (sm_next_back cmp) holds_bwd"
proof unfold_locales
  fix st xs r st' assume h: "holds_bwd st xs" and step: "sm_next_back cmp st = (r, st')"
  obtain S where S: "xs = map (Inr \<circ> he_value) S"
    "max_merge.holds_sorted (sm_n_sources st, sm_sources st, backward st, forward st) S"
    using h by (auto simp: holds_bwd_def)
  obtain so f b where d: "step_direction pop_back (max_cmp cmp) (min_cmp cmp) (sm_n_sources st) (sm_sources st)
      (backward st) (forward st) = (r, so, b, f)" "st' = st\<lparr>sm_sources := so, forward := f, backward := b\<rparr>"
    using step by (auto simp: sm_next_back_def split: prod.splits)
  from max_merge.step_direction_law [OF S(2) d(1)] show "\<exists>xs'. holds_bwd st' xs' \<and> pop_front xs = (r, xs')"
    using S(1) d(2) by (auto simp: holds_bwd_def)
qed

lemma tag_cmp: "heap_cmp cmp (tag j a) (tag j b) = Less \<longleftrightarrow> entry_before cmp a b"
  using heap_cmp_same_index [of "tag j a" "tag j b"] by simp

lemma ready_holds_fwd:
  assumes "sm_ready vss st" "\<forall>vs\<in>set vss. version_sorted cmp vs"
  shows "holds_fwd st (map (Inr \<circ> he_value) (sort_by (heap_cmp cmp) (tag_all 0 vss)))"
proof -
  have "min_merge.queue_sorted vss"
    unfolding min_merge.queue_sorted_def unfolding min_cmp_heap_cmp tag_cmp using assms(2) by simp
  moreover have "min_merge.waiting vss (sm_sources st) (forward st)"
    using assms(1) by (auto simp: sm_ready_def min_merge.waiting_def dir_shape_def)
  moreover have "sorted_wrt (\<lambda>a b. min_cmp cmp a b = Less) (sort_by (heap_cmp cmp) (tag_all 0 vss))"
    unfolding min_cmp_heap_cmp by (rule tag_all_strict [OF assms(2)])
  ultimately have "min_merge.holds_sorted (sm_n_sources st, sm_sources st, forward st, backward st)
      (sort_by (heap_cmp cmp) (tag_all 0 vss))"
    using assms(1)
    by (auto simp: min_merge.holds_sorted_def sm_ready_def min_merge.idle_def intro!: exI [of _ vss])
  then show ?thesis by (auto simp: holds_fwd_def)
qed

lemma mset_tag_all_rev: "mset (tag_all i (map rev vss)) = mset (tag_all i vss)"
  by (induction vss arbitrary: i) auto

lemma ready_holds_bwd:
  assumes "sm_ready vss st" "\<forall>vs\<in>set vss. version_sorted cmp vs"
  shows "holds_bwd st (map (Inr \<circ> he_value) (rev (sort_by (heap_cmp cmp) (tag_all 0 vss))))"
proof -
  have "max_merge.queue_sorted (map rev vss)"
    unfolding max_merge.queue_sorted_def max_cmp_heap_cmp tag_cmp using assms(2) by (simp add: sorted_wrt_rev)
  moreover have "max_merge.waiting (map rev vss) (sm_sources st) (backward st)"
    using assms(1) by (auto simp: sm_ready_def max_merge.waiting_def dir_shape_def o_def)
  moreover have "sorted_wrt (\<lambda>a b. max_cmp cmp a b = Less) (rev (sort_by (heap_cmp cmp) (tag_all 0 vss)))"
    using tag_all_strict [OF assms(2)] by (simp add: sorted_wrt_rev max_cmp_heap_cmp)
  ultimately have "max_merge.holds_sorted (sm_n_sources st, sm_sources st, backward st, forward st)
      (rev (sort_by (heap_cmp cmp) (tag_all 0 vss)))"
    using assms(1)
    by (auto simp: max_merge.holds_sorted_def sm_ready_def min_merge.idle_def max_merge.idle_def
      mset_tag_all_rev intro!: exI [of _ "map rev vss"])
  then show ?thesis unfolding holds_bwd_def by blast
qed

text \<open>Used in one direction, the seeking merger and the heap merger give the same items.\<close>

lemma sm_one_way_results:
  assumes "sm_ready vss st" "\<forall>vs\<in>set vss. version_sorted cmp vs"
  shows "fst (iter_run (sm_next cmp) (sm_next_back cmp) (replicate n d) st) =
    fst (iter_run (merger_next cmp) (merger_next_back cmp) (replicate n d) (merger_new (map (map Inr) vss)))"
proof -
  let ?xs = "map (Inr \<circ> he_value) (sort_by (heap_cmp cmp) (tag_all 0 vss)) :: item list"
  have merger: "fst (iter_run (merger_next cmp) (merger_next_back cmp) (replicate n d) (merger_new (map (map Inr) vss))) =
      fst (deque_run (replicate n d) ?xs)"
    using double_ended_iterator.run_results [OF merger_iterator, of "merger_new (map (map Inr) vss)" "replicate n d"]
      merger_new_ok [OF assms(2)] by auto
  show ?thesis
  proof (cases d)
    case Front
    from one_way_iterator.pull_run_results [OF sm_next_one_way ready_holds_fwd [OF assms], of n]
    show ?thesis using merger by (simp add: Front iter_run_one_way)
  next
    case Back
    from one_way_iterator.pull_run_results [OF sm_next_back_one_way ready_holds_bwd [OF assms], of n]
    show ?thesis using merger by (simp add: Back iter_run_one_way pull_run_back rev_map)
  qed
qed

end

interpretation sm_default: one_way_iterator "sm_next default_compare" default_cmp.holds_fwd
  by (rule default_cmp.sm_next_one_way)

interpretation sm_default_back: one_way_iterator "sm_next_back default_compare" default_cmp.holds_bwd
  by (rule default_cmp.sm_next_back_one_way)

text \<open>
  C13: used in one direction only, a fresh seeking merger over sorted error-free sources returns, call
  by call, exactly what the heap merger returns: the tournament tree is an optimisation.
\<close>

theorem seeking_merger_equals_merger:
  assumes "user_comparator c" "\<forall>vs\<in>set vss. version_sorted c vs"
  shows "fst (iter_run (sm_next c) (sm_next_back c) (replicate n d) (sm_new (map (map Inr) vss))) =
    fst (iter_run (merger_next c) (merger_next_back c) (replicate n d) (merger_new (map (map Inr) vss)))"
  by (rule user_comparator.sm_one_way_results [OF assms(1) user_comparator.sm_ready_new [OF assms(1)] assms(2)])

theorem seeking_merger_equals_merger_witness:
  "let e = (\<lambda>k s. \<lparr>key = \<lparr>user_key = [k], seqno = s, value_type = Value\<rparr>, val = []\<rparr>)
   in fst (iter_run (sm_next default_compare) (sm_next_back default_compare) (replicate 4 Back)
        (sm_new (map (map Inr) [[e 5 1], [e 1 2, e 3 4]]))) =
      fst (iter_run (merger_next default_compare) (merger_next_back default_compare) (replicate 4 Back)
        (merger_new (map (map Inr) [[e 5 1], [e 1 2, e 3 4]])))"
proof -
  define e where "e = (\<lambda>k s. \<lparr>key = \<lparr>user_key = [k], seqno = s, value_type = Value\<rparr>, val = []\<rparr>)"
  have "\<forall>vs\<in>set [[e 5 1], [e 1 2, e 3 4]]. version_sorted default_compare vs"
    by (simp add: e_def entry_before_def compare_with_def default_compare_def)
  from seeking_merger_equals_merger [OF user_comparator_default this]
  show ?thesis unfolding Let_def e_def [symmetric] by blast
qed

text \<open>
  C22: a reseek forgets the past. After any calls on any sources, errors and direction changes
  included, a merger repositioned over sorted sources behaves in one direction as a fresh one, although
  it refills the storage of its old trees in place.
\<close>

theorem seeking_merger_reseek_fresh:
  assumes "user_comparator c" "\<forall>vs\<in>set vss. version_sorted c vs"
    and st: "st = snd (iter_run (sm_next c) (sm_next_back c) ds (sm_new sources))"
    and seek: "map (seek ctx) (sm_sources st) = map (map Inr) vss"
  shows "fst (iter_run (sm_next c) (sm_next_back c) (replicate n d) (sm_reseek seek ctx st)) =
    fst (iter_run (sm_next c) (sm_next_back c) (replicate n d) (sm_new (map (map Inr) vss)))"
proof -
  note uc = assms(1)
  note shape = user_comparator.sm_run_shape [OF uc user_comparator.sm_new_shape [OF uc], of ds sources, folded st]
  note ready = user_comparator.sm_ready_reseek [where seek = seek and ctx = ctx, OF uc shape seek]
  from user_comparator.sm_one_way_results [OF uc ready assms(2)]
    user_comparator.sm_one_way_results [OF uc user_comparator.sm_ready_new [OF uc] assms(2)]
  show ?thesis by simp
qed

theorem seeking_merger_reseek_fresh_witness:
  "let e = (\<lambda>k s. \<lparr>key = \<lparr>user_key = [k], seqno = s, value_type = Value\<rparr>, val = []\<rparr>);
       back_to = (\<lambda>vs (_ :: item list). map Inr vs);
       st = snd (iter_run (sm_next default_compare) (sm_next_back default_compare) [Front, Back, Front] (sm_new [[Inr (e 5 1), Inr (e 7 1)]]))
   in fst (iter_run (sm_next default_compare) (sm_next_back default_compare) (replicate 3 Front) (sm_reseek back_to [e 1 2, e 3 4] st)) =
      fst (iter_run (sm_next default_compare) (sm_next_back default_compare) (replicate 3 Front) (sm_new (map (map Inr) [[e 1 2, e 3 4]])))"
proof -
  define e where "e = (\<lambda>k s. \<lparr>key = \<lparr>user_key = [k], seqno = s, value_type = Value\<rparr>, val = []\<rparr>)"
  define st where "st = snd (iter_run (sm_next default_compare) (sm_next_back default_compare) [Front, Back, Front]
    (sm_new [[Inr (e 5 1), Inr (e 7 1)]]))"
  have sorted: "\<forall>vs\<in>set [[e 1 2, e 3 4]]. version_sorted default_compare vs"
    by (simp add: e_def entry_before_def compare_with_def default_compare_def)
  have "sm_sources st = [[]]" unfolding st_def e_def by code_simp
  then have "map ((\<lambda>vs (_ :: item list). map Inr vs) [e 1 2, e 3 4]) (sm_sources st) = map (map Inr) [[e 1 2, e 3 4]]"
    by simp
  from seeking_merger_reseek_fresh [where seek = "\<lambda>vs _. map Inr vs" and ctx = "[e 1 2, e 3 4]",
      OF user_comparator_default sorted st_def this]
  show ?thesis unfolding Let_def e_def [symmetric] st_def [symmetric] by blast
qed


end
