(* ===== verification/Compaction_Stream.thy ===== *)
theory Compaction_Stream
  imports Mvcc_Stream
begin

text \<open>
  \<open>compaction/stream.rs\<close>: what flush and compaction do to a sorted stream of versions. The
  \<open>Peekable\<close> input is the list of its remaining items. The merge operator and the filter are
  parameters: a filter is a function on its own state. \<open>cs_dropped\<close> logs the calls of the drop
  callback, \<open>transform_marker\<close> is absent unless installed. Sequence numbers and the balance are
  \<open>u64\<close>s.
\<close>

subsection \<open>The stream\<close>

datatype filter_verdict = Keep | Replace value_type user_value | Drop

type_synonym 'f stream_filter = "'f \<Rightarrow> internal_value \<Rightarrow> (lsm_error + filter_verdict) \<times> 'f"

definition no_filter :: "unit stream_filter" where
  "no_filter f item = (Inr Keep, f)"

record 'f compaction_stream =
  cs_inner :: "item list"
  gc_seqno_threshold :: seqno
  cs_filter :: 'f
  cs_evict_tombstones :: bool
  cs_zero_seqnos :: bool
  cs_merge_operator :: "merge_fn option"
  cs_pending :: "internal_value list"
  rt_apply :: "range_tombstone list"
  rt_comparator :: "comparator option"
  rt_active :: "active_set option"
  rt_idx :: nat
  rt_sorted :: bool
  transform_marker :: "u64 option"
  gc_balance :: u64
  cs_dropped :: "internal_value list"

definition cs_new :: "item list \<Rightarrow> seqno \<Rightarrow> unit compaction_stream" where
  "cs_new iter threshold =
     \<lparr>cs_inner = iter, gc_seqno_threshold = threshold, cs_filter = (), cs_evict_tombstones = False,
      cs_zero_seqnos = False, cs_merge_operator = None, cs_pending = [], rt_apply = [],
      rt_comparator = None, rt_active = None, rt_idx = 0, rt_sorted = False,
      transform_marker = None, gc_balance = 0, cs_dropped = []\<rparr>"

definition evict_tombstones :: "bool \<Rightarrow> 'f compaction_stream \<Rightarrow> 'f compaction_stream" where
  "evict_tombstones b st = st\<lparr>cs_evict_tombstones := b\<rparr>"

definition with_transform_marker :: "u64 \<Rightarrow> 'f compaction_stream \<Rightarrow> 'f compaction_stream" where
  "with_transform_marker marker st = st\<lparr>transform_marker := Some marker\<rparr>"

definition with_merge_operator :: "merge_fn option \<Rightarrow> 'f compaction_stream \<Rightarrow> 'f compaction_stream" where
  "with_merge_operator op st = st\<lparr>cs_merge_operator := op\<rparr>"

definition zero_seqnos :: "bool \<Rightarrow> 'f compaction_stream \<Rightarrow> 'f compaction_stream" where
  "zero_seqnos b st = st\<lparr>cs_zero_seqnos := b\<rparr>"

definition with_range_tombstone_application ::
  "range_tombstone list \<Rightarrow> comparator \<Rightarrow> 'f compaction_stream \<Rightarrow> 'f compaction_stream" where
  "with_range_tombstone_application tombstones c st =
     st\<lparr>rt_apply := filter (\<lambda>rt. visible_at rt (gc_seqno_threshold st)) tombstones,
        rt_active := Some ats_new, rt_comparator := Some c\<rparr>"

subsection \<open>Accounting\<close>

definition note_transform :: "'f compaction_stream \<Rightarrow> 'f compaction_stream" where
  "note_transform st = st\<lparr>transform_marker := map_option (\<lambda>m. m + 1) (transform_marker st)\<rparr>"

definition settle :: "u64 \<Rightarrow> 'f compaction_stream \<Rightarrow> 'f compaction_stream" where
  "settle n st = (if n > 0 then st\<lparr>gc_balance := gc_balance st - n\<rparr> else st)"

definition on_dropped :: "internal_value \<Rightarrow> 'f compaction_stream \<Rightarrow> 'f compaction_stream" where
  "on_dropped kv st = st\<lparr>cs_dropped := cs_dropped st @ [kv]\<rparr>"

text \<open>\<open>CountingPeek::next\<close>: every version that leaves the input is counted.\<close>

definition count_taken :: "item option \<Rightarrow> 'f compaction_stream \<Rightarrow> 'f compaction_stream" where
  "count_taken taken st =
     (case taken of Some (Inr _) \<Rightarrow> st\<lparr>gc_balance := gc_balance st + 1\<rparr> | _ \<Rightarrow> st)"

definition take_next :: "'f compaction_stream \<Rightarrow> item option \<times> 'f compaction_stream" where
  "take_next st =
     (case pop_front (cs_inner st) of (taken, rest) \<Rightarrow> (taken, count_taken taken (st\<lparr>cs_inner := rest\<rparr>)))"

record drained =
  dr_total :: u64
  dr_all_tombstones :: bool

text \<open>
  \<open>drain_key\<close>, as a loop over the input: an item of another key ends it, an error is taken and
  returned.
\<close>

fun drain_loop ::
  "user_key \<Rightarrow> drained \<Rightarrow> item list \<Rightarrow> 'f compaction_stream \<Rightarrow> (lsm_error + drained) \<times> 'f compaction_stream" where
  "drain_loop k dr [] st = (Inr dr, st\<lparr>cs_inner := []\<rparr>)"
| "drain_loop k dr (x # xs) st =
     (case x of
        Inl e \<Rightarrow> (Inl e, st\<lparr>cs_inner := xs\<rparr>)
      | Inr kv \<Rightarrow>
          if same_user_key (ukey kv) k
          then drain_loop k \<lparr>dr_total = dr_total dr + 1, dr_all_tombstones = dr_all_tombstones dr \<and> is_tombstone kv\<rparr>
                 xs (count_taken (Some x) (on_dropped kv st))
          else (Inr dr, st\<lparr>cs_inner := x # xs\<rparr>))"

definition drain_key :: "user_key \<Rightarrow> 'f compaction_stream \<Rightarrow> (lsm_error + drained) \<times> 'f compaction_stream" where
  "drain_key k st = drain_loop k \<lparr>dr_total = 0, dr_all_tombstones = True\<rparr> (cs_inner st) st"

subsection \<open>Range tombstone application\<close>

text \<open>The result is \<open>None\<close> when \<open>expire_until\<close> panics.\<close>

definition covered_by_applied_tombstone ::
  "user_key \<Rightarrow> seqno \<Rightarrow> 'f compaction_stream \<Rightarrow> (bool \<times> 'f compaction_stream) option" where
  "covered_by_applied_tombstone k q st =
     (case (rt_comparator st, rt_active st) of
        (Some c, Some act) \<Rightarrow>
          (let ts = (if rt_sorted st then rt_apply st else sort_by (cmp_with_comparator c) (rt_apply st));
               (i, act1) = activate_while (\<lambda>rt. c (rt_start rt) k \<noteq> Greater) (ats_activate c)
                             (map (\<lambda>rt. (rt, - 1)) ts) (rt_idx st) act
           in case ats_expire_until c k act1 of
                None \<Rightarrow> None
              | Some act2 \<Rightarrow>
                  Some (is_suppressed act2 q,
                        st\<lparr>rt_apply := ts, rt_sorted := True, rt_idx := i, rt_active := Some act2\<rparr>))
      | _ \<Rightarrow> Some (False, st))"

subsection \<open>Merge operands\<close>

text \<open>
  How the collection loop of \<open>resolve_merge_operands\<close> ends: at a blob pointer, which cannot be merged
  with, or with operands to fold over a base. The flag is \<open>found_boundary\<close>.
\<close>

datatype collect_end = Bail "internal_value list" | Fold "internal_value list" "user_value option" bool

text \<open>A \<open>Value\<close> is the base of the merge, unless an applied range tombstone has deleted it.\<close>

definition take_base ::
  "user_key \<Rightarrow> internal_value list \<Rightarrow> internal_value \<Rightarrow> 'f compaction_stream \<Rightarrow>
   (lsm_error + collect_end) \<times> 'f compaction_stream" where
  "take_base k acc nx st =
     (case covered_by_applied_tombstone k (eseqno nx) st of
        None \<Rightarrow> (Inl Panicked, st)
      | Some (covered, st1) \<Rightarrow>
          (case drain_key k (if covered then note_transform (on_dropped nx st1) else st1) of
             (Inl e, st2) \<Rightarrow> (Inl e, st2)
           | (Inr _, st2) \<Rightarrow> (Inr (Fold acc (if covered then None else Some (val nx)) True), st2)))"

text \<open>A tombstone is a boundary without a base.\<close>

definition take_boundary ::
  "user_key \<Rightarrow> internal_value list \<Rightarrow> internal_value \<Rightarrow> 'f compaction_stream \<Rightarrow>
   (lsm_error + collect_end) \<times> 'f compaction_stream" where
  "take_boundary k acc nx st =
     (case drain_key k (note_transform (on_dropped nx st)) of
        (Inl e, st1) \<Rightarrow> (Inl e, st1)
      | (Inr dr, st1) \<Rightarrow>
          (Inr (Fold acc None True),
           if cs_evict_tombstones st1 \<and> dr_all_tombstones dr then settle (dr_total dr + 1) st1 else st1))"

fun collect_loop ::
  "user_key \<Rightarrow> internal_value list \<Rightarrow> item list \<Rightarrow> 'f compaction_stream \<Rightarrow>
   (lsm_error + collect_end) \<times> 'f compaction_stream" where
  "collect_loop k acc [] st = (Inr (Fold acc None False), st\<lparr>cs_inner := []\<rparr>)"
| "collect_loop k acc (x # xs) st =
     (case x of
        Inl e \<Rightarrow> (Inl e, st\<lparr>cs_inner := xs\<rparr>)
      | Inr nx \<Rightarrow>
          if \<not> same_user_key (ukey nx) k then (Inr (Fold acc None False), st\<lparr>cs_inner := x # xs\<rparr>)
          else if etype nx = Indirection then (Inr (Bail acc), st\<lparr>cs_inner := x # xs\<rparr>)
          else (let st1 = count_taken (Some x) (st\<lparr>cs_inner := xs\<rparr>)
                in if etype nx = MergeOperand then collect_loop k (acc @ [nx]) xs st1
                   else if etype nx = Value then take_base k acc nx st1
                   else take_boundary k acc nx st1))"

fun retain_uncovered ::
  "internal_value list \<Rightarrow> 'f compaction_stream \<Rightarrow> (internal_value list \<times> 'f compaction_stream) option" where
  "retain_uncovered [] st = Some ([], st)"
| "retain_uncovered (e # es) st =
     (case covered_by_applied_tombstone (ukey e) (eseqno e) st of
        None \<Rightarrow> None
      | Some (covered, st1) \<Rightarrow>
          (case retain_uncovered es (if covered then note_transform (on_dropped e st1) else st1) of
             None \<Rightarrow> None
           | Some (kept, st2) \<Rightarrow> Some (if covered then kept else e # kept, st2)))"

definition resolve_merge_operands ::
  "internal_value \<Rightarrow> merge_fn \<Rightarrow> 'f compaction_stream \<Rightarrow> item \<times> 'f compaction_stream" where
  "resolve_merge_operands head merge_op st =
     (case collect_loop (ukey head) [head] (cs_inner st) st of
        (Inl e, st1) \<Rightarrow> (Inl e, st1)
      | (Inr (Bail collected), st1) \<Rightarrow>
          (Inr (hd collected), st1\<lparr>cs_pending := cs_pending st1 @ tl collected\<rparr>)
      | (Inr (Fold collected base found_boundary), st1) \<Rightarrow>
          (case retain_uncovered collected st1 of
             None \<Rightarrow> (Inl Panicked, st1)
           | Some (kept, st2) \<Rightarrow>
               (case merge_op (ukey head) base (rev (map val kept)) of
                  Inl e \<Rightarrow> (Inl e, st2)
                | Inr merged \<Rightarrow>
                    (from_components (ukey head) merged (eseqno head)
                       (if found_boundary then Value else MergeOperand), st2))))"

definition resolve_with_operator ::
  "internal_value \<Rightarrow> 'f compaction_stream \<Rightarrow> item \<times> 'f compaction_stream" where
  "resolve_with_operator head st =
     (case cs_merge_operator st of
        None \<Rightarrow> (Inr head, st)
      | Some merge_op \<Rightarrow> resolve_merge_operands head merge_op st)"

subsection \<open>One version\<close>

text \<open>An iteration of the loop of \<open>next_inner\<close> returns or continues.\<close>

datatype cs_outcome = Return "item option" | Continue

text \<open>The tail of the loop body: range tombstone application, zeroing, return.\<close>

definition emit_head :: "internal_value \<Rightarrow> 'f compaction_stream \<Rightarrow> cs_outcome \<times> 'f compaction_stream" where
  "emit_head head st =
     (case covered_by_applied_tombstone (ukey head) (eseqno head) st of
        None \<Rightarrow> (Return (Some (Inl Panicked)), st)
      | Some (True, st1) \<Rightarrow> (Continue, note_transform (on_dropped head st1))
      | Some (False, st1) \<Rightarrow>
          (Return (Some (Inr
             (if cs_zero_seqnos st1 \<and> eseqno head < gc_seqno_threshold st1 \<and> etype head \<noteq> MergeOperand
              then head\<lparr>key := (key head)\<lparr>seqno := 0\<rparr>\<rparr> else head))), st1))"

definition emit_resolved :: "item \<times> 'f compaction_stream \<Rightarrow> cs_outcome \<times> 'f compaction_stream" where
  "emit_resolved r =
     (case r of (Inl e, st) \<Rightarrow> (Return (Some (Inl e)), st) | (Inr head, st) \<Rightarrow> emit_head head st)"

definition filter_head ::
  "'f stream_filter \<Rightarrow> internal_value \<Rightarrow> 'f compaction_stream \<Rightarrow>
   (lsm_error + internal_value option) \<times> 'f compaction_stream" where
  "filter_head filt head st =
     (if is_tombstone head then (Inr (Some head), st)
      else (case filt (cs_filter st) head of
              (Inl e, f) \<Rightarrow> (Inl e, st\<lparr>cs_filter := f\<rparr>)
            | (Inr Keep, f) \<Rightarrow> (Inr (Some head), st\<lparr>cs_filter := f\<rparr>)
            | (Inr (Replace new_type new_value), f) \<Rightarrow>
                (let replaced = head\<lparr>val := new_value\<rparr>
                 in (Inr (Some (if etype head = MergeOperand \<and> new_type = Value then replaced
                                else replaced\<lparr>key := (key replaced)\<lparr>value_type := new_type\<rparr>\<rparr>)),
                     on_dropped head (st\<lparr>cs_filter := f\<rparr>)))
            | (Inr Drop, f) \<Rightarrow> (Inr None, on_dropped head (st\<lparr>cs_filter := f\<rparr>))))"

text \<open>A tombstone with nothing of its key after it, at the bottom level.\<close>

definition drop_lone_tombstone :: "'f compaction_stream \<Rightarrow> cs_outcome \<times> 'f compaction_stream" where
  "drop_lone_tombstone st = (Continue, settle 1 (note_transform st))"

definition foldable_operand :: "internal_value \<Rightarrow> 'f compaction_stream \<Rightarrow> bool" where
  "foldable_operand head st \<longleftrightarrow>
     etype head = MergeOperand \<and> eseqno head < gc_seqno_threshold st \<and> cs_merge_operator st \<noteq> None"

definition collapse_head :: "internal_value \<Rightarrow> 'f compaction_stream \<Rightarrow> cs_outcome \<times> 'f compaction_stream" where
  "collapse_head head st =
     (case cs_inner st of
        [] \<Rightarrow>
          if is_tombstone head \<and> cs_evict_tombstones st then drop_lone_tombstone st
          else if foldable_operand head st then emit_resolved (resolve_with_operator head st)
          else emit_head head st
      | Inl e # xs \<Rightarrow> (Return (Some (Inl e)), st\<lparr>cs_inner := xs\<rparr>)
      | Inr peeked # _ \<Rightarrow>
          if \<not> same_user_key (ukey peeked) (ukey head)
          then (if is_tombstone head \<and> cs_evict_tombstones st then drop_lone_tombstone st
                else if foldable_operand head st then emit_resolved (resolve_with_operator head st)
                else emit_head head st)
          else if etype head = Tombstone \<and> cs_evict_tombstones st \<and> eseqno head < gc_seqno_threshold st
          then (case drain_key (ukey head) (note_transform st) of
                  (Inl e, st1) \<Rightarrow> (Return (Some (Inl e)), st1)
                | (Inr dr, st1) \<Rightarrow>
                    (Continue, if dr_all_tombstones dr then settle (dr_total dr + 1) st1 else st1))
          else if etype head = WeakTombstone \<and> etype peeked = Value \<and> eseqno head < gc_seqno_threshold st
          then (case drain_key (ukey head) st of
                  (Inl e, st1) \<Rightarrow> (Return (Some (Inl e)), st1)
                | (Inr _, st1) \<Rightarrow> (Continue, note_transform st1))
          else if eseqno peeked < gc_seqno_threshold st
          then (if etype head = MergeOperand
                then (if foldable_operand head st then emit_resolved (resolve_with_operator head st)
                      else emit_head head st)
                else if eseqno head < gc_seqno_threshold st
                then (case drain_key (ukey head) st of
                        (Inl e, st1) \<Rightarrow> (Return (Some (Inl e)), st1)
                      | (Inr dr, st1) \<Rightarrow>
                          emit_head head
                            (if cs_evict_tombstones st1 \<and> dr_all_tombstones dr then settle (dr_total dr) st1
                             else st1))
                else emit_head head st)
          else emit_head head st)"

definition cs_step :: "'f stream_filter \<Rightarrow> 'f compaction_stream \<Rightarrow> cs_outcome \<times> 'f compaction_stream" where
  "cs_step filt st =
     (let (nx, st0) = (case cs_pending st of
                         e # es \<Rightarrow> (Some (Inr e), st\<lparr>cs_pending := es\<rparr>)
                       | [] \<Rightarrow> take_next st)
      in case nx of
           None \<Rightarrow> (Return None, st0)
         | Some (Inl e) \<Rightarrow> (Return (Some (Inl e)), st0)
         | Some (Inr head) \<Rightarrow>
             (case filter_head filt head st0 of
                (Inl e, st1) \<Rightarrow> (Return (Some (Inl e)), st1)
              | (Inr None, st1) \<Rightarrow> (Continue, st1)
              | (Inr (Some head'), st1) \<Rightarrow> collapse_head head' st1))"

subsection \<open>The loop ends\<close>

text \<open>
  An iteration takes one version, from the pending ones or from the input. A version moved from the
  input to the pending ones by a bail-out is taken twice, hence the weight two.
\<close>

definition cs_size :: "'f compaction_stream \<Rightarrow> nat" where
  "cs_size st = 2 * length (cs_inner st) + length (cs_pending st)"

lemma cs_frame [simp]:
  "cs_inner (note_transform st) = cs_inner st" "cs_pending (note_transform st) = cs_pending st"
  "cs_inner (settle n st) = cs_inner st" "cs_pending (settle n st) = cs_pending st"
  "cs_inner (on_dropped kv st) = cs_inner st" "cs_pending (on_dropped kv st) = cs_pending st"
  "cs_inner (count_taken x st) = cs_inner st" "cs_pending (count_taken x st) = cs_pending st"
  by (simp_all add: note_transform_def settle_def on_dropped_def count_taken_def split: option.splits sum.splits)

lemma covered_frame:
  assumes "covered_by_applied_tombstone k q st = Some (b, st')"
  shows "cs_inner st' = cs_inner st" "cs_pending st' = cs_pending st"
  using assms by (auto simp: covered_by_applied_tombstone_def Let_def split: option.splits prod.splits)

lemma drain_loop_size:
  "drain_loop k dr xs st = (r, st') \<Longrightarrow> length (cs_inner st') \<le> length xs \<and> cs_pending st' = cs_pending st"
proof (induction xs arbitrary: dr st)
  case (Cons x xs)
  show ?case
  proof (cases x)
    case (Inl e)
    then show ?thesis using Cons.prems by auto
  next
    case (Inr kv)
    then show ?thesis
      using Cons.prems Cons.IH
      by (cases "same_user_key (ukey kv) k") (fastforce simp: le_SucI)+
  qed
qed auto

lemma drain_key_size:
  "drain_key k st = (r, st') \<Longrightarrow> length (cs_inner st') \<le> length (cs_inner st) \<and> cs_pending st' = cs_pending st"
  unfolding drain_key_def by (rule drain_loop_size)

lemma retain_frame:
  "retain_uncovered es st = Some (kept, st') \<Longrightarrow> cs_inner st' = cs_inner st \<and> cs_pending st' = cs_pending st"
proof (induction es arbitrary: st kept)
  case (Cons e es)
  obtain b st1 where c: "covered_by_applied_tombstone (ukey e) (eseqno e) st = Some (b, st1)"
    using Cons.prems by (cases "covered_by_applied_tombstone (ukey e) (eseqno e) st") auto
  obtain kept1 where r: "retain_uncovered es (if b then note_transform (on_dropped e st1) else st1) = Some (kept1, st')"
    using Cons.prems c by (auto split: option.splits prod.splits)
  show ?case using Cons.IH [OF r] covered_frame [OF c] by (simp split: if_splits)
qed auto

lemma take_base_size:
  assumes "take_base k acc nx st = (r, st')"
  shows "length (cs_inner st') \<le> length (cs_inner st) \<and> cs_pending st' = cs_pending st \<and>
    (\<forall>es. r \<noteq> Inr (Bail es))"
proof (cases "covered_by_applied_tombstone k (eseqno nx) st")
  case (Some x)
  obtain b st2 where x: "x = (b, st2)" by (rule prod.exhaust)
  define st3 where "st3 = (if b then note_transform (on_dropped nx st2) else st2)"
  have f: "cs_inner st3 = cs_inner st" "cs_pending st3 = cs_pending st"
    using covered_frame [OF Some [unfolded x]] by (simp_all add: st3_def)
  obtain r4 st4 where d: "drain_key k st3 = (r4, st4)" by (rule prod.exhaust)
  have "st' = st4 \<and> (\<forall>es. r \<noteq> Inr (Bail es))"
    using assms Some x d by (cases r4) (auto simp: take_base_def st3_def)
  then show ?thesis using drain_key_size [OF d] f by simp
qed (use assms in \<open>auto simp: take_base_def\<close>)

lemma take_boundary_size:
  assumes "take_boundary k acc nx st = (r, st')"
  shows "length (cs_inner st') \<le> length (cs_inner st) \<and> cs_pending st' = cs_pending st \<and>
    (\<forall>es. r \<noteq> Inr (Bail es))"
proof -
  obtain rd st2 where d: "drain_key k (note_transform (on_dropped nx st)) = (rd, st2)" by (rule prod.exhaust)
  with assms have "cs_inner st' = cs_inner st2" "cs_pending st' = cs_pending st2" "\<forall>es. r \<noteq> Inr (Bail es)"
    by (auto simp: take_boundary_def split: sum.splits if_splits)
  with drain_key_size [OF d] show ?thesis by simp
qed

lemma collect_loop_size:
  "collect_loop k acc xs st = (r, st') \<Longrightarrow>
   cs_pending st' = cs_pending st \<and> length (cs_inner st') \<le> length xs \<and>
   (case r of Inr (Bail es) \<Rightarrow> length es + length (cs_inner st') = length acc + length xs \<and> take (length acc) es = acc | _ \<Rightarrow> True)"
proof (induction xs arbitrary: acc st)
  case (Cons x xs)
  show ?case
  proof (cases x)
    case (Inl e)
    then show ?thesis using Cons.prems by auto
  next
    case (Inr nx)
    define st1 where "st1 = count_taken (Some x) (st\<lparr>cs_inner := xs\<rparr>)"
    have st1: "cs_inner st1 = xs" "cs_pending st1 = cs_pending st" by (simp_all add: st1_def)
    consider (other) "\<not> same_user_key (ukey nx) k" | (bail) "same_user_key (ukey nx) k" "etype nx = Indirection"
      | (operand) "same_user_key (ukey nx) k" "etype nx = MergeOperand"
      | (base) "same_user_key (ukey nx) k" "etype nx = Value"
      | (tomb) "same_user_key (ukey nx) k" "etype nx = Tombstone \<or> etype nx = WeakTombstone"
      by (metis value_type.exhaust)
    then show ?thesis
    proof cases
      case operand
      then have "collect_loop k (acc @ [nx]) xs st1 = (r, st')" using Cons.prems Inr by (simp add: st1_def)
      from Cons.IH [OF this] st1 show ?thesis
        by (auto split: sum.splits collect_end.splits dest: arg_cong [where f = "take (length acc)"] simp: min_def)
    next
      case base
      then have "take_base k acc nx st1 = (r, st')" using Cons.prems Inr by (simp add: st1_def)
      from take_base_size [OF this] st1 show ?thesis by (auto split: sum.splits collect_end.splits)
    next
      case tomb
      then have "take_boundary k acc nx st1 = (r, st')" using Cons.prems Inr by (auto simp: st1_def)
      from take_boundary_size [OF this] st1 show ?thesis by (auto split: sum.splits collect_end.splits)
    qed (use Cons.prems Inr in auto)
  qed
qed auto

lemma cs_size_simps [simp]:
  "cs_size (note_transform st) = cs_size st" "cs_size (settle n st) = cs_size st"
  "cs_size (on_dropped kv st) = cs_size st" "cs_size (st\<lparr>cs_filter := f\<rparr>) = cs_size st"
  by (simp_all add: cs_size_def)

lemma drain_key_cs_size: "drain_key k st = (r, st') \<Longrightarrow> cs_size st' \<le> cs_size st"
  using drain_key_size [of k st r st'] by (simp add: cs_size_def)

lemma covered_cs_size: "covered_by_applied_tombstone k q st = Some (b, st') \<Longrightarrow> cs_size st' = cs_size st"
  using covered_frame [of k q st b st'] by (simp add: cs_size_def)

lemma resolve_cs_size:
  assumes "resolve_with_operator head st = (r, st')"
  shows "cs_size st' \<le> cs_size st"
proof (cases "cs_merge_operator st")
  case (Some op)
  obtain rc st1 where c: "collect_loop (ukey head) [head] (cs_inner st) st = (rc, st1)" by (rule prod.exhaust)
  note size = collect_loop_size [OF c]
  have res: "resolve_merge_operands head op st = (r, st')" using assms Some by (simp add: resolve_with_operator_def)
  show ?thesis
  proof (cases rc)
    case (Inl e)
    then show ?thesis using res c size by (simp add: resolve_merge_operands_def cs_size_def)
  next
    case (Inr ce)
    show ?thesis
    proof (cases ce)
      case (Bail es)
      then show ?thesis using res c size Inr by (auto simp: resolve_merge_operands_def cs_size_def)
    next
      case (Fold es base found)
      note res = res [unfolded resolve_merge_operands_def c Inr Fold prod.case sum.case collect_end.case]
      have "cs_inner st' = cs_inner st1 \<and> cs_pending st' = cs_pending st1"
      proof (cases "retain_uncovered es st1")
        case (Some x)
        obtain kept st2 where x: "x = (kept, st2)" by (rule prod.exhaust)
        have "st' = st2" using res Some x by (cases "op (ukey head) base (rev (map val kept))") auto
        then show ?thesis using retain_frame Some x by blast
      qed (use res in simp)
      then show ?thesis using size by (simp add: cs_size_def)
    qed
  qed
qed (use assms in \<open>simp add: resolve_with_operator_def\<close>)

lemma emit_head_cs_size: "emit_head head st = (r, st') \<Longrightarrow> cs_size st' = cs_size st"
  using covered_cs_size [of "ukey head" "eseqno head" st]
  by (auto simp: emit_head_def split: option.splits bool.splits)

lemma emit_resolved_cs_size:
  assumes "emit_resolved (resolve_with_operator head st) = (r, st')"
  shows "cs_size st' \<le> cs_size st"
proof -
  obtain x st1 where x: "resolve_with_operator head st = (x, st1)" by (rule prod.exhaust)
  from resolve_cs_size [OF x] assms x show ?thesis
    by (cases x) (auto simp: emit_resolved_def dest: emit_head_cs_size)
qed

lemma collapse_head_cs_size:
  assumes "collapse_head head st = (r, st')"
  shows "cs_size st' \<le> cs_size st"
proof -
  have lone: "drop_lone_tombstone st = (r, st') \<Longrightarrow> cs_size st' \<le> cs_size st"
    by (auto simp: drop_lone_tombstone_def)
  have emit: "emit_head head st = (r, st') \<Longrightarrow> cs_size st' \<le> cs_size st"
    by (simp add: emit_head_cs_size)
  note rules = lone emit emit_resolved_cs_size [of head st r st']
  consider "cs_inner st = []" | e xs where "cs_inner st = Inl e # xs" | p xs where "cs_inner st = Inr p # xs"
    by (metis list.exhaust sum.exhaust)
  then show ?thesis
  proof cases
    case 1
    with assms rules show ?thesis unfolding collapse_head_def by (simp split: if_splits)
  next
    case 2
    then show ?thesis using assms by (auto simp: collapse_head_def cs_size_def)
  next
    case (3 p xs)
    obtain rd1 s1 where d1: "drain_key (ukey head) (note_transform st) = (rd1, s1)" by (rule prod.exhaust)
    obtain rd2 s2 where d2: "drain_key (ukey head) st = (rd2, s2)" by (rule prod.exhaust)
    define s3 where "s3 = (\<lambda>dr :: drained. if cs_evict_tombstones s2 \<and> dr_all_tombstones dr then settle (dr_total dr) s2 else s2)"
    have s3: "cs_size (s3 dr) = cs_size s2" for dr by (simp add: s3_def)
    have e3: "emit_head head (s3 dr) = (r, st') \<Longrightarrow> cs_size st' = cs_size s2" for dr
      using emit_head_cs_size [of head "s3 dr" r st'] s3 by simp
    have a: "cs_size s1 \<le> cs_size st" "cs_size s2 \<le> cs_size st"
      using drain_key_cs_size [OF d1] drain_key_cs_size [OF d2] by simp_all
    have t: "(case rd1 of Inl e \<Rightarrow> (Return (Some (Inl e)), s1)
        | Inr dr \<Rightarrow> (Continue, if dr_all_tombstones dr then settle (dr_total dr + 1) s1 else s1)) = (r, st') \<Longrightarrow>
        cs_size st' \<le> cs_size st"
      using a(1) by (cases rd1) auto
    have w: "(case rd2 of Inl e \<Rightarrow> (Return (Some (Inl e)), s2) | Inr _ \<Rightarrow> (Continue, note_transform s2)) = (r, st') \<Longrightarrow>
        cs_size st' \<le> cs_size st"
      using a(2) by (cases rd2) auto
    have g: "(case rd2 of Inl e \<Rightarrow> (Return (Some (Inl e)), s2) | Inr dr \<Rightarrow> emit_head head (s3 dr)) = (r, st') \<Longrightarrow>
        cs_size st' \<le> cs_size st"
      using a(2) e3 by (cases rd2) auto
    note eq = assms [unfolded collapse_head_def 3 list.case sum.case d1 d2 prod.case]
    show ?thesis using eq rules t w g [unfolded s3_def] by (simp only: split: if_split_asm)
  qed
qed

lemma filter_head_cs_size: "filter_head filt head st = (r, st') \<Longrightarrow> cs_size st' = cs_size st"
  by (auto simp: filter_head_def Let_def split: if_splits prod.splits sum.splits filter_verdict.splits)

lemma cs_step_decreases:
  assumes "cs_step filt st = (Continue, st')"
  shows "cs_size st' < cs_size st"
proof -
  obtain nx st0 where n: "(case cs_pending st of e # es \<Rightarrow> (Some (Inr e), st\<lparr>cs_pending := es\<rparr>) | [] \<Rightarrow> take_next st) = (nx, st0)"
    by (rule prod.exhaust)
  obtain head where head: "nx = Some (Inr head)"
    using assms n by (cases nx rule: option.exhaust; cases "the nx") (auto simp: cs_step_def)
  have small: "cs_size st0 < cs_size st"
    using n head by (cases "cs_pending st"; cases "cs_inner st") (auto simp: take_next_def cs_size_def)
  obtain r1 st1 where f: "filter_head filt head st0 = (r1, st1)" by (rule prod.exhaust)
  note f_size = filter_head_cs_size [OF f]
  show ?thesis
    using assms n head f small f_size
    by (auto simp: cs_step_def split: sum.splits option.splits dest: collapse_head_cs_size)
qed

function cs_next_inner :: "'f stream_filter \<Rightarrow> 'f compaction_stream \<Rightarrow> item option \<times> 'f compaction_stream" where
  "cs_next_inner filt st =
     (case cs_step filt st of
        (Return r, st') \<Rightarrow> (r, st')
      | (Continue, st') \<Rightarrow> cs_next_inner filt st')"
  by pat_completeness auto
termination
  by (relation "measure (\<lambda>(_, st). cs_size st)") (auto dest: cs_step_decreases [OF sym])

declare cs_next_inner.simps [simp del]

definition cs_next :: "'f stream_filter \<Rightarrow> 'f compaction_stream \<Rightarrow> item option \<times> 'f compaction_stream" where
  "cs_next filt st =
     (case cs_next_inner filt st of
        (Some (Inr v), st') \<Rightarrow> (Some (Inr v), settle 1 st')
      | r \<Rightarrow> r)"

subsection \<open>The specification: what is kept of the versions of a key\<close>

record gc_rules =
  gr_threshold :: seqno
  gr_evict :: bool
  gr_zero :: bool
  gr_operator :: "merge_fn option"
  gr_covers :: "user_key \<Rightarrow> seqno \<Rightarrow> bool"

abbreviation gr_old :: "gc_rules \<Rightarrow> internal_value \<Rightarrow> bool" where
  "gr_old R v \<equiv> eseqno v < gr_threshold R"

abbreviation gr_covered :: "gc_rules \<Rightarrow> internal_value \<Rightarrow> bool" where
  "gr_covered R v \<equiv> gr_covers R (ukey v) (eseqno v)"

abbreviation is_operand :: "internal_value \<Rightarrow> bool" where
  "is_operand v \<equiv> etype v = MergeOperand"

definition gr_foldable :: "gc_rules \<Rightarrow> internal_value \<Rightarrow> bool" where
  "gr_foldable R v \<longleftrightarrow> is_operand v \<and> gr_old R v \<and> gr_operator R \<noteq> None"

definition gc_zeroed :: "gc_rules \<Rightarrow> internal_value \<Rightarrow> internal_value" where
  "gc_zeroed R v =
     (if gr_zero R \<and> gr_old R v \<and> \<not> is_operand v then v\<lparr>key := (key v)\<lparr>seqno := 0\<rparr>\<rparr> else v)"

definition gc_emit :: "gc_rules \<Rightarrow> internal_value \<Rightarrow> item list" where
  "gc_emit R v = (if gr_covered R v then [] else [Inr (gc_zeroed R v)])"

definition gc_emit_item :: "gc_rules \<Rightarrow> item \<Rightarrow> item list" where
  "gc_emit_item R x = (case x of Inl e \<Rightarrow> [Inl e] | Inr v \<Rightarrow> gc_emit R v)"

text \<open>Operands \<open>ops\<close>, newest first, over the versions \<open>rest\<close> below them.\<close>

definition gc_base :: "gc_rules \<Rightarrow> internal_value list \<Rightarrow> user_value option" where
  "gc_base R rest =
     (case rest of v # _ \<Rightarrow> if etype v = Value \<and> \<not> gr_covered R v then Some (val v) else None | [] \<Rightarrow> None)"

definition gc_merged :: "gc_rules \<Rightarrow> internal_value list \<Rightarrow> internal_value list \<Rightarrow> item" where
  "gc_merged R ops rest =
     (let h = hd ops in
      case the (gr_operator R) (ukey h) (gc_base R rest)
             (rev (map val (filter (\<lambda>v. \<not> gr_covered R v) ops))) of
        Inl e \<Rightarrow> Inl e
      | Inr merged \<Rightarrow>
          from_components (ukey h) merged (eseqno h) (if rest \<noteq> [] then Value else MergeOperand))"

definition blob_base :: "internal_value list \<Rightarrow> bool" where
  "blob_base rest \<longleftrightarrow> rest \<noteq> [] \<and> etype (hd rest) = Indirection"

function gc_versions :: "gc_rules \<Rightarrow> internal_value list \<Rightarrow> item list" where
  "gc_versions R [] = []"
| "gc_versions R (h # vs) =
     (if vs = []
      then (if is_tombstone h \<and> gr_evict R then []
            else if gr_foldable R h then gc_emit_item R (gc_merged R [h] [])
            else gc_emit R h)
      else if etype h = Tombstone \<and> gr_evict R \<and> gr_old R h then []
      else if etype h = WeakTombstone \<and> etype (hd vs) = Value \<and> gr_old R h then []
      else if gr_old R (hd vs) \<and> gr_foldable R h
      then (if blob_base (dropWhile is_operand vs)
            then concat (map (gc_emit R) (h # takeWhile is_operand vs)) @
              gc_versions R (dropWhile is_operand vs)
            else gc_emit_item R (gc_merged R (h # takeWhile is_operand vs) (dropWhile is_operand vs)))
      else if gr_old R (hd vs) \<and> \<not> is_operand h \<and> gr_old R h then gc_emit R h
      else gc_emit R h @ gc_versions R vs)"
  by pat_completeness auto
termination
  by (relation "measure (\<lambda>(_, vs). length vs)") (auto simp: le_imp_less_Suc length_dropWhile_le)

declare gc_versions.simps(2) [simp del]

definition gc_output :: "gc_rules \<Rightarrow> internal_value list \<Rightarrow> item list" where
  "gc_output R vs = concat (map (gc_versions R) (key_groups vs))"

subsection \<open>Refinement\<close>

definition cs_cfg :: "gc_rules \<Rightarrow> 'f compaction_stream \<Rightarrow> bool" where
  "cs_cfg R st \<longleftrightarrow> gc_seqno_threshold st = gr_threshold R \<and> cs_evict_tombstones st = gr_evict R \<and>
     cs_zero_seqnos st = gr_zero R \<and> cs_merge_operator st = gr_operator R"

lemma frame_fields [simp]:
  "gc_seqno_threshold (note_transform st) = gc_seqno_threshold st" "gc_seqno_threshold (settle n st) = gc_seqno_threshold st"
  "gc_seqno_threshold (on_dropped kv st) = gc_seqno_threshold st" "gc_seqno_threshold (count_taken x st) = gc_seqno_threshold st"
  "cs_evict_tombstones (note_transform st) = cs_evict_tombstones st" "cs_evict_tombstones (settle n st) = cs_evict_tombstones st"
  "cs_evict_tombstones (on_dropped kv st) = cs_evict_tombstones st" "cs_evict_tombstones (count_taken x st) = cs_evict_tombstones st"
  "cs_zero_seqnos (note_transform st) = cs_zero_seqnos st" "cs_zero_seqnos (settle n st) = cs_zero_seqnos st"
  "cs_zero_seqnos (on_dropped kv st) = cs_zero_seqnos st" "cs_zero_seqnos (count_taken x st) = cs_zero_seqnos st"
  "cs_merge_operator (note_transform st) = cs_merge_operator st" "cs_merge_operator (settle n st) = cs_merge_operator st"
  "cs_merge_operator (on_dropped kv st) = cs_merge_operator st" "cs_merge_operator (count_taken x st) = cs_merge_operator st"
  "rt_apply (note_transform st) = rt_apply st" "rt_apply (settle n st) = rt_apply st"
  "rt_apply (on_dropped kv st) = rt_apply st" "rt_apply (count_taken x st) = rt_apply st"
  "rt_comparator (note_transform st) = rt_comparator st" "rt_comparator (settle n st) = rt_comparator st"
  "rt_comparator (on_dropped kv st) = rt_comparator st" "rt_comparator (count_taken x st) = rt_comparator st"
  "rt_active (note_transform st) = rt_active st" "rt_active (settle n st) = rt_active st"
  "rt_active (on_dropped kv st) = rt_active st" "rt_active (count_taken x st) = rt_active st"
  "rt_idx (note_transform st) = rt_idx st" "rt_idx (settle n st) = rt_idx st"
  "rt_idx (on_dropped kv st) = rt_idx st" "rt_idx (count_taken x st) = rt_idx st"
  "rt_sorted (note_transform st) = rt_sorted st" "rt_sorted (settle n st) = rt_sorted st"
  "rt_sorted (on_dropped kv st) = rt_sorted st" "rt_sorted (count_taken x st) = rt_sorted st"
  by (simp_all add: note_transform_def settle_def on_dropped_def count_taken_def split: option.splits sum.splits)

context user_comparator begin

text \<open>
  \<open>rt_ok R lo st\<close>: the sweep over the applied tombstones has reached key \<open>lo\<close>, and the rules' coverage is
  theirs. \<open>ready R k st\<close>: the stream may be asked about key \<open>k\<close> and later ones.
\<close>

definition rt_ok :: "gc_rules \<Rightarrow> user_key option \<Rightarrow> 'f compaction_stream \<Rightarrow> bool" where
  "rt_ok R lo st \<longleftrightarrow>
     (case (rt_comparator st, rt_active st) of
        (Some c, Some act) \<Rightarrow>
          c = cmp \<and> (\<forall>rt\<in>set (rt_apply st). visible_at rt (- 1)) \<and>
          (\<forall>k q. gr_covers R k q \<longleftrightarrow> (\<exists>rt\<in>set (rt_apply st). contains_key_with cmp rt k \<and> q < rt_seqno rt)) \<and>
          (if rt_sorted st
           then sorted_wrt (\<lambda>a b. cmp_with_comparator cmp a b \<noteq> Greater) (rt_apply st) \<and>
             fwd.swept (map (\<lambda>rt. (rt, - 1)) (rt_apply st)) (rt_idx st) lo act
           else lo = None \<and> rt_idx st = 0 \<and> act = ats_new \<and> length (rt_apply st) < 2 ^ 32)
      | _ \<Rightarrow> \<forall>k q. \<not> gr_covers R k q)"

definition ready :: "gc_rules \<Rightarrow> user_key \<Rightarrow> 'f compaction_stream \<Rightarrow> bool" where
  "ready R k st \<longleftrightarrow> cs_cfg R st \<and> (\<exists>lo. rt_ok R lo st \<and> (\<forall>l. lo = Some l \<longrightarrow> kle cmp l k))"

lemma ready_simps [simp]:
  "ready R k (note_transform st) = ready R k st" "ready R k (settle n st) = ready R k st"
  "ready R k (on_dropped kv st) = ready R k st" "ready R k (count_taken x st) = ready R k st"
  "ready R k (st\<lparr>cs_inner := xs\<rparr>) = ready R k st" "ready R k (st\<lparr>cs_pending := ps\<rparr>) = ready R k st"
  "ready R k (st\<lparr>cs_filter := f\<rparr>) = ready R k st"
  by (cases "rt_comparator st"; cases "rt_active st"; simp add: ready_def rt_ok_def cs_cfg_def)+

lemma ready_mono: "ready R k st \<Longrightarrow> kle cmp k k' \<Longrightarrow> ready R k' st"
  unfolding ready_def by (blast intro: keys.order_trans)

lemma ready_cfg: "ready R k st \<Longrightarrow> cs_cfg R st"
  by (simp add: ready_def)

lemma covered_law:
  assumes "ready R k st"
  obtains st' where "covered_by_applied_tombstone k q st = Some (gr_covers R k q, st')" "ready R k st'"
    "cs_inner st' = cs_inner st" "cs_pending st' = cs_pending st" "gc_balance st' = gc_balance st"
proof -
  obtain lo where ok: "rt_ok R lo st" and lo: "\<And>l. lo = Some l \<Longrightarrow> kle cmp l k" and cfg: "cs_cfg R st"
    using assms by (auto simp: ready_def)
  show thesis
  proof (cases "rt_comparator st = None \<or> rt_active st = None")
    case True
    then show thesis using that [of st] ok assms by (auto simp: covered_by_applied_tombstone_def rt_ok_def split: option.splits)
  next
    case False
    then obtain act where act: "rt_comparator st = Some cmp" "rt_active st = Some act"
      using ok by (auto simp: rt_ok_def)
    define ts where "ts = (if rt_sorted st then rt_apply st else sort_by (cmp_with_comparator cmp) (rt_apply st))"
    have set_ts: "set ts = set (rt_apply st)" by (simp add: ts_def)
    have covers: "gr_covers R k q \<longleftrightarrow> (\<exists>rt\<in>set ts. contains_key_with cmp rt k \<and> q < rt_seqno rt)" for k q
      using ok act by (simp add: rt_ok_def set_ts)
    have vis: "\<forall>rt\<in>set ts. visible_at rt (- 1)" using ok act by (simp add: rt_ok_def set_ts)
    let ?ps = "map (\<lambda>rt. (rt, - 1 :: seqno)) ts"
    have sw: "fwd.swept ?ps (rt_idx st) lo act" and sorted: "sorted_wrt (\<lambda>a b. cmp_with_comparator cmp a b \<noteq> Greater) ts"
      using ok act swept_new(1) [of ?ps] sorted_sort_by [OF rt_cmp_preorder]
      by (auto simp: rt_ok_def ts_def split: if_splits)
    have sorted': "sorted_wrt (\<lambda>a b. cmp_with_comparator cmp (fst a) (fst b) \<noteq> Greater) ?ps"
      using sorted by (simp add: sorted_wrt_map)
    obtain i act1 where aw: "activate_while (\<lambda>rt. cmp (rt_start rt) k \<noteq> Greater) (ats_activate cmp) ?ps (rt_idx st) act = (i, act1)"
      by (rule prod.exhaust)
    obtain a where a: "ats_expire_until cmp k act1 = Some a" "fwd.swept ?ps i (Some k) a"
      "\<And>q. is_suppressed a q \<longleftrightarrow> (\<exists>t\<in>set ?ps. visible_pair t \<and>
         cmp (rt_start (fst t)) k \<noteq> Greater \<and> \<not> cmp (rt_end (fst t)) k \<noteq> Greater \<and> q < rt_seqno (fst t))"
      using fwd.sweep_step [OF sw fwd_sorted_started [OF sorted'] lo aw] unfolding is_suppressed_def by blast
    have sup: "is_suppressed a q \<longleftrightarrow> gr_covers R k q"
      using vis by (auto simp: a(3) covers contains_key_with_def cmp_antisym)
    define st' where "st' = st\<lparr>rt_apply := ts, rt_sorted := True, rt_idx := i, rt_active := Some a\<rparr>"
    have "covered_by_applied_tombstone k q st = Some (gr_covers R k q, st')"
      using act aw a(1) sup by (simp add: covered_by_applied_tombstone_def ts_def [symmetric] st'_def)
    moreover have "rt_ok R (Some k) st'" using act covers vis sorted a(2) by (simp add: rt_ok_def st'_def)
    then have "ready R k st'" using cfg by (auto simp: ready_def cs_cfg_def st'_def)
    ultimately show thesis using that [of st'] by (simp add: st'_def)
  qed
qed

text \<open>The rest of a key's versions \<open>vs\<close>, followed by other keys' \<open>us\<close>.\<close>

definition key_run :: "user_key \<Rightarrow> internal_value list \<Rightarrow> internal_value list \<Rightarrow> bool" where
  "key_run k vs us \<longleftrightarrow> (\<forall>v\<in>set vs. ukey v = k) \<and> (us = [] \<or> ukey (hd us) \<noteq> k)"

lemma key_run_Cons: "key_run k (v # vs) us \<longleftrightarrow> ukey v = k \<and> key_run k vs us"
  by (auto simp: key_run_def)

lemma key_run_split: "key_run k (takeWhile (\<lambda>v. ukey v = k) vs) (dropWhile (\<lambda>v. ukey v = k) vs)"
proof -
  have "\<forall>v\<in>set (takeWhile (\<lambda>v. ukey v = k) vs). ukey v = k" using set_takeWhileD by fast
  moreover have "dropWhile (\<lambda>v. ukey v = k) vs = [] \<or> ukey (hd (dropWhile (\<lambda>v. ukey v = k) vs)) \<noteq> k"
    using hd_dropWhile [of "\<lambda>v. ukey v = k" vs] by blast
  ultimately show ?thesis by (simp add: key_run_def)
qed

lemma drain_loop_law:
  "key_run k vs us \<Longrightarrow>
   \<exists>st'. drain_loop k dr (map Inr (vs @ us)) st =
      (Inr \<lparr>dr_total = dr_total dr + of_nat (length vs), dr_all_tombstones = dr_all_tombstones dr \<and> list_all is_tombstone vs\<rparr>, st') \<and>
    cs_inner st' = map Inr us \<and> cs_pending st' = cs_pending st \<and> (\<forall>R k. ready R k st' = ready R k st) \<and>
    gc_balance st' = gc_balance st + of_nat (length vs)"
proof (induction vs arbitrary: dr st)
  case Nil
  then have "drain_loop k dr (map Inr us) st = (Inr dr, st\<lparr>cs_inner := map Inr us\<rparr>)"
    by (cases us) (auto simp: key_run_def same_user_key_def)
  then show ?case by simp
next
  case (Cons v vs)
  then have run: "key_run k vs us" and v: "ukey v = k" by (simp_all add: key_run_Cons)
  let ?st = "count_taken (Some (Inr v)) (on_dropped v st)"
  have "cs_pending ?st = cs_pending st" "ready R k ?st = ready R k st" for R k by simp_all
  moreover have "gc_balance ?st = gc_balance st + 1" by (simp add: count_taken_def on_dropped_def)
  ultimately show ?case
    using Cons.IH [OF run, of "\<lparr>dr_total = dr_total dr + 1, dr_all_tombstones = dr_all_tombstones dr \<and> is_tombstone v\<rparr>" ?st] v
    by (auto simp: same_user_key_def algebra_simps)
qed

lemma drain_key_law:
  assumes "key_run k vs us" "cs_inner st = map Inr (vs @ us)"
  obtains st' where "drain_key k st = (Inr \<lparr>dr_total = of_nat (length vs), dr_all_tombstones = list_all is_tombstone vs\<rparr>, st')"
    "cs_inner st' = map Inr us" "cs_pending st' = cs_pending st" "\<And>R k. ready R k st' = ready R k st"
    "gc_balance st' = gc_balance st + of_nat (length vs)"
  using drain_loop_law [OF assms(1), of "\<lparr>dr_total = 0, dr_all_tombstones = True\<rparr>" st]
  unfolding drain_key_def assms(2) by auto

lemma emit_head_law:
  assumes "ready R (ukey h) st"
  obtains st' where "emit_head h st = (if gr_covered R h then Continue else Return (Some (Inr (gc_zeroed R h))), st')"
    "ready R (ukey h) st'" "cs_inner st' = cs_inner st" "cs_pending st' = cs_pending st" "gc_balance st' = gc_balance st"
proof -
  obtain st1 where c: "covered_by_applied_tombstone (ukey h) (eseqno h) st = Some (gr_covered R h, st1)"
    "ready R (ukey h) st1" "cs_inner st1 = cs_inner st" "cs_pending st1 = cs_pending st" "gc_balance st1 = gc_balance st"
    by (rule covered_law [OF assms])
  define st' where "st' = (if gr_covered R h then note_transform (on_dropped h st1) else st1)"
  have "emit_head h st = (if gr_covered R h then Continue else Return (Some (Inr (gc_zeroed R h))), st')"
    using c(1) ready_cfg [OF c(2)] by (cases "gr_covered R h") (simp_all add: emit_head_def st'_def gc_zeroed_def cs_cfg_def)
  moreover have "gc_balance st' = gc_balance st" using c by (simp add: st'_def note_transform_def on_dropped_def)
  ultimately show thesis using that [of st'] c by (simp add: st'_def)
qed

lemma retain_law:
  "ready R k st \<Longrightarrow> \<forall>e\<in>set es. ukey e = k \<Longrightarrow>
   \<exists>st'. retain_uncovered es st = Some (filter (\<lambda>v. \<not> gr_covered R v) es, st') \<and> ready R k st' \<and>
     cs_inner st' = cs_inner st \<and> cs_pending st' = cs_pending st \<and> gc_balance st' = gc_balance st"
proof (induction es arbitrary: st)
  case (Cons e es)
  obtain st1 where c: "covered_by_applied_tombstone k (eseqno e) st = Some (gr_covers R k (eseqno e), st1)"
    "ready R k st1" "cs_inner st1 = cs_inner st" "cs_pending st1 = cs_pending st" "gc_balance st1 = gc_balance st"
    by (rule covered_law [OF Cons.prems(1)])
  let ?st = "if gr_covered R e then note_transform (on_dropped e st1) else st1"
  have "gc_balance ?st = gc_balance st1" by (simp add: note_transform_def on_dropped_def)
  with Cons.IH [of ?st] c Cons.prems show ?case by auto
qed simp

lemma take_base_law:
  assumes "ready R k st" "ukey v = k" "etype v = Value" "key_run k vs us" "cs_inner st = map Inr (vs @ us)"
  obtains st' where "take_base k acc v st = (Inr (Fold acc (gc_base R (v # vs)) True), st')" "ready R k st'"
    "cs_inner st' = map Inr us" "cs_pending st' = cs_pending st"
proof -
  obtain st1 where c: "covered_by_applied_tombstone k (eseqno v) st = Some (gr_covered R v, st1)"
    "ready R k st1" "cs_inner st1 = cs_inner st" "cs_pending st1 = cs_pending st"
    using covered_law [OF assms(1), of "eseqno v"] assms(2) by metis
  let ?st = "if gr_covered R v then note_transform (on_dropped v st1) else st1"
  obtain st2 dr where d: "drain_key k ?st = (Inr dr, st2)" "cs_inner st2 = map Inr us" "cs_pending st2 = cs_pending ?st"
    "ready R k st2 = ready R k ?st"
    by (rule drain_key_law [OF assms(4), of ?st]) (use c assms(5) in auto)
  show thesis
    by (rule that [of st2]) (use c d assms(3) in \<open>auto simp: take_base_def gc_base_def split: if_splits\<close>)
qed

lemma take_boundary_law:
  assumes "ready R k st" "etype v = Tombstone \<or> etype v = WeakTombstone" "key_run k vs us"
    "cs_inner st = map Inr (vs @ us)"
  obtains st' where "take_boundary k acc v st = (Inr (Fold acc (gc_base R (v # vs)) True), st')" "ready R k st'"
    "cs_inner st' = map Inr us" "cs_pending st' = cs_pending st"
proof -
  let ?st = "note_transform (on_dropped v st)"
  obtain st2 dr where d: "drain_key k ?st = (Inr dr, st2)" "cs_inner st2 = map Inr us" "cs_pending st2 = cs_pending ?st"
    "ready R k st2 = ready R k ?st"
    by (rule drain_key_law [OF assms(3), of ?st]) (use assms(4) in auto)
  show thesis
    by (rule that [of "if cs_evict_tombstones st2 \<and> dr_all_tombstones dr then settle (dr_total dr + 1) st2 else st2"])
      (use d assms(1,2) in \<open>auto simp: take_boundary_def gc_base_def\<close>)
qed

definition collect_result :: "gc_rules \<Rightarrow> internal_value list \<Rightarrow> internal_value list \<Rightarrow> collect_end" where
  "collect_result R ops rest =
     (if blob_base rest then Bail ops else Fold ops (gc_base R rest) (rest \<noteq> []))"

lemma collect_loop_law:
  "ready R k st \<Longrightarrow> key_run k vs us \<Longrightarrow>
   \<exists>st'. collect_loop k acc (map Inr (vs @ us)) st =
       (Inr (collect_result R (acc @ takeWhile is_operand vs) (dropWhile is_operand vs)), st') \<and>
     ready R k st' \<and> cs_pending st' = cs_pending st \<and>
     cs_inner st' = map Inr (if blob_base (dropWhile is_operand vs) then dropWhile is_operand vs @ us else us)"
proof (induction vs arbitrary: acc st)
  case Nil
  then have "collect_loop k acc (map Inr us) st = (Inr (Fold acc None False), st\<lparr>cs_inner := map Inr us\<rparr>)"
    by (cases us) (auto simp: key_run_def same_user_key_def)
  then show ?case using Nil by (simp add: collect_result_def blob_base_def gc_base_def)
next
  case (Cons v vs)
  then have run: "key_run k vs us" and v: "ukey v = k" by (simp_all add: key_run_Cons)
  define st1 where "st1 = count_taken (Some (Inr v)) (st\<lparr>cs_inner := map Inr (vs @ us)\<rparr>)"
  have st1: "ready R k st1" "cs_inner st1 = map Inr (vs @ us)" "cs_pending st1 = cs_pending st"
    using Cons.prems(1) by (simp_all add: st1_def)
  consider (operand) "is_operand v" | (bail) "etype v = Indirection" | (base) "etype v = Value"
    | (tomb) "etype v = Tombstone \<or> etype v = WeakTombstone"
    by (metis value_type.exhaust)
  then show ?case
  proof cases
    case operand
    with Cons.IH [OF st1(1) run, of "acc @ [v]"] st1 v show ?thesis
      by (auto simp: same_user_key_def st1_def)
  next
    case bail
    then show ?thesis using v Cons.prems(1) by (auto simp: same_user_key_def collect_result_def blob_base_def)
  next
    case base
    obtain st' where "take_base k acc v st1 = (Inr (Fold acc (gc_base R (v # vs)) True), st')" "ready R k st'"
      "cs_inner st' = map Inr us" "cs_pending st' = cs_pending st1"
      by (rule take_base_law [OF st1(1) v base run st1(2)])
    with base v st1(3) show ?thesis
      by (auto simp: same_user_key_def collect_result_def blob_base_def st1_def)
  next
    case tomb
    obtain st' where "take_boundary k acc v st1 = (Inr (Fold acc (gc_base R (v # vs)) True), st')" "ready R k st'"
      "cs_inner st' = map Inr us" "cs_pending st' = cs_pending st1"
      by (rule take_boundary_law [OF st1(1) tomb run st1(2)])
    with tomb v st1(3) show ?thesis
      by (auto simp: same_user_key_def collect_result_def blob_base_def st1_def)
  qed
qed

lemma key_groups_run: "vs \<noteq> [] \<Longrightarrow> key_run k vs us \<Longrightarrow> key_groups (vs @ us) = vs # key_groups us"
  by (cases vs; cases us)
    (auto simp: key_run_def takeWhile_append takeWhile_eq_all_conv dropWhile_append key_groups_dropWhile_all)

lemma gc_output_run: "key_run k vs us \<Longrightarrow> gc_output R (vs @ us) = gc_versions R vs @ gc_output R us"
  by (cases "vs = []") (simp_all add: gc_output_def key_groups_run)

lemma resolve_law:
  assumes "ready R (ukey h) st" "gr_foldable R h" "key_run (ukey h) vs us" "cs_inner st = map Inr (vs @ us)"
  defines "ops \<equiv> takeWhile is_operand vs" and "rest \<equiv> dropWhile is_operand vs"
  obtains st' where "resolve_with_operator h st = (if blob_base rest then Inr h else gc_merged R (h # ops) rest, st')"
    "ready R (ukey h) st'" "cs_inner st' = map Inr (if blob_base rest then rest @ us else us)"
    "cs_pending st' = cs_pending st @ (if blob_base rest then ops else [])"
proof -
  obtain m where m: "gr_operator R = Some m" using assms(2) by (auto simp: gr_foldable_def)
  then have m': "cs_merge_operator st = Some m" using ready_cfg [OF assms(1)] by (simp add: cs_cfg_def)
  obtain st1 where c: "collect_loop (ukey h) [h] (cs_inner st) st = (Inr (collect_result R (h # ops) rest), st1)"
    "ready R (ukey h) st1" "cs_pending st1 = cs_pending st"
    "cs_inner st1 = map Inr (if blob_base rest then rest @ us else us)"
    using collect_loop_law [OF assms(1,3), of "[h]"] unfolding assms(4) ops_def rest_def by auto
  show thesis
  proof (cases "blob_base rest")
    case True
    then show thesis
      by (intro that [of "st1\<lparr>cs_pending := cs_pending st1 @ ops\<rparr>"])
        (use c m' in \<open>simp_all add: resolve_with_operator_def resolve_merge_operands_def collect_result_def\<close>)
  next
    case False
    have "\<forall>e\<in>set (h # ops). ukey e = ukey h"
      using assms(3) by (auto simp: key_run_def ops_def dest: set_takeWhileD)
    then obtain st2 where r: "retain_uncovered (h # ops) st1 = Some (filter (\<lambda>v. \<not> gr_covered R v) (h # ops), st2)"
      "ready R (ukey h) st2" "cs_inner st2 = cs_inner st1" "cs_pending st2 = cs_pending st1"
      using retain_law [OF c(2)] by blast
    have "resolve_with_operator h st = (gc_merged R (h # ops) rest, st2)"
      using m' c(1) r(1) False m
      by (simp add: resolve_with_operator_def resolve_merge_operands_def collect_result_def gc_merged_def split: sum.splits)
    then show thesis using that [of st2] False c r by simp
  qed
qed

text \<open>The order of the input: keys ascending, versions of a key from newest to oldest.\<close>

definition vle :: "internal_value \<Rightarrow> internal_value \<Rightarrow> bool" where
  "vle a b \<longleftrightarrow> kle cmp (ukey a) (ukey b) \<and> (ukey a = ukey b \<longrightarrow> eseqno b \<le> eseqno a)"

lemma version_sorted_vle: "version_sorted cmp vs \<Longrightarrow> sorted_wrt vle vs"
  by (erule sorted_wrt_mono_rel [rotated]) (auto simp: vle_def entry_before_iff key_order)

definition pending_ok :: "gc_rules \<Rightarrow> internal_value list \<Rightarrow> internal_value list \<Rightarrow> bool" where
  "pending_ok R ps vs \<longleftrightarrow>
     ps = [] \<or> blob_base vs \<and> (\<forall>e\<in>set ps. gr_foldable R e \<and> ukey e = ukey (hd vs))"

text \<open>From state \<open>st\<close> the stream will return \<open>out\<close>.\<close>

definition cs_holds :: "gc_rules \<Rightarrow> 'f compaction_stream \<Rightarrow> item list \<Rightarrow> bool" where
  "cs_holds R st out \<longleftrightarrow> (\<exists>vs. cs_inner st = map Inr vs \<and>
     sorted_wrt vle vs \<and> (\<forall>e\<in>set vs. ready R (ukey e) st) \<and>
     pending_ok R (cs_pending st) vs \<and>
     out = concat (map (gc_emit R) (cs_pending st)) @ gc_output R vs)"

lemma cs_holdsI:
  assumes "cs_inner st = map Inr vs" "sorted_wrt vle vs"
    "ready R k st" "\<forall>e\<in>set vs. kle cmp k (ukey e)" "pending_ok R (cs_pending st) vs"
  shows "cs_holds R st (concat (map (gc_emit R) (cs_pending st)) @ gc_output R vs)"
  unfolding cs_holds_def using assms ready_mono by blast

definition outcome :: "gc_rules \<Rightarrow> cs_outcome \<Rightarrow> 'f compaction_stream \<Rightarrow> item list \<Rightarrow> bool" where
  "outcome R oc st out \<longleftrightarrow>
     (case oc of Return r \<Rightarrow> \<exists>out'. cs_holds R st out' \<and> pop_front out = (r, out') | Continue \<Rightarrow> cs_holds R st out)"

definition above :: "user_key \<Rightarrow> internal_value list \<Rightarrow> bool" where
  "above k vs \<longleftrightarrow> sorted_wrt vle vs \<and> (\<forall>e\<in>set vs. kle cmp k (ukey e))"

lemma vle_above: "sorted_wrt vle (h # vs) \<Longrightarrow> above (ukey h) vs"
  by (simp add: above_def vle_def)

lemma emit_head_outcome:
  assumes ready: "ready R (ukey h) st" and inner: "cs_inner st = map Inr vs"
    and sorted: "above (ukey h) vs"
    and pend: "pending_ok R (cs_pending st) vs" and emit: "emit_head h st = (oc, st')"
  shows "outcome R oc st' (gc_emit R h @ concat (map (gc_emit R) (cs_pending st)) @ gc_output R vs)"
proof -
  obtain st1 where e: "emit_head h st = (if gr_covered R h then Continue else Return (Some (Inr (gc_zeroed R h))), st1)"
    "ready R (ukey h) st1" "cs_inner st1 = cs_inner st" "cs_pending st1 = cs_pending st"
    by (rule emit_head_law [OF ready])
  have "cs_holds R st1 (concat (map (gc_emit R) (cs_pending st1)) @ gc_output R vs)"
    using cs_holdsI [of st1 vs R "ukey h"] e inner sorted pend by (simp add: above_def)
  then show ?thesis using e emit by (auto simp: outcome_def gc_emit_def)
qed

lemma gc_merged_key: "gc_merged R ops rest = Inr v \<Longrightarrow> ukey v = ukey (hd ops) \<and> eseqno v = eseqno (hd ops)"
  by (auto simp: gc_merged_def Let_def from_components_Inr split: sum.splits)

lemma emit_resolved_outcome:
  assumes ready: "ready R (ukey h) st" and inner: "cs_inner st = map Inr vs"
    and sorted: "above (ukey h) vs"
    and pend: "pending_ok R (cs_pending st) vs" and emit: "emit_resolved (x, st) = (oc, st')"
    and x: "\<And>v. x = Inr v \<Longrightarrow> ukey v = ukey h \<and> eseqno v = eseqno h"
  shows "outcome R oc st' (gc_emit_item R x @ concat (map (gc_emit R) (cs_pending st)) @ gc_output R vs)"
proof (cases x)
  case (Inl e)
  have "cs_holds R st (concat (map (gc_emit R) (cs_pending st)) @ gc_output R vs)"
    using cs_holdsI [OF inner _ ready _ pend] sorted by (simp add: above_def)
  then show ?thesis using emit Inl by (auto simp: emit_resolved_def outcome_def gc_emit_item_def)
next
  case (Inr v)
  then have "emit_head v st = (oc, st')" using emit by (simp add: emit_resolved_def)
  from emit_head_outcome [OF _ inner _ pend this] ready sorted x [OF Inr] show ?thesis
    by (simp add: Inr gc_emit_item_def)
qed

lemma blob_fold_outcome:
  assumes ready: "ready R (ukey h) st" and fold: "gr_foldable R h"
    and run: "key_run (ukey h) vs us" and inner: "cs_inner st = map Inr (vs @ us)"
    and sorted: "sorted_wrt vle (h # vs @ us)"
    and pend: "cs_pending st = []" and emit: "emit_resolved (resolve_with_operator h st) = (oc, st')"
    and old: "blob_base (dropWhile is_operand vs) \<Longrightarrow> \<forall>v\<in>set (takeWhile is_operand vs). gr_old R v"
  shows "outcome R oc st'
    ((if blob_base (dropWhile is_operand vs)
      then concat (map (gc_emit R) (h # takeWhile is_operand vs)) @ gc_versions R (dropWhile is_operand vs)
      else gc_emit_item R (gc_merged R (h # takeWhile is_operand vs) (dropWhile is_operand vs))) @ gc_output R us)"
proof -
  let ?ops = "takeWhile is_operand vs" and ?rest = "dropWhile is_operand vs"
  obtain st1 where r: "resolve_with_operator h st = (if blob_base ?rest then Inr h else gc_merged R (h # ?ops) ?rest, st1)"
    "ready R (ukey h) st1" "cs_inner st1 = map Inr (if blob_base ?rest then ?rest @ us else us)"
    "cs_pending st1 = cs_pending st @ (if blob_base ?rest then ?ops else [])"
    by (rule resolve_law [OF ready fold run inner])
  show ?thesis
  proof (cases "blob_base ?rest")
    case True
    have vs: "vs = ?ops @ ?rest" by simp
    have keys: "ukey v = ukey h" if "v \<in> set vs" for v using run that by (simp add: key_run_def)
    have run': "key_run (ukey h) ?rest us"
      using run by (auto simp: key_run_def dest: set_dropWhileD)
    have "sorted_wrt vle (h # ?ops @ ?rest @ us)"
      using sorted by (simp flip: append_assoc)
    then have sorted': "sorted_wrt vle (h # ?rest @ us)"
      by (simp add: sorted_wrt_append)
    obtain i r where i: "?rest = i # r" using True by (cases ?rest) (auto simp: blob_base_def)
    then have i_vs: "i \<in> set vs" by (metis list.set_intros(1) set_dropWhileD)
    have "gr_foldable R v" if "v \<in> set ?ops" for v
      using old [OF True] that fold set_takeWhileD [OF that] by (simp add: gr_foldable_def)
    moreover have "ukey v = ukey (hd (?rest @ us))" if "v \<in> set ?ops" for v
      using keys [OF i_vs] keys set_takeWhileD [OF that] i by simp
    moreover have "blob_base (?rest @ us)" using True by (auto simp: blob_base_def)
    ultimately have "pending_ok R (cs_pending st1) (?rest @ us)" using r(4) True pend by (simp add: pending_ok_def)
    moreover have "cs_inner st1 = map Inr (?rest @ us)" "cs_pending st1 = ?ops" using r(3,4) True pend by simp_all
    moreover have "emit_resolved (Inr h, st1) = (oc, st')" using emit r(1) True by simp
    ultimately have "outcome R oc st' (gc_emit_item R (Inr h) @
        concat (map (gc_emit R) (cs_pending st1)) @ gc_output R (?rest @ us))"
      using vle_above [OF sorted'] by (intro emit_resolved_outcome [OF r(2)]) simp_all
    then show ?thesis unfolding gc_output_run [OF run'] using True \<open>cs_pending st1 = ?ops\<close>
      by (simp add: gc_emit_item_def)
  next
    case False
    have srt: "sorted_wrt vle (h # us)" using sorted by (simp add: sorted_wrt_append)
    have key: "ukey v = ukey h \<and> eseqno v = eseqno h" if "gc_merged R (h # ?ops) ?rest = Inr v" for v
      using gc_merged_key [OF that] by simp
    have st1: "cs_inner st1 = map Inr us" "cs_pending st1 = []" using r(3,4) False pend by simp_all
    have emit1: "emit_resolved (gc_merged R (h # ?ops) ?rest, st1) = (oc, st')" using emit r(1) False by simp
    have "pending_ok R (cs_pending st1) us" using st1(2) by (simp add: pending_ok_def)
    from emit_resolved_outcome [OF r(2) st1(1) vle_above [OF srt] this emit1 key]
    have "outcome R oc st' (gc_emit_item R (gc_merged R (h # ?ops) ?rest) @
        concat (map (gc_emit R) (cs_pending st1)) @ gc_output R us)" .
    then show ?thesis using False r(4) pend by simp
  qed
qed

lemma key_run_old:
  assumes "sorted_wrt vle (h # vs @ us)" "key_run (ukey h) vs us" "gr_old R h" "v \<in> set vs"
  shows "gr_old R v"
proof -
  have "vle h v" "ukey v = ukey h" using assms(1,2,4) by (auto simp: key_run_def)
  then have "eseqno v \<le> eseqno h" by (simp add: vle_def)
  then show ?thesis using assms(3) by (rule le_less_trans)
qed

lemma collapse_law:
  assumes ready: "ready R (ukey h) st" and run: "key_run (ukey h) vs us"
    and inner: "cs_inner st = map Inr (vs @ us)" and sorted: "sorted_wrt vle (h # vs @ us)"
    and pend: "cs_pending st = []" and step: "collapse_head h st = (oc, st')"
  shows "outcome R oc st' (gc_versions R (h # vs) @ gc_output R us)"
proof -
  have cfg: "cs_evict_tombstones st = gr_evict R" "gc_seqno_threshold st = gr_threshold R"
    "foldable_operand h st = gr_foldable R h"
    using ready_cfg [OF ready] by (auto simp: cs_cfg_def foldable_operand_def gr_foldable_def)
  have sorted_us: "sorted_wrt vle (h # us)" using sorted by (simp add: sorted_wrt_append)
  have emit: "outcome R oc st' (gc_emit R h @ gc_output R (vs @ us))" if "emit_head h st = (oc, st')"
    using emit_head_outcome [OF ready inner vle_above [OF sorted] _ that] pend by (simp add: pending_ok_def)
  have fold: "outcome R oc st' ((if blob_base (dropWhile is_operand vs)
      then concat (map (gc_emit R) (h # takeWhile is_operand vs)) @ gc_versions R (dropWhile is_operand vs)
      else gc_emit_item R (gc_merged R (h # takeWhile is_operand vs) (dropWhile is_operand vs))) @ gc_output R us)"
    if "gr_foldable R h" "emit_resolved (resolve_with_operator h st) = (oc, st')"
    by (rule blob_fold_outcome [OF ready that(1) run inner sorted pend that(2)])
      (use key_run_old [OF sorted run] that(1) in \<open>auto simp: gr_foldable_def dest: set_takeWhileD\<close>)
  have gone: "outcome R Continue st2 (gc_output R us)" if "cs_inner st2 = map Inr us" "cs_pending st2 = []" "ready R (ukey h) st2" for st2
    using cs_holdsI [of st2 us R "ukey h"] that sorted_us by (simp add: outcome_def pending_ok_def vle_def)
  show ?thesis
  proof (cases vs)
    case Nil
    have "collapse_head h st = (if is_tombstone h \<and> gr_evict R then drop_lone_tombstone st
        else if gr_foldable R h then emit_resolved (resolve_with_operator h st) else emit_head h st)"
      using run inner Nil cfg by (cases us) (auto simp: collapse_head_def key_run_def same_user_key_def)
    moreover have "outcome R oc st' (gc_output R us)" if "drop_lone_tombstone st = (oc, st')"
    proof -
      have "oc = Continue" "st' = settle 1 (note_transform st)" using that by (auto simp: drop_lone_tombstone_def)
      then show ?thesis using gone [of st'] inner Nil pend ready by simp
    qed
    ultimately show ?thesis
      using step emit fold Nil by (simp add: gc_versions.simps blob_base_def split: if_splits)
  next
    case (Cons p r)
    obtain s1 where d1: "drain_key (ukey h) (note_transform st) = (Inr \<lparr>dr_total = of_nat (length vs), dr_all_tombstones = list_all is_tombstone vs\<rparr>, s1)"
      "cs_inner s1 = map Inr us" "cs_pending s1 = cs_pending (note_transform st)" "\<And>R k. ready R k s1 = ready R k (note_transform st)"
      by (rule drain_key_law [OF run, of "note_transform st"]) (use inner in auto)
    obtain s2 where d2: "drain_key (ukey h) st = (Inr \<lparr>dr_total = of_nat (length vs), dr_all_tombstones = list_all is_tombstone vs\<rparr>, s2)"
      "cs_inner s2 = map Inr us" "cs_pending s2 = cs_pending st" "\<And>R k. ready R k s2 = ready R k st"
      by (rule drain_key_law [OF run inner]) blast
    define s3 where "s3 = (if cs_evict_tombstones s2 \<and> list_all is_tombstone vs then settle (of_nat (length vs)) s2 else s2)"
    have same: "same_user_key (ukey p) (ukey h)" using run Cons by (simp add: key_run_def same_user_key_def)
    let ?t = "etype h = Tombstone \<and> gr_evict R \<and> gr_old R h"
      and ?w = "etype h = WeakTombstone \<and> etype p = Value \<and> gr_old R h"
      and ?f = "gr_old R p \<and> gr_foldable R h" and ?g = "gr_old R p \<and> \<not> is_operand h \<and> gr_old R h"
    have col: "collapse_head h st =
       (if ?t then (Continue, if list_all is_tombstone vs then settle (of_nat (length vs) + 1) s1 else s1)
        else if ?w then (Continue, note_transform s2)
        else if ?f then emit_resolved (resolve_with_operator h st)
        else if ?g then emit_head h s3
        else emit_head h st)"
      using inner Cons same cfg d1(1) d2(1)
      by (auto simp: collapse_head_def s3_def gr_foldable_def)
    have vs: "vs \<noteq> []" "hd vs = p" using Cons by simp_all
    have gc: "gc_versions R (h # vs) =
       (if ?t then [] else if ?w then []
        else if ?f then (if blob_base (dropWhile is_operand vs)
          then concat (map (gc_emit R) (h # takeWhile is_operand vs)) @ gc_versions R (dropWhile is_operand vs)
          else gc_emit_item R (gc_merged R (h # takeWhile is_operand vs) (dropWhile is_operand vs)))
        else if ?g then gc_emit R h else gc_emit R h @ gc_versions R vs)"
      unfolding gc_versions.simps(2) [of R h vs] vs(2) using vs(1) by (simp only: if_False)
    consider ?t | "\<not> ?t" ?w | "\<not> ?t" "\<not> ?w" ?f | "\<not> ?t" "\<not> ?w" "\<not> ?f" ?g
      | "\<not> ?t" "\<not> ?w" "\<not> ?f" "\<not> ?g" by blast
    then show ?thesis
    proof cases
      case 1
      then have "gc_versions R (h # vs) = []" by (simp add: gc)
      with 1 step col gone [of st'] d1 pend ready show ?thesis by (auto split: if_splits)
    next
      case 2
      then have "gc_versions R (h # vs) = []" by (simp add: gc)
      with 2 step col gone [of st'] d2 pend ready show ?thesis by auto
    next
      case 3
      then have "gc_versions R (h # vs) = (if blob_base (dropWhile is_operand vs)
          then concat (map (gc_emit R) (h # takeWhile is_operand vs)) @ gc_versions R (dropWhile is_operand vs)
          else gc_emit_item R (gc_merged R (h # takeWhile is_operand vs) (dropWhile is_operand vs)))"
        unfolding gc by (simp only: simp_thms if_False if_True)
      with 3 step col fold show ?thesis by (simp only: simp_thms if_False if_True)
    next
      case 4
      then have "gc_versions R (h # vs) = gc_emit R h" unfolding gc by (simp only: simp_thms if_False if_True)
      moreover have "emit_head h s3 = (oc, st')" using 4 step col by (simp only: simp_thms if_False if_True)
      moreover have "cs_inner s3 = map Inr us" "cs_pending s3 = []" "ready R (ukey h) s3"
        using d2 pend ready by (simp_all add: s3_def)
      ultimately show ?thesis
        using emit_head_outcome [of R h s3 us oc st'] vle_above [OF sorted_us] by (simp add: pending_ok_def)
    next
      case 5
      then have "gc_versions R (h # vs) = gc_emit R h @ gc_versions R vs" unfolding gc by (simp only: simp_thms if_False if_True)
      moreover have "emit_head h st = (oc, st')" using 5 step col by (simp only: simp_thms if_False if_True)
      ultimately show ?thesis using emit gc_output_run [OF run, of R] by simp
    qed
  qed
qed

text \<open>A version put back by a bail-out is returned as it is.\<close>

lemma pending_law:
  assumes ready: "ready R (ukey e) st" and fold: "gr_foldable R e" and key: "ukey e = ukey (hd vs)"
    and blob: "blob_base vs" and inner: "cs_inner st = map Inr vs" and sorted: "sorted_wrt vle vs"
    and pend: "pending_ok R (cs_pending st) vs" and step: "collapse_head e st = (oc, st')"
  shows "outcome R oc st' (gc_emit R e @ concat (map (gc_emit R) (cs_pending st)) @ gc_output R vs)"
proof -
  obtain i r where vs: "vs = i # r" "etype i = Indirection" "ukey i = ukey e"
    using blob key by (cases vs) (auto simp: blob_base_def)
  have above: "above (ukey e) vs" using sorted vs by (auto simp: above_def vle_def)
  let ?g = "takeWhile (\<lambda>v. ukey v = ukey e) vs" and ?us = "dropWhile (\<lambda>v. ukey v = ukey e) vs"
  have run: "key_run (ukey e) ?g ?us" by (rule key_run_split)
  have g: "takeWhile is_operand ?g = []" "dropWhile is_operand ?g = ?g" "blob_base ?g"
    using vs by (auto simp: blob_base_def)
  obtain st1 where r: "resolve_with_operator e st = (Inr e, st1)" "ready R (ukey e) st1" "cs_inner st1 = map Inr vs"
    "cs_pending st1 = cs_pending st"
    by (rule resolve_law [OF ready fold run]) (use inner g in \<open>auto simp flip: map_append\<close>)
  have cfg: "gc_seqno_threshold st = gr_threshold R" "foldable_operand e st"
    using ready_cfg [OF ready] fold by (auto simp: cs_cfg_def foldable_operand_def gr_foldable_def)
  have "is_operand e" using fold by (simp add: gr_foldable_def)
  then have "collapse_head e st = (if gr_old R i then emit_resolved (resolve_with_operator e st) else emit_head e st)"
    using inner vs cfg by (simp add: collapse_head_def same_user_key_def)
  moreover have "emit_resolved (resolve_with_operator e st) = emit_head e st1"
    by (simp add: r(1) emit_resolved_def)
  ultimately have "emit_head e st1 = (oc, st') \<or> emit_head e st = (oc, st')"
    using step by (cases "gr_old R i") simp_all
  then show ?thesis
  proof
    assume 1: "emit_head e st1 = (oc, st')"
    from emit_head_outcome [OF r(2,3) above _ 1] pend r(4) show ?thesis by simp
  next
    assume 2: "emit_head e st = (oc, st')"
    from emit_head_outcome [OF ready inner above pend 2] show ?thesis .
  qed
qed

lemma cs_step_law:
  assumes holds: "cs_holds R st out" and step: "cs_step no_filter st = (oc, st')"
  shows "outcome R oc st' out"
proof -
  obtain vs where vs: "cs_inner st = map Inr vs" "sorted_wrt vle vs" "\<forall>e\<in>set vs. ready R (ukey e) st"
    "pending_ok R (cs_pending st) vs" "out = concat (map (gc_emit R) (cs_pending st)) @ gc_output R vs"
    using holds by (auto simp: cs_holds_def)
  have keep: "filter_head no_filter h s = (Inr (Some h), s)" for h and s :: "unit compaction_stream"
    by (simp add: filter_head_def no_filter_def)
  show ?thesis
  proof (cases "cs_pending st")
    case (Cons e es)
    have blob: "blob_base vs" "gr_foldable R e" "ukey e = ukey (hd vs)" using vs(4) Cons by (auto simp: pending_ok_def)
    then have "ready R (ukey e) st" using vs(3) by (simp add: blob_base_def)
    moreover have "collapse_head e (st\<lparr>cs_pending := es\<rparr>) = (oc, st')" using step Cons by (simp add: cs_step_def keep)
    moreover have "pending_ok R es vs" using vs(4) Cons by (auto simp: pending_ok_def)
    ultimately show ?thesis
      using pending_law [of R e "st\<lparr>cs_pending := es\<rparr>" vs oc st'] blob vs Cons by simp
  next
    case Nil
    show ?thesis
    proof (cases vs)
      case Nil
      then have "oc = Return None" "st' = st"
        using step vs(1) \<open>cs_pending st = []\<close> by (auto simp: cs_step_def take_next_def count_taken_def)
      then show ?thesis using holds vs(5) \<open>cs_pending st = []\<close> Nil by (auto simp: outcome_def gc_output_def)
    next
      case (Cons h t)
      let ?g = "takeWhile (\<lambda>v. ukey v = ukey h) t" and ?us = "dropWhile (\<lambda>v. ukey v = ukey h) t"
      have run: "key_run (ukey h) ?g ?us" by (rule key_run_split)
      let ?st = "count_taken (Some (Inr h)) (st\<lparr>cs_inner := map Inr t\<rparr>)"
      have col: "collapse_head h ?st = (oc, st')"
        using step vs(1) \<open>cs_pending st = []\<close> Cons by (simp add: cs_step_def take_next_def keep)
      have out: "out = gc_versions R (h # ?g) @ gc_output R ?us"
        using vs(5) \<open>cs_pending st = []\<close> Cons by (simp add: gc_output_def)
      show ?thesis
        unfolding out by (rule collapse_law [OF _ run _ _ _ col]) (use vs Cons \<open>cs_pending st = []\<close> in simp_all)
    qed
  qed
qed

lemma cs_next_inner_law:
  "cs_holds R st out \<Longrightarrow> cs_next_inner no_filter st = (r, st') \<Longrightarrow>
   \<exists>out'. cs_holds R st' out' \<and> pop_front out = (r, out')"
proof (induction "cs_size st" arbitrary: st rule: less_induct)
  case less
  obtain oc st1 where s: "cs_step no_filter st = (oc, st1)" by (rule prod.exhaust)
  note law = cs_step_law [OF less.prems(1) s]
  show ?case
  proof (cases oc)
    case (Return x)
    then show ?thesis using law less.prems(2) s by (simp add: outcome_def cs_next_inner.simps [of no_filter st])
  next
    case Continue
    then have "cs_size st1 < cs_size st" "cs_next_inner no_filter st1 = (r, st')"
      using s cs_step_decreases less.prems(2) by (simp_all add: cs_next_inner.simps [of no_filter st])
    moreover have "cs_holds R st1 out" using law Continue by (simp add: outcome_def)
    ultimately show ?thesis using less.hyps by blast
  qed
qed

lemma cs_holds_settle [simp]: "cs_holds R (settle n st) out = cs_holds R st out"
  by (simp add: cs_holds_def)

lemma cs_next_one_way: "one_way_iterator (cs_next no_filter) (cs_holds R)"
proof unfold_locales
  fix st xs r st' assume h: "cs_holds R st xs" and n: "cs_next no_filter st = (r, st')"
  obtain r1 st1 where i: "cs_next_inner no_filter st = (r1, st1)" by (rule prod.exhaust)
  then have "r = r1" "cs_holds R st' ys = cs_holds R st1 ys" for ys
    using n by (auto simp: cs_next_def split: option.splits sum.splits)
  with cs_next_inner_law [OF h i] show "\<exists>xs'. cs_holds R st' xs' \<and> pop_front xs = (r, xs')" by simp
qed

end

interpretation cs_default: one_way_iterator "cs_next no_filter" "default_cmp.cs_holds R" for R
  by (rule default_cmp.cs_next_one_way)

text \<open>The rules of a stream that applies the range tombstones \<open>ts\<close>.\<close>

definition gc_rules_of :: "comparator \<Rightarrow> seqno \<Rightarrow> bool \<Rightarrow> bool \<Rightarrow> merge_fn option \<Rightarrow> range_tombstone list \<Rightarrow> gc_rules" where
  "gc_rules_of c threshold evict zero op ts =
     \<lparr>gr_threshold = threshold, gr_evict = evict, gr_zero = zero, gr_operator = op,
      gr_covers = (\<lambda>k q. list_ex (\<lambda>rt. visible_at rt threshold \<and> contains_key_with c rt k \<and> q < rt_seqno rt) ts)\<rparr>"

definition cs_start ::
  "comparator \<Rightarrow> seqno \<Rightarrow> bool \<Rightarrow> bool \<Rightarrow> merge_fn option \<Rightarrow> range_tombstone list \<Rightarrow> item list \<Rightarrow> unit compaction_stream" where
  "cs_start c threshold evict zero op ts iter =
     with_range_tombstone_application ts c
       (zero_seqnos zero (evict_tombstones evict (with_merge_operator op (cs_new iter threshold))))"

context user_comparator begin

lemma cs_start_holds:
  assumes "version_sorted cmp vs" "length ts < 2 ^ 32"
  shows "cs_holds (gc_rules_of cmp threshold evict zero op ts)
    (cs_start cmp threshold evict zero op ts (map Inr vs))
    (gc_output (gc_rules_of cmp threshold evict zero op ts) vs)"
proof -
  let ?R = "gc_rules_of cmp threshold evict zero op ts"
  let ?st = "cs_start cmp threshold evict zero op ts (map Inr vs)"
  note defs = cs_start_def with_range_tombstone_application_def zero_seqnos_def evict_tombstones_def
    with_merge_operator_def cs_new_def gc_rules_of_def
  have vis: "visible_at rt (- 1)" if "visible_at rt threshold" for rt
    using that word_order.extremum [of threshold] by (auto simp: visible_at_def intro: less_le_trans)
  have "length (filter (\<lambda>rt. visible_at rt threshold) ts) < 2 ^ 32"
    using assms(2) length_filter_le le_less_trans by blast
  then have "rt_ok ?R None ?st"
    using vis by (auto simp: rt_ok_def defs list_ex_iff)
  then have "ready ?R k ?st" for k by (auto simp: ready_def cs_cfg_def defs)
  moreover have "cs_inner ?st = map Inr vs" "cs_pending ?st = []" by (simp_all add: defs)
  ultimately show ?thesis
    unfolding cs_holds_def using version_sorted_vle [OF assms(1)]
    by (intro exI [of _ vs]) (simp add: pending_ok_def)
qed

end

text \<open>
  C11: over a sorted error-free input without a filter, a compaction stream returns exactly, key by
  key, the versions its collection rules keep, and then ends: \<open>gc_versions\<close> gives them for the
  versions of one key. The range tombstones applied are those below the watermark.
\<close>

theorem compaction_stream_output:
  assumes "user_comparator c" "version_sorted c vs" "length ts < 2 ^ 32"
  shows "let out = gc_output (gc_rules_of c threshold evict zero op ts) vs
    in fst (pull_run n (cs_next no_filter) (cs_start c threshold evict zero op ts (map Inr vs))) =
      map Some (take n out) @ replicate (n - length out) None"
  unfolding Let_def
  using one_way_iterator.pull_run_results [OF user_comparator.cs_next_one_way [OF assms(1)]
      user_comparator.cs_start_holds [OF assms(1-3), of threshold evict zero op], of n]
  by (simp add: pull_run_list)

theorem compaction_stream_output_witness:
  "let a = \<lparr>key = \<lparr>user_key = [1], seqno = 9, value_type = Value\<rparr>, val = [4]\<rparr>;
       b = \<lparr>key = \<lparr>user_key = [1], seqno = 3, value_type = Value\<rparr>, val = [5]\<rparr>;
       d = \<lparr>key = \<lparr>user_key = [2], seqno = 4, value_type = Tombstone\<rparr>, val = []\<rparr>
   in fst (pull_run 2 (cs_next no_filter) (cs_start default_compare 10 True False None [] (map Inr [a, b, d]))) =
        [Some (Inr a), None]"
proof -
  define a b d where "a = \<lparr>key = \<lparr>user_key = [1], seqno = 9, value_type = Value\<rparr>, val = [4]\<rparr>"
    and "b = \<lparr>key = \<lparr>user_key = [1], seqno = 3, value_type = Value\<rparr>, val = [5]\<rparr>"
    and "d = \<lparr>key = \<lparr>user_key = [2], seqno = 4, value_type = Tombstone\<rparr>, val = []\<rparr>"
  have sorted: "version_sorted default_compare [a, b, d]"
    by (simp add: entry_before_def compare_with_def default_compare_def a_def b_def d_def)
  have "gc_output (gc_rules_of default_compare 10 True False None []) [a, b, d] = [Inr a]"
    unfolding a_def b_def d_def by code_simp
  with compaction_stream_output [where threshold = 10 and evict = True and zero = False and op = None
      and ts = "[]" and n = 2, OF user_comparator_default sorted]
  show ?thesis unfolding a_def [symmetric] b_def [symmetric] d_def [symmetric] Let_def by (simp add: numeral_2_eq_2)
qed

end
