(* ===== verification/Compaction_Reads.thy ===== *)
theory Compaction_Reads
  imports Compaction_Stream
begin

text \<open>
  What compaction does to reads. A read at sequence number \<open>s\<close> sees the versions below \<open>s\<close> and the
  range tombstones below \<open>s\<close>, and resolves the versions of a key as the MVCC stream does. At or above
  the watermark, every read of the output of a compaction stream agrees with the read of its input.
\<close>

subsection \<open>Reads\<close>

text \<open>The versions of one key a read sees, newest first; \<open>sup\<close> tells which of them are deleted by range.\<close>

definition group_read ::
  "comparator \<Rightarrow> (range_tombstone \<times> seqno) list \<Rightarrow> merge_fn option \<Rightarrow> internal_value list \<Rightarrow> item option" where
  "group_read c rts op g =
     (case g of
        [] \<Rightarrow> None
      | h # _ \<Rightarrow> if is_rt_suppressed c rts h \<or> is_tombstone h then None else Some (mvcc_resolve c rts op g))"

definition snapshot_read ::
  "comparator \<Rightarrow> range_tombstone list \<Rightarrow> merge_fn option \<Rightarrow> seqno \<Rightarrow> user_key \<Rightarrow> internal_value list \<Rightarrow> item option" where
  "snapshot_read c ts op s k vs =
     group_read c (map (\<lambda>rt. (rt, s)) ts) op (filter (\<lambda>e. ukey e = k \<and> eseqno e < s) vs)"

text \<open>
  What the engine asks of a merge operator: it does not fail, its results are storable, and a result
  may stand as the base, or as an operand, for what it was merged from.
\<close>

definition stable_merge :: "merge_fn \<Rightarrow> bool" where
  "stable_merge m \<longleftrightarrow>
     (\<forall>k b xs. \<exists>v. m k b xs = Inr v \<and> length v < 2 ^ 32) \<and>
     (\<forall>k b xs ys v. m k b xs = Inr v \<longrightarrow> m k (Some v) ys = m k b (xs @ ys)) \<and>
     (\<forall>k xs ys v. xs \<noteq> [] \<longrightarrow> m k None xs = Inr v \<longrightarrow> m k None (v # ys) = m k None (xs @ ys))"

lemma stable_mergeD:
  assumes "stable_merge m"
  shows "\<exists>v. m k b xs = Inr v \<and> length v < 2 ^ 32"
    and "m k b xs = Inr v \<Longrightarrow> m k (Some v) ys = m k b (xs @ ys)"
    and "xs \<noteq> [] \<Longrightarrow> m k None xs = Inr v \<Longrightarrow> m k None (v # ys) = m k None (xs @ ys)"
  using assms unfolding stable_merge_def by blast+

subsection \<open>Interchangeable versions\<close>

text \<open>
  Two lists of versions of key \<open>k\<close> are interchangeable when they read the same, alone and below any
  newer operands.
\<close>

definition tail_blob :: "comparator \<Rightarrow> (range_tombstone \<times> seqno) list \<Rightarrow> internal_value list \<Rightarrow> bool" where
  "tail_blob c rts g \<longleftrightarrow> map_option etype (merge_base c rts (dropWhile (live_operand c rts) g)) = Some Indirection"

definition tail_merge ::
  "comparator \<Rightarrow> (range_tombstone \<times> seqno) list \<Rightarrow> merge_fn \<Rightarrow> user_key \<Rightarrow> internal_value list \<Rightarrow>
   user_value list \<Rightarrow> lsm_error + user_value" where
  "tail_merge c rts m k g ys =
     m k (map_option val (merge_base c rts (dropWhile (live_operand c rts) g)))
       (rev (map val (takeWhile (live_operand c rts) g)) @ ys)"

definition same_reads ::
  "comparator \<Rightarrow> (range_tombstone \<times> seqno) list \<Rightarrow> merge_fn option \<Rightarrow> user_key \<Rightarrow>
   internal_value list \<Rightarrow> internal_value list \<Rightarrow> bool" where
  "same_reads c rts op k g g' \<longleftrightarrow> group_read c rts op g = group_read c rts op g' \<and>
     tail_blob c rts g = tail_blob c rts g' \<and>
     (\<forall>m ys. op = Some m \<longrightarrow> \<not> tail_blob c rts g \<longrightarrow> tail_merge c rts m k g ys = tail_merge c rts m k g' ys)"

lemma same_reads_refl: "same_reads c rts op k g g"
  by (simp add: same_reads_def)

lemma same_reads_sym: "same_reads c rts op k g g' \<Longrightarrow> same_reads c rts op k g' g"
  unfolding same_reads_def by metis

lemma same_reads_trans:
  "same_reads c rts op k g g' \<Longrightarrow> same_reads c rts op k g' g'' \<Longrightarrow> same_reads c rts op k g g''"
  unfolding same_reads_def by metis

lemma merge_group_tail:
  "merge_group c rts m (h # g) =
     (if tail_blob c rts (h # g) then Inr h
      else case tail_merge c rts m (ukey h) (h # g) [] of
             Inl e \<Rightarrow> Inl e
           | Inr v \<Rightarrow> from_components (ukey h) v (eseqno h) Value)"
  unfolding merge_group_def tail_blob_def tail_merge_def Let_def list.sel(1) append_Nil2 by (rule refl)

lemma group_read_fold:
  assumes "live_operand c rts h" "\<not> tail_blob c rts (h # g)" "tail_merge c rts m (ukey h) (h # g) [] = Inr v"
    and "from_components (ukey h) v (eseqno h) Value = Inr r"
  shows "group_read c rts (Some m) (h # g) = Some (Inr r)"
  using assms by (simp add: group_read_def mvcc_resolve_def merge_group_tail live_operand_def is_tombstone_def is_tombstone_type_def)

lemma same_reads_Cons:
  assumes "same_reads c rts op k g g'" "ukey h = k"
  shows "same_reads c rts op k (h # g) (h # g')"
proof -
  have blob: "tail_blob c rts (h # g) = tail_blob c rts (h # g')"
    using assms(1) by (simp add: same_reads_def tail_blob_def merge_base_def)
  have merge: "tail_merge c rts m k (h # g) ys = tail_merge c rts m k (h # g') ys"
    if "op = Some m" "\<not> tail_blob c rts (h # g)" for m ys
  proof (cases "live_operand c rts h")
    case True
    then have "\<not> tail_blob c rts g" using that(2) by (simp add: tail_blob_def)
    then have "tail_merge c rts m k g (val h # ys) = tail_merge c rts m k g' (val h # ys)"
      using assms(1) that(1) by (simp add: same_reads_def)
    with True show ?thesis by (simp add: tail_merge_def)
  qed (simp add: tail_merge_def merge_base_def)
  have resolve: "mvcc_resolve c rts op (h # g) = mvcc_resolve c rts op (h # g')"
  proof (cases op)
    case (Some m)
    then show ?thesis using blob merge [OF Some] assms(2) by (simp add: mvcc_resolve_def merge_group_tail)
  qed (simp add: mvcc_resolve_def)
  show ?thesis unfolding same_reads_def using blob merge resolve by (simp add: group_read_def)
qed

lemma same_reads_gone:
  assumes "is_rt_suppressed c rts h \<or> is_tombstone h"
  shows "same_reads c rts op k [] (h # g)"
proof -
  have "\<not> live_operand c rts h"
    using assms by (auto simp: live_operand_def is_tombstone_def is_tombstone_type_def)
  then show ?thesis using assms
    by (auto simp: same_reads_def group_read_def tail_blob_def tail_merge_def merge_base_def)
qed

lemma same_reads_base:
  assumes "etype h \<noteq> MergeOperand"
  shows "same_reads c rts op k [h] (h # g)"
  using assms
  by (auto simp: same_reads_def group_read_def tail_blob_def tail_merge_def merge_base_def live_operand_def
      mvcc_resolve_def split: option.splits)

subsection \<open>The versions of one key\<close>

definition key_versions :: "user_key \<Rightarrow> internal_value list \<Rightarrow> bool" where
  "key_versions k g \<longleftrightarrow> (\<forall>e\<in>set g. ukey e = k \<and> wf_value e) \<and> sorted_wrt (\<lambda>a b. eseqno b < eseqno a) g"

lemma key_versions_simps [simp]:
  "key_versions k []"
  "key_versions k (h # g) \<longleftrightarrow> ukey h = k \<and> wf_value h \<and> (\<forall>e\<in>set g. eseqno e < eseqno h) \<and> key_versions k g"
  by (auto simp: key_versions_def)

lemma key_versions_append:
  "key_versions k (g @ g') \<longleftrightarrow> key_versions k g \<and> key_versions k g' \<and>
     (\<forall>a\<in>set g. \<forall>b\<in>set g'. eseqno b < eseqno a)"
  by (auto simp: key_versions_def sorted_wrt_append)

lemma key_versions_filter: "key_versions k g \<Longrightarrow> key_versions k (filter P g)"
  by (auto simp: key_versions_def sorted_wrt_filter)

text \<open>The range tombstones a read at \<open>s\<close> sees and compaction below \<open>threshold\<close> does not apply.\<close>

definition late_cover :: "comparator \<Rightarrow> range_tombstone list \<Rightarrow> seqno \<Rightarrow> seqno \<Rightarrow> user_key \<Rightarrow> bool" where
  "late_cover c ts threshold s k \<longleftrightarrow>
     (\<exists>rt\<in>set ts. threshold \<le> rt_seqno rt \<and> visible_at rt s \<and> contains_key_with c rt k)"

abbreviation rt_cut :: "range_tombstone list \<Rightarrow> seqno \<Rightarrow> (range_tombstone \<times> seqno) list" where
  "rt_cut ts s \<equiv> map (\<lambda>rt. (rt, s)) ts"

lemma gc_rules_of_simps [simp]:
  "gr_threshold (gc_rules_of c t ev z op ts) = t" "gr_evict (gc_rules_of c t ev z op ts) = ev"
  "gr_zero (gc_rules_of c t ev z op ts) = z" "gr_operator (gc_rules_of c t ev z op ts) = op"
  by (simp_all add: gc_rules_of_def)

lemma gr_covered_iff:
  "gr_covered (gc_rules_of c t ev z op ts) e \<longleftrightarrow>
     (\<exists>rt\<in>set ts. rt_seqno rt < t \<and> contains_key_with c rt (ukey e) \<and> eseqno e < rt_seqno rt)"
  by (auto simp: gc_rules_of_def list_ex_iff visible_at_def)

lemma suppressed_cut_iff:
  "is_rt_suppressed c (rt_cut ts s) e \<longleftrightarrow>
     (\<exists>rt\<in>set ts. rt_seqno rt < s \<and> contains_key_with c rt (ukey e) \<and> eseqno e < rt_seqno rt)"
  by (auto simp: is_rt_suppressed_def should_suppress_with_def list_ex_iff visible_at_def)

lemma covered_older:
  "gr_covered (gc_rules_of c t ev z op ts) e \<Longrightarrow> ukey e' = ukey e \<Longrightarrow> eseqno e' \<le> eseqno e \<Longrightarrow>
     gr_covered (gc_rules_of c t ev z op ts) e'"
  unfolding gr_covered_iff using le_less_trans by metis

lemma covered_suppressed:
  "t \<le> s \<Longrightarrow> gr_covered (gc_rules_of c t ev z op ts) e \<Longrightarrow> is_rt_suppressed c (rt_cut ts s) e"
  unfolding gr_covered_iff suppressed_cut_iff using less_le_trans by metis

lemma suppressed_old:
  assumes "t \<le> s" "eseqno e < t"
  shows "is_rt_suppressed c (rt_cut ts s) e \<longleftrightarrow>
    gr_covered (gc_rules_of c t ev z op ts) e \<or> late_cover c ts t s (ukey e)"
proof
  assume "is_rt_suppressed c (rt_cut ts s) e"
  then obtain rt where rt: "rt \<in> set ts" "rt_seqno rt < s" "contains_key_with c rt (ukey e)" "eseqno e < rt_seqno rt"
    unfolding suppressed_cut_iff by blast
  then show "gr_covered (gc_rules_of c t ev z op ts) e \<or> late_cover c ts t s (ukey e)"
    unfolding gr_covered_iff late_cover_def visible_at_def by (cases "rt_seqno rt < t") (auto simp: not_less)
next
  assume "gr_covered (gc_rules_of c t ev z op ts) e \<or> late_cover c ts t s (ukey e)"
  then show "is_rt_suppressed c (rt_cut ts s) e"
  proof
    assume "late_cover c ts t s (ukey e)"
    then show ?thesis using assms(2) less_le_trans
      unfolding suppressed_cut_iff late_cover_def visible_at_def by blast
  qed (rule covered_suppressed [OF assms(1)])
qed

lemma gc_emit_plain:
  "gc_emit (gc_rules_of c t ev False op ts) v =
     (if gr_covered (gc_rules_of c t ev False op ts) v then [] else [Inr v])"
  by (simp add: gc_emit_def gc_zeroed_def)

text \<open>Versions emitted as they are, down to a version that is not an operand.\<close>

lemma same_reads_emitted:
  assumes "t \<le> s" "key_versions k (xs @ b # r)" "\<not> is_operand b"
  shows "same_reads c (rt_cut ts s) op k
    (filter (\<lambda>v. \<not> gr_covered (gc_rules_of c t ev False op ts) v) (xs @ [b])) (xs @ b # r)"
  using assms(2)
proof (induction xs)
  case Nil
  show ?case
  proof (cases "gr_covered (gc_rules_of c t ev False op ts) b")
    case True
    then show ?thesis using same_reads_gone covered_suppressed [OF assms(1) True] by simp
  next
    case False
    then show ?thesis using same_reads_base [OF assms(3)] by simp
  qed
next
  case (Cons x xs)
  let ?cov = "gr_covered (gc_rules_of c t ev False op ts)"
  show ?case
  proof (cases "?cov x")
    case True
    have "?cov e" if "e \<in> set (xs @ [b])" for e
      by (rule covered_older [OF True]) (use that Cons.prems in \<open>auto simp: key_versions_append key_versions_def less_imp_le\<close>)
    then have "filter (\<lambda>v. \<not> ?cov v) (xs @ [b]) = []" by (simp only: filter_empty_conv not_not) simp
    then show ?thesis using True same_reads_gone [of c "rt_cut ts s" x op k "xs @ b # r"] covered_suppressed [OF assms(1) True]
      by (simp only: append_Cons filter.simps simp_thms if_False if_True)
  next
    case False
    have "same_reads c (rt_cut ts s) op k (x # filter (\<lambda>v. \<not> ?cov v) (xs @ [b])) (x # xs @ b # r)"
      by (rule same_reads_Cons) (use Cons in auto)
    then show ?thesis using False by simp
  qed
qed

text \<open>The operands and the base a read folds are those compaction folds.\<close>

lemma covered_tail:
  assumes "gr_covered (gc_rules_of c t ev z op ts) x" "key_versions k (x # xs @ rest)"
  shows "filter (\<lambda>v. \<not> gr_covered (gc_rules_of c t ev z op ts) v) xs = []"
    and "gc_base (gc_rules_of c t ev z op ts) rest = None"
proof -
  have cov: "gr_covered (gc_rules_of c t ev z op ts) e" if "e \<in> set (xs @ rest)" for e
    by (rule covered_older [OF assms(1)]) (use that assms(2) in \<open>auto simp: key_versions_append key_versions_def less_imp_le\<close>)
  then show "filter (\<lambda>v. \<not> gr_covered (gc_rules_of c t ev z op ts) v) xs = []" by (simp add: filter_empty_conv)
  show "gc_base (gc_rules_of c t ev z op ts) rest = None"
    using cov [of "hd rest"] by (cases rest) (auto simp: gc_base_def)
qed

lemma tail_fold:
  assumes "t \<le> s" "\<not> late_cover c ts t s k" "key_versions k (xs @ rest)" "\<forall>e\<in>set (xs @ rest). eseqno e < t"
    and "\<forall>e\<in>set xs. is_operand e" "rest = [] \<or> \<not> is_operand (hd rest)" "\<not> blob_base rest"
  shows "\<not> tail_blob c (rt_cut ts s) (xs @ rest) \<and> tail_merge c (rt_cut ts s) m k (xs @ rest) ys =
    m k (gc_base (gc_rules_of c t ev z op ts) rest)
      (rev (map val (filter (\<lambda>v. \<not> gr_covered (gc_rules_of c t ev z op ts) v) xs)) @ ys)"
  using assms(3-5)
proof (induction xs arbitrary: ys)
  case Nil
  show ?case
  proof (cases rest)
    case (Cons b r)
    then have b: "is_rt_suppressed c (rt_cut ts s) b \<longleftrightarrow> gr_covered (gc_rules_of c t ev z op ts) b"
      using suppressed_old [OF assms(1), of b c ts ev z op] Nil assms(2) by simp
    have "\<not> live_operand c (rt_cut ts s) b" using assms(6) Cons by (simp add: live_operand_def)
    then show ?thesis using assms(6,7) b Cons
      by (cases "etype b")
        (simp_all add: tail_blob_def tail_merge_def merge_base_def gc_base_def blob_base_def is_tombstone_def is_tombstone_type_def)
  qed (simp add: tail_blob_def tail_merge_def merge_base_def gc_base_def)
next
  case (Cons x xs)
  have x: "is_rt_suppressed c (rt_cut ts s) x \<longleftrightarrow> gr_covered (gc_rules_of c t ev z op ts) x"
    using suppressed_old [OF assms(1), of x c ts ev z op] Cons.prems assms(2) by simp
  show ?case
  proof (cases "gr_covered (gc_rules_of c t ev z op ts) x")
    case True
    have "key_versions k (x # xs @ rest)" using Cons.prems(1) by simp
    note tail = covered_tail [OF True this]
    have "\<not> live_operand c (rt_cut ts s) x" using x True by (simp add: live_operand_def)
    then show ?thesis using True x tail by (simp add: tail_blob_def tail_merge_def merge_base_def)
  next
    case False
    have "live_operand c (rt_cut ts s) x" using x False Cons.prems(3) by (simp add: live_operand_def)
    then show ?thesis using False Cons.IH [of "val x # ys"] Cons.prems
      by (simp add: tail_blob_def tail_merge_def)
  qed
qed

definition merged_version :: "internal_value \<Rightarrow> user_value \<Rightarrow> value_type \<Rightarrow> internal_value" where
  "merged_version h v t = \<lparr>key = \<lparr>user_key = ukey h, seqno = eseqno h, value_type = t\<rparr>, val = v\<rparr>"

lemma merged_version_simps [simp]:
  "ukey (merged_version h v t) = ukey h" "eseqno (merged_version h v t) = eseqno h"
  "etype (merged_version h v t) = t" "val (merged_version h v t) = v"
  by (simp_all add: merged_version_def)

lemma same_reads_merged:
  assumes "t \<le> s" and g: "key_versions k (h # ops @ rest)" "eseqno h < t" "\<forall>e\<in>set (h # ops). is_operand e"
    and rest: "rest = [] \<or> \<not> is_operand (hd rest)" "\<not> blob_base rest"
    and m: "stable_merge m" and uncov: "\<not> gr_covered (gc_rules_of c t ev False (Some m) ts) h"
    and v: "m k (gc_base (gc_rules_of c t ev False (Some m) ts) rest)
      (rev (map val (filter (\<lambda>v. \<not> gr_covered (gc_rules_of c t ev False (Some m) ts) v) (h # ops)))) = Inr v"
      "length v < 2 ^ 32"
  shows "same_reads c (rt_cut ts s) (Some m) k
    [merged_version h v (if rest \<noteq> [] then Value else MergeOperand)] (h # ops @ rest)"
proof -
  let ?M = "merged_version h v (if rest \<noteq> [] then Value else MergeOperand)"
  have k: "ukey h = k" "wf_value ?M" using g(1) v(2) by (auto simp: wf_value_def)
  show ?thesis
  proof (cases "late_cover c ts t s k")
    case True
    then have "is_rt_suppressed c (rt_cut ts s) h" "is_rt_suppressed c (rt_cut ts s) ?M"
      using suppressed_old [OF assms(1), of h c ts ev False "Some m"] suppressed_old [OF assms(1), of ?M c ts ev False "Some m"] g(2) k(1) by simp_all
    then show ?thesis
      by (intro same_reads_trans [OF same_reads_sym [OF same_reads_gone] same_reads_gone] disjI1)
  next
    case late: False
    let ?kept = "rev (map val (filter (\<lambda>v. \<not> gr_covered (gc_rules_of c t ev False (Some m) ts) v) (h # ops)))"
    let ?base = "gc_base (gc_rules_of c t ev False (Some m) ts) rest"
    have old: "\<forall>e\<in>set ((h # ops) @ rest). eseqno e < t"
      using g(1,2) less_trans [of _ "eseqno h" t] by simp
    have kv: "key_versions k ((h # ops) @ rest)" using g(1) by simp
    note right = tail_fold [OF assms(1) late kv old g(3) rest, where m = m and ev = ev and z = False and op = "Some m"]
    have sup: "\<not> is_rt_suppressed c (rt_cut ts s) h" "\<not> is_rt_suppressed c (rt_cut ts s) ?M"
      using suppressed_old [OF assms(1), of h c ts ev False "Some m"] suppressed_old [OF assms(1), of ?M c ts ev False "Some m"] g(2) k(1) late uncov by simp_all
    then have live: "live_operand c (rt_cut ts s) h" using g(3) by (simp add: live_operand_def)
    have fold: "m k ?base (?kept @ ys) = (if rest \<noteq> [] then m k (Some v) ys else m k None (v # ys))" for ys
    proof (cases rest)
      case Nil
      have "?kept \<noteq> []" "m k None ?kept = Inr v" using uncov v(1) Nil by (simp_all add: gc_base_def)
      from stable_mergeD(3) [OF m this] Nil show ?thesis by (simp add: gc_base_def)
    qed (simp add: stable_mergeD(2) [OF m v(1)])
    note tail_defs = tail_blob_def tail_merge_def live_operand_def merge_base_def is_tombstone_def is_tombstone_type_def
    have M: "\<not> tail_blob c (rt_cut ts s) [?M] \<and> tail_merge c (rt_cut ts s) m k [?M] ys = m k ?base (?kept @ ys)" for ys
      unfolding fold using sup(2) by (cases "rest = []"; simp add: tail_defs)
    have whole: "m k ?base ?kept = Inr v" by (rule v(1))
    have wrap: "from_components k v (eseqno h) Value = Inr (merged_version h v Value)"
      using k by (simp add: from_components_Inr merged_version_def wf_value_def)
    have "group_read c (rt_cut ts s) (Some m) (h # ops @ rest) = Some (Inr (merged_version h v Value))"
      by (rule group_read_fold [OF live]) (use right [of "[]"] k(1) whole wrap in \<open>simp_all only: append_Cons append_Nil2 simp_thms\<close>)
    moreover have "group_read c (rt_cut ts s) (Some m) [?M] = Some (Inr (merged_version h v Value))"
    proof (cases "rest = []")
      case True
      have "live_operand c (rt_cut ts s) ?M" using True sup(2) by (simp add: live_operand_def)
      then show ?thesis
        by (rule group_read_fold) (use M [of "[]"] k(1) whole wrap in \<open>simp_all only: merged_version_simps append_Nil2 simp_thms\<close>)
    next
      case False
      then show ?thesis using sup(2)
        by (simp add: group_read_def mvcc_resolve_def live_operand_def is_tombstone_def is_tombstone_type_def)
    qed
    ultimately show ?thesis using M right unfolding same_reads_def by (simp only: append_Cons simp_thms option.inject) simp
  qed
qed

subsection \<open>The versions of one key through compaction\<close>

text \<open>The output \<open>out\<close> for the versions \<open>g\<close> has no error, stays sorted and reads as \<open>g\<close> does.\<close>

definition keeps_reads ::
  "comparator \<Rightarrow> range_tombstone list \<Rightarrow> merge_fn option \<Rightarrow> seqno \<Rightarrow> user_key \<Rightarrow> item list \<Rightarrow> internal_value list \<Rightarrow> bool" where
  "keeps_reads c ts op s k out g \<longleftrightarrow>
     (\<exists>outs. out = map Inr outs \<and> key_versions k outs \<and> (\<forall>e\<in>set outs. eseqno e \<le> eseqno (hd g)) \<and>
        same_reads c (rt_cut ts s) op k (filter (\<lambda>e. eseqno e < s) outs) (filter (\<lambda>e. eseqno e < s) g))"

lemma keeps_reads_old:
  assumes "out = map Inr outs" "key_versions k outs" "\<forall>e\<in>set outs. eseqno e \<le> eseqno h"
    and "same_reads c (rt_cut ts s) op k outs (h # g)" "key_versions k (h # g)" "eseqno h < s"
  shows "keeps_reads c ts op s k out (h # g)"
proof -
  have "filter (\<lambda>e. eseqno e < s) outs = outs" using assms(3,6) by (auto simp: filter_id_conv intro: le_less_trans)
  moreover have "filter (\<lambda>e. eseqno e < s) (h # g) = h # g" using assms(5,6) by (auto simp: filter_id_conv intro: less_trans)
  ultimately show ?thesis unfolding keeps_reads_def using assms(1-4) by (intro exI [of _ outs]) simp
qed

lemma keeps_reads_Cons:
  assumes "keeps_reads c ts op s k out g" "key_versions k (h # g)" "g \<noteq> []"
  shows "keeps_reads c ts op s k (Inr h # out) (h # g)"
proof -
  obtain outs where outs: "out = map Inr outs" "key_versions k outs" "\<forall>e\<in>set outs. eseqno e \<le> eseqno (hd g)"
    "same_reads c (rt_cut ts s) op k (filter (\<lambda>e. eseqno e < s) outs) (filter (\<lambda>e. eseqno e < s) g)"
    using assms(1) unfolding keeps_reads_def by blast
  have less: "\<forall>e\<in>set outs. eseqno e < eseqno h"
    using outs(3) assms(2,3) by (cases g) (auto intro: le_less_trans)
  have "same_reads c (rt_cut ts s) op k (filter (\<lambda>e. eseqno e < s) (h # outs)) (filter (\<lambda>e. eseqno e < s) (h # g))"
    using outs(4) same_reads_Cons [OF outs(4), of h] assms(2) by simp
  with outs less assms(2) show ?thesis
    unfolding keeps_reads_def by (intro exI [of _ "h # outs"]) (auto intro: less_imp_le)
qed

lemma keeps_reads_none:
  assumes "is_rt_suppressed c (rt_cut ts s) h \<or> is_tombstone h" "key_versions k (h # g)" "g = [] \<or> eseqno h < s"
  shows "keeps_reads c ts op s k [] (h # g)"
proof -
  have "filter (\<lambda>e. eseqno e < s) (h # g) = (if eseqno h < s then h # g else [])"
    using assms(2,3) by (auto simp: filter_id_conv intro: less_trans)
  then show ?thesis unfolding keeps_reads_def using same_reads_gone [OF assms(1)] same_reads_refl by simp
qed

lemma keeps_reads_emit:
  assumes "t \<le> s" "key_versions k (h # g)" "g = [] \<or> eseqno h < t \<and> \<not> is_operand h"
  shows "keeps_reads c ts op s k (gc_emit (gc_rules_of c t ev False op ts) h) (h # g)"
proof (cases "gr_covered (gc_rules_of c t ev False op ts) h")
  case True
  then have "keeps_reads c ts op s k [] (h # g)"
    using assms by (intro keeps_reads_none) (auto simp: covered_suppressed)
  with True show ?thesis by (simp add: gc_emit_plain)
next
  case False
  show ?thesis
  proof (cases "g = []")
    case True
    with False assms(2) show ?thesis
      unfolding keeps_reads_def by (intro exI [of _ "[h]"]) (simp add: gc_emit_plain same_reads_refl)
  next
    case ne: False
    then have "same_reads c (rt_cut ts s) op k [h] (h # g)" using same_reads_base assms(3) by blast
    then show ?thesis
      by (intro keeps_reads_old [where outs = "[h]"]) (use False ne assms in \<open>auto simp: gc_emit_plain\<close>)
  qed
qed

lemma keeps_reads_merged:
  assumes "t \<le> s" and g: "key_versions k (h # ops @ rest)" "eseqno h < t" "\<forall>e\<in>set (h # ops). is_operand e"
    and rest: "rest = [] \<or> \<not> is_operand (hd rest)" "\<not> blob_base rest" and m: "op = Some m" "stable_merge m"
    and R: "R = gc_rules_of c t ev False op ts"
  shows "keeps_reads c ts op s k (gc_emit_item R (gc_merged R (h # ops) rest)) (h # ops @ rest)"
proof -
  let ?t = "if rest \<noteq> [] then Value else MergeOperand"
  obtain v where v: "m k (gc_base R rest) (rev (map val (filter (\<lambda>v. \<not> gr_covered R v) (h # ops)))) = Inr v" "length v < 2 ^ 32"
    using stable_mergeD(1) [OF m(2)] by blast
  have k: "ukey h = k" "wf_value (merged_version h v ?t)" using g(1) v(2) by (auto simp: wf_value_def)
  have merged: "gc_merged R (h # ops) rest = Inr (merged_version h v ?t)"
    using v(1) k m(1) unfolding gc_merged_def Let_def list.sel(1) R gc_rules_of_simps
    by (simp add: from_components_Inr merged_version_def)
  show ?thesis
  proof (cases "gr_covered R h")
    case True
    then have "is_rt_suppressed c (rt_cut ts s) h" unfolding R by (rule covered_suppressed [OF assms(1)])
    then have "keeps_reads c ts op s k [] (h # ops @ rest)"
      using g assms(1) by (intro keeps_reads_none) (auto intro: less_le_trans)
    moreover have "gc_emit_item R (gc_merged R (h # ops) rest) = []"
      using True unfolding merged gc_emit_item_def gc_emit_def by simp
    ultimately show ?thesis by simp
  next
    case False
    have "same_reads c (rt_cut ts s) op k [merged_version h v ?t] (h # ops @ rest)"
      unfolding m(1) by (rule same_reads_merged [OF assms(1) g rest m(2) False [unfolded R m(1)] v [unfolded R m(1)]])
    moreover have "gc_emit_item R (gc_merged R (h # ops) rest) = map Inr [merged_version h v ?t]"
      using False unfolding merged gc_emit_item_def unfolding R by (simp add: gc_emit_plain)
    moreover have "eseqno h < s" using g(2) assms(1) by (rule less_le_trans)
    ultimately show ?thesis
      by (intro keeps_reads_old [where outs = "[merged_version h v ?t]"]) (use k g(1) in simp_all)
  qed
qed

lemma keeps_reads_blob:
  assumes "t \<le> s" "key_versions k (h # ops @ rest)" "eseqno h < t" "blob_base rest" "R = gc_rules_of c t ev False op ts"
  shows "keeps_reads c ts op s k (concat (map (gc_emit R) (h # ops)) @ gc_versions R rest) (h # ops @ rest)"
proof -
  obtain b r where rest: "rest = b # r" "etype b = Indirection" using assms(4) by (cases rest) (auto simp: blob_base_def)
  have old: "eseqno h < s" "eseqno b < t" "\<forall>e\<in>set r. eseqno e < t"
    using assms(1-3) rest(1) by (auto simp: key_versions_append intro: less_le_trans less_trans)
  have "gc_versions R rest = gc_emit R b"
    using rest old(2,3) assms(5) by (auto simp: gc_versions.simps gr_foldable_def is_tombstone_def is_tombstone_type_def)
  moreover have "concat (map (gc_emit R) xs) = map Inr (filter (\<lambda>v. \<not> gr_covered R v) xs)" for xs
    unfolding assms(5) by (induction xs) (simp_all add: gc_emit_plain)
  ultimately have out: "concat (map (gc_emit R) (h # ops)) @ gc_versions R rest =
      map Inr (filter (\<lambda>v. \<not> gr_covered R v) ((h # ops) @ [b]))"
    by (metis (no_types, lifting) append_Nil2 concat.simps concat_append list.simps(8,9) map_append)
  have kv: "key_versions k ((h # ops) @ b # r)" using assms(2) rest(1) by simp
  have "same_reads c (rt_cut ts s) op k (filter (\<lambda>v. \<not> gr_covered R v) ((h # ops) @ [b])) ((h # ops) @ b # r)"
    unfolding assms(5) by (rule same_reads_emitted [OF assms(1) kv]) (simp add: rest(2))
  then have same: "same_reads c (rt_cut ts s) op k (filter (\<lambda>v. \<not> gr_covered R v) ((h # ops) @ [b])) (h # ops @ rest)"
    using rest(1) by simp
  have "key_versions k ((h # ops) @ [b])" using assms(2) rest(1) by (auto simp: key_versions_append)
  then have kept: "key_versions k (filter (\<lambda>v. \<not> gr_covered R v) ((h # ops) @ [b]))" by (rule key_versions_filter)
  have "\<forall>e\<in>set ((h # ops) @ [b]). eseqno e \<le> eseqno h"
    using assms(2) rest(1) by (auto simp: key_versions_append intro: less_imp_le)
  then have "\<forall>e\<in>set (filter (\<lambda>v. \<not> gr_covered R v) ((h # ops) @ [b])). eseqno e \<le> eseqno h"
    unfolding set_filter by blast
  from keeps_reads_old [OF out kept this same assms(2) old(1)] show ?thesis .
qed

lemma keeps_reads_emit_Cons:
  assumes "t \<le> s" "key_versions k (h # g)" "g \<noteq> []" "keeps_reads c ts op s k out g"
  shows "keeps_reads c ts op s k (gc_emit (gc_rules_of c t ev False op ts) h @ out) (h # g)"
proof (cases "gr_covered (gc_rules_of c t ev False op ts) h")
  case True
  obtain e g' where g: "g = e # g'" using assms(3) by (cases g) auto
  have "eseqno h < t" using True by (auto simp: gr_covered_iff)
  with assms(1) have vis: "eseqno h < s" by (rule less_le_trans [rotated])
  have "filter (\<lambda>e. eseqno e < s) g = g" using assms(2) vis by (auto simp: filter_id_conv intro: less_trans)
  moreover obtain outs where outs: "out = map Inr outs" "key_versions k outs" "\<forall>w\<in>set outs. eseqno w \<le> eseqno e"
    "same_reads c (rt_cut ts s) op k (filter (\<lambda>e. eseqno e < s) outs) (filter (\<lambda>e. eseqno e < s) g)"
    using assms(4) unfolding keeps_reads_def g by auto
  moreover have less: "\<forall>w\<in>set outs. eseqno w < eseqno h" using outs(3) assms(2) g by (auto intro: le_less_trans)
  then have "filter (\<lambda>e. eseqno e < s) outs = outs" using vis by (auto simp: filter_id_conv intro: less_trans)
  ultimately have kept: "same_reads c (rt_cut ts s) op k outs g" by simp
  have "gr_covered (gc_rules_of c t ev False op ts) e"
    by (rule covered_older [OF True]) (use assms(2) g in \<open>auto intro: less_imp_le\<close>)
  then have "is_rt_suppressed c (rt_cut ts s) e" by (rule covered_suppressed [OF assms(1)])
  then have below: "same_reads c (rt_cut ts s) op k [] g" unfolding g by (intro same_reads_gone disjI1)
  have "same_reads c (rt_cut ts s) op k [] (h # g)"
    by (intro same_reads_gone disjI1 covered_suppressed [OF assms(1) True])
  from same_reads_trans [OF kept same_reads_trans [OF same_reads_sym [OF below] this]]
  have "same_reads c (rt_cut ts s) op k outs (h # g)" .
  from keeps_reads_old [OF outs(1,2) _ this assms(2) vis] less True show ?thesis
    by (simp add: gc_emit_plain less_imp_le)
next
  case False
  then show ?thesis using keeps_reads_Cons [OF assms(4,2,3)] by (simp add: gc_emit_plain)
qed

lemma gc_versions_keeps_reads:
  assumes "t \<le> s" and op: "\<forall>m. op = Some m \<longrightarrow> stable_merge m" and R: "R = gc_rules_of c t ev False op ts"
  shows "key_versions k g \<Longrightarrow> keeps_reads c ts op s k (gc_versions R g) g"
proof (induction g rule: measure_induct_rule [where f = length])
  case (less g)
  show ?case
  proof (cases g)
    case Nil
    then show ?thesis by (simp add: keeps_reads_def same_reads_refl)
  next
    case (Cons h vs)
    let ?ops = "takeWhile is_operand vs" and ?rest = "dropWhile is_operand vs"
    note kv = less.prems [unfolded Cons]
    have split: "key_versions k (h # ?ops @ ?rest)" using kv by simp
    have rest: "?rest = [] \<or> \<not> is_operand (hd ?rest)" using hd_dropWhile [of is_operand vs] by blast
    have ops: "\<forall>e\<in>set (h # ?ops). is_operand e" if "is_operand h" using that by (auto dest: set_takeWhileD)
    have old: "eseqno h < s" if "gr_old R h" using that assms(1) R by (auto intro: less_le_trans)
    have emit: "keeps_reads c ts op s k (gc_emit R h) (h # vs)" if "vs = [] \<or> gr_old R h \<and> \<not> is_operand h"
      unfolding R by (rule keeps_reads_emit [OF assms(1) kv]) (use that R in simp)
    have fold: "keeps_reads c ts op s k (gc_emit_item R (gc_merged R (h # ?ops) ?rest)) (h # vs)"
      if f: "gr_foldable R h" and "\<not> blob_base ?rest"
    proof -
      obtain m where "op = Some m" "stable_merge m" using f op R by (auto simp: gr_foldable_def)
      from keeps_reads_merged [OF assms(1) split _ ops rest that(2) this R] f R show ?thesis
        by (simp add: gr_foldable_def)
    qed
    have blob: "keeps_reads c ts op s k (concat (map (gc_emit R) (h # ?ops)) @ gc_versions R ?rest) (h # vs)"
      if "gr_foldable R h" "blob_base ?rest"
      using keeps_reads_blob [OF assms(1) split _ that(2) R] that(1) R by (simp add: gr_foldable_def)
    have step: "keeps_reads c ts op s k (gc_emit R h @ gc_versions R vs) (h # vs)" if "vs \<noteq> []"
      unfolding R by (rule keeps_reads_emit_Cons [OF assms(1) kv that]) (use less.IH [of vs] kv Cons R in simp)
    have gone: "keeps_reads c ts op s k [] (h # vs)" if "is_tombstone h" "vs = [] \<or> gr_old R h"
      by (rule keeps_reads_none [OF _ kv]) (use that old in auto)
    have tomb: "is_tombstone h" if "etype h = Tombstone \<or> etype h = WeakTombstone"
      using that by (auto simp: is_tombstone_def is_tombstone_type_def)
    have single: "keeps_reads c ts op s k (gc_emit_item R (gc_merged R [h] [])) (h # vs)" if "vs = []" "gr_foldable R h"
      using fold that by (simp add: blob_base_def)
    have "keeps_reads c ts op s k (gc_versions R (h # vs)) (h # vs)"
      unfolding gc_versions.simps(2) using gone tomb emit single fold blob step
      by (cases "vs = []") (auto simp only: if_True if_False simp_thms split: if_splits)
    then show ?thesis by (simp only: Cons)
  qed
qed

subsection \<open>All keys\<close>

lemma snapshot_read_append:
  "\<forall>e\<in>set b. ukey e \<noteq> k \<Longrightarrow> snapshot_read c ts op s k (a @ b) = snapshot_read c ts op s k a"
  "\<forall>e\<in>set a. ukey e \<noteq> k \<Longrightarrow> snapshot_read c ts op s k (a @ b) = snapshot_read c ts op s k b"
  by (simp_all add: snapshot_read_def filter_False cong: filter_cong)

lemma snapshot_read_group:
  "\<forall>e\<in>set g. ukey e = k \<Longrightarrow>
     snapshot_read c ts op s k g = group_read c (rt_cut ts s) op (filter (\<lambda>e. eseqno e < s) g)"
  by (simp add: snapshot_read_def cong: filter_cong)

context user_comparator begin

lemma key_versions_group:
  assumes "version_sorted cmp (x # xs)" "\<forall>e\<in>set (x # xs). wf_value e"
  shows "key_versions (ukey x) (x # takeWhile (\<lambda>e. ukey e = ukey x) xs)"
proof -
  let ?g = "takeWhile (\<lambda>e. ukey e = ukey x) xs"
  have sorted: "sorted_wrt (entry_before cmp) (x # ?g)"
    using assms(1) sorted_wrt_append [of "entry_before cmp" "x # ?g" "dropWhile (\<lambda>e. ukey e = ukey x) xs"] by simp
  have same: "\<forall>e\<in>set (x # ?g). ukey e = ukey x" by (auto dest: set_takeWhileD)
  have "sorted_wrt (\<lambda>a b. eseqno b < eseqno a) (x # ?g)"
  proof (rule sorted_wrt_mono_rel [OF _ sorted])
    fix a b assume "a \<in> set (x # ?g)" "b \<in> set (x # ?g)" "entry_before cmp a b"
    moreover from this have "ukey a = ukey x" "ukey b = ukey x" using same by blast+
    ultimately show "eseqno b < eseqno a" by (simp add: entry_before_iff)
  qed
  moreover have "\<forall>e\<in>set (x # ?g). wf_value e" using assms(2) set_takeWhileD [of _ _ xs] by auto
  ultimately show ?thesis unfolding key_versions_def using same by blast
qed

lemma key_versions_sorted: "key_versions k g \<Longrightarrow> version_sorted cmp g"
  by (rule sorted_wrt_mono_rel [of g "\<lambda>a b. eseqno b < eseqno a"]) (simp_all add: key_versions_def entry_before_iff)

lemma gc_output_reads:
  assumes "t \<le> s" "\<forall>m. op = Some m \<longrightarrow> stable_merge m" "R = gc_rules_of cmp t ev False op ts"
  shows "version_sorted cmp vs \<Longrightarrow> \<forall>e\<in>set vs. wf_value e \<Longrightarrow>
    \<exists>outs. gc_output R vs = map Inr outs \<and> version_sorted cmp outs \<and> ukey ` set outs \<subseteq> ukey ` set vs \<and>
      (\<forall>k. snapshot_read cmp ts op s k outs = snapshot_read cmp ts op s k vs)"
proof (induction vs rule: key_groups.induct)
  case 1
  then show ?case by (simp add: gc_output_def)
next
  case (2 x xs)
  let ?g = "x # takeWhile (\<lambda>e. ukey e = ukey x) xs" and ?D = "dropWhile (\<lambda>e. ukey e = ukey x) xs"
  have D: "version_sorted cmp ?D" "\<forall>e\<in>set ?D. wf_value e"
    using 2(2,3) sorted_wrt_append [of "entry_before cmp" ?g ?D] by (auto dest: set_dropWhileD)
  have above: "klt cmp (ukey x) (ukey e)" if "e \<in> set ?D" for e by (rule dropWhile_greater [OF 2(2) that])
  obtain us where us: "gc_output R ?D = map Inr us" "version_sorted cmp us" "ukey ` set us \<subseteq> ukey ` set ?D"
    "\<And>k. snapshot_read cmp ts op s k us = snapshot_read cmp ts op s k ?D" using 2(1) [OF D] by blast
  note kv = key_versions_group [OF 2(2,3)]
  obtain os where os: "gc_versions R ?g = map Inr os" "key_versions (ukey x) os"
    "same_reads cmp (rt_cut ts s) op (ukey x) (filter (\<lambda>e. eseqno e < s) os) (filter (\<lambda>e. eseqno e < s) ?g)"
    using gc_versions_keeps_reads [OF assms kv] unfolding keeps_reads_def by blast
  have keys: "\<forall>e\<in>set os. ukey e = ukey x" "\<forall>e\<in>set ?g. ukey e = ukey x"
    using os(2) kv unfolding key_versions_def by blast+
  have D_keys: "\<forall>e\<in>set ?D. ukey e \<noteq> ukey x" using above keys.less_irrefl by (metis (no_types))
  have us_above: "\<forall>e\<in>set us. klt cmp (ukey x) (ukey e)"
  proof
    fix e assume "e \<in> set us"
    then obtain d where "d \<in> set ?D" "ukey e = ukey d" using us(3) by blast
    then show "klt cmp (ukey x) (ukey e)" using above by simp
  qed
  have us_keys: "\<forall>e\<in>set us. ukey e \<noteq> ukey x" using us_above keys.less_irrefl by (metis (no_types))
  have g: "snapshot_read cmp ts op s (ukey x) os = snapshot_read cmp ts op s (ukey x) ?g"
    using os(3) by (simp only: snapshot_read_group [OF keys(1)] snapshot_read_group [OF keys(2)] same_reads_def)
  have "snapshot_read cmp ts op s k (os @ us) = snapshot_read cmp ts op s k (?g @ ?D)" for k
  proof (cases "k = ukey x")
    case True
    show ?thesis unfolding True snapshot_read_append(1) [OF us_keys] snapshot_read_append(1) [OF D_keys] by (rule g)
  next
    case False
    then have "\<forall>e\<in>set os. ukey e \<noteq> k" "\<forall>e\<in>set ?g. ukey e \<noteq> k" using keys by blast+
    with us(4) show ?thesis by (simp only: snapshot_read_append(2))
  qed
  then have "snapshot_read cmp ts op s k (os @ us) = snapshot_read cmp ts op s k (x # xs)" for k by simp
  moreover have "version_sorted cmp (os @ us)"
    using key_versions_sorted [OF os(2)] us(2) us_above keys(1) by (simp add: sorted_wrt_append entry_before_iff)
  moreover have "gc_output R (x # xs) = map Inr (os @ us)" using os(1) us(1) by (simp add: gc_output_def)
  moreover have "ukey ` set (os @ us) \<subseteq> ukey ` set (x # xs)" using keys(1) us(3) by (auto dest: set_dropWhileD)
  ultimately show ?case by blast
qed

end


text \<open>An operator that adds bytes modulo 256.\<close>

definition add_bytes :: merge_fn where
  "add_bytes k base xs = Inr [sum_list (map sum_list (case base of None \<Rightarrow> xs | Some v \<Rightarrow> v # xs))]"

lemma add_bytes_stable: "stable_merge add_bytes"
  by (auto simp: stable_merge_def add_bytes_def split: option.splits)


end
