(* ===== verification/Seqno_Zeroer.thy ===== *)
theory Seqno_Zeroer
  imports Compaction_Reads
begin

text \<open>
  \<open>compaction/seqno_zeroer.rs\<close>: the adapter over a compaction's output that sets to zero the sequence
  numbers below the watermark, for keys no range tombstone of the version covers. It sweeps the
  tombstones as the keys ascend. The inner stream is a list of items; the shared balance counter is a
  field.
\<close>

record seqno_zeroer =
  sz_inner :: "item list"
  sz_enabled :: bool
  sz_comparator :: comparator
  sz_threshold :: seqno
  sz_tombstones :: "range_tombstone list"
  sz_idx :: nat
  sz_active :: active_set
  tombstones_sorted :: bool
  sz_gc_balance :: u64
  zeroed_any :: bool

definition sz_new ::
  "item list \<Rightarrow> bool \<Rightarrow> range_tombstone list \<Rightarrow> seqno \<Rightarrow> comparator \<Rightarrow> u64 \<Rightarrow> seqno_zeroer" where
  "sz_new inner enabled tombstones threshold c balance =
     \<lparr>sz_inner = inner, sz_enabled = enabled, sz_comparator = c, sz_threshold = threshold,
      sz_tombstones = tombstones, sz_idx = 0, sz_active = ats_new, tombstones_sorted = False,
      sz_gc_balance = balance, zeroed_any = False\<rparr>"

text \<open>\<open>None\<close> is the panic of the active set.\<close>

definition sz_covered :: "user_key \<Rightarrow> seqno_zeroer \<Rightarrow> (bool \<times> seqno_zeroer) option" where
  "sz_covered k st =
     (let c = sz_comparator st;
          ts = (if tombstones_sorted st then sz_tombstones st
                else sort_by (cmp_with_comparator c) (sz_tombstones st));
          (i, act) = activate_while (\<lambda>rt. c (rt_start rt) k \<noteq> Greater) (ats_activate c)
                       (map (\<lambda>rt. (rt, - 1)) ts) (sz_idx st) (sz_active st)
      in case ats_expire_until c k act of
           None \<Rightarrow> None
         | Some act' \<Rightarrow>
             Some (max_active_seqno act' \<noteq> None,
                   st\<lparr>sz_tombstones := ts, tombstones_sorted := True, sz_idx := i, sz_active := act'\<rparr>))"

definition report_zeroing :: "seqno_zeroer \<Rightarrow> seqno_zeroer" where
  "report_zeroing st =
     (if zeroed_any st then st else st\<lparr>zeroed_any := True, sz_gc_balance := sz_gc_balance st + 1\<rparr>)"

abbreviation with_seqno_0 :: "internal_value \<Rightarrow> internal_value" where
  "with_seqno_0 kv \<equiv> kv\<lparr>key := (key kv)\<lparr>seqno := 0\<rparr>\<rparr>"

definition sz_next :: "seqno_zeroer \<Rightarrow> item option \<times> seqno_zeroer" where
  "sz_next st =
     (case pop_front (sz_inner st) of
        (None, xs) \<Rightarrow> (None, st\<lparr>sz_inner := xs\<rparr>)
      | (Some (Inl e), xs) \<Rightarrow> (Some (Inl e), st\<lparr>sz_inner := xs\<rparr>)
      | (Some (Inr kv), xs) \<Rightarrow>
          (let st1 = st\<lparr>sz_inner := xs\<rparr> in
           if \<not> sz_enabled st1 then (Some (Inr kv), st1)
           else if eseqno kv > 0 \<and> eseqno kv < sz_threshold st1
           then (case sz_covered (ukey kv) st1 of
                   None \<Rightarrow> (Some (Inl Panicked), st1)
                 | Some (True, st2) \<Rightarrow> (Some (Inr kv), st2)
                 | Some (False, st2) \<Rightarrow> (Some (Inr (with_seqno_0 kv)), report_zeroing st2))
           else (Some (Inr kv), st1)))"

subsection \<open>What the adapter returns\<close>

definition zeroable :: "comparator \<Rightarrow> range_tombstone list \<Rightarrow> seqno \<Rightarrow> internal_value \<Rightarrow> bool" where
  "zeroable c ts threshold e \<longleftrightarrow> 0 < eseqno e \<and> eseqno e < threshold \<and>
     \<not> (\<exists>rt\<in>set ts. visible_at rt (- 1) \<and> contains_key_with c rt (ukey e))"

definition zeroed :: "comparator \<Rightarrow> range_tombstone list \<Rightarrow> seqno \<Rightarrow> internal_value \<Rightarrow> internal_value" where
  "zeroed c ts threshold e = (if zeroable c ts threshold e then with_seqno_0 e else e)"

definition zeroed_item :: "comparator \<Rightarrow> range_tombstone list \<Rightarrow> seqno \<Rightarrow> item \<Rightarrow> item" where
  "zeroed_item c ts threshold x = (case x of Inl e \<Rightarrow> Inl e | Inr v \<Rightarrow> Inr (zeroed c ts threshold v))"

context user_comparator begin

text \<open>The state of the sweep over the tombstones \<open>ts\<close>, asked about keys up to \<open>lo\<close> so far.\<close>

definition sz_swept :: "range_tombstone list \<Rightarrow> seqno \<Rightarrow> user_key option \<Rightarrow> seqno_zeroer \<Rightarrow> bool" where
  "sz_swept ts threshold lo st \<longleftrightarrow> sz_enabled st \<and> sz_comparator st = cmp \<and> sz_threshold st = threshold \<and>
     set (sz_tombstones st) = set ts \<and> (\<forall>l x. lo = Some l \<longrightarrow> Inr x \<in> set (sz_inner st) \<longrightarrow> kle cmp l (ukey x)) \<and>
     (if tombstones_sorted st
      then sorted_wrt (\<lambda>a b. cmp_with_comparator cmp a b \<noteq> Greater) (sz_tombstones st) \<and>
        fwd.swept (map (\<lambda>rt. (rt, - 1)) (sz_tombstones st)) (sz_idx st) lo (sz_active st)
      else lo = None \<and> sz_idx st = 0 \<and> sz_active st = ats_new \<and> length (sz_tombstones st) < 2 ^ 32)"

lemma sz_covered_law:
  assumes "sz_swept ts threshold lo st" "\<And>l. lo = Some l \<Longrightarrow> kle cmp l k"
    and "\<forall>x. Inr x \<in> set (sz_inner st) \<longrightarrow> kle cmp k (ukey x)"
  obtains st' where "sz_covered k st = Some (\<exists>rt\<in>set ts. visible_at rt (- 1) \<and> contains_key_with cmp rt k, st')"
    "sz_swept ts threshold (Some k) st'" "sz_inner st' = sz_inner st"
    "sz_gc_balance st' = sz_gc_balance st" "zeroed_any st' = zeroed_any st"
proof -
  define us where "us = (if tombstones_sorted st then sz_tombstones st
    else sort_by (cmp_with_comparator cmp) (sz_tombstones st))"
  let ?ps = "map (\<lambda>rt. (rt, - 1 :: seqno)) us"
  have us: "set us = set ts" using assms(1) by (simp add: us_def sz_swept_def)
  have sw: "fwd.swept ?ps (sz_idx st) lo (sz_active st)" and sorted: "sorted_wrt (\<lambda>a b. cmp_with_comparator cmp a b \<noteq> Greater) us"
    using assms(1) swept_new(1) [of ?ps] sorted_sort_by [OF rt_cmp_preorder]
    by (auto simp: sz_swept_def us_def split: if_splits)
  have sorted': "sorted_wrt (\<lambda>a b. cmp_with_comparator cmp (fst a) (fst b) \<noteq> Greater) ?ps"
    using sorted by (simp add: sorted_wrt_map)
  obtain i act where aw: "activate_while (\<lambda>rt. cmp (rt_start rt) k \<noteq> Greater) (ats_activate cmp) ?ps (sz_idx st) (sz_active st) = (i, act)"
    by (rule prod.exhaust)
  obtain a where a: "ats_expire_until cmp k act = Some a" "fwd.swept ?ps i (Some k) a"
    "max_active_seqno a \<noteq> None \<longleftrightarrow> (\<exists>t\<in>set ?ps. visible_pair t \<and> cmp (rt_start (fst t)) k \<noteq> Greater \<and> \<not> cmp (rt_end (fst t)) k \<noteq> Greater)"
    using fwd.sweep_covered [OF sw fwd_sorted_started [OF sorted'] assms(2) aw] by blast
  have cov: "max_active_seqno a \<noteq> None \<longleftrightarrow> (\<exists>rt\<in>set ts. visible_at rt (- 1) \<and> contains_key_with cmp rt k)"
    unfolding a(3) by (auto simp: us contains_key_with_def cmp_antisym)
  define st' where "st' = st\<lparr>sz_tombstones := us, tombstones_sorted := True, sz_idx := i, sz_active := a\<rparr>"
  have "sz_comparator st = cmp" using assms(1) by (simp add: sz_swept_def)
  then have "sz_covered k st = Some (\<exists>rt\<in>set ts. visible_at rt (- 1) \<and> contains_key_with cmp rt k, st')"
    using aw a(1) cov by (simp add: sz_covered_def us_def [symmetric] st'_def Let_def)
  moreover have "sz_swept ts threshold (Some k) st'"
    using assms(1,3) us sorted a(2) by (simp add: sz_swept_def st'_def)
  ultimately show thesis by (rule that) (simp_all add: st'_def)
qed

definition keys_ascend :: "item list \<Rightarrow> bool" where
  "keys_ascend = sorted_wrt (\<lambda>x y. \<forall>a b. x = Inr a \<longrightarrow> y = Inr b \<longrightarrow> kle cmp (ukey a) (ukey b))"

lemma zeroed_item_simps:
  "zeroed_item cmp ts threshold (Inl e) = Inl e"
  "zeroable cmp ts threshold v \<Longrightarrow> zeroed_item cmp ts threshold (Inr v) = Inr (with_seqno_0 v)"
  "zeroable cmp ts threshold v \<Longrightarrow> zeroed_item cmp ts threshold (Inr v) \<noteq> Inr v"
  "\<not> zeroable cmp ts threshold v \<Longrightarrow> zeroed_item cmp ts threshold (Inr v) = Inr v"
proof -
  assume z: "zeroable cmp ts threshold v"
  then have "eseqno (with_seqno_0 v) \<noteq> eseqno v" by (auto simp: zeroable_def)
  then have "with_seqno_0 v \<noteq> v" by (rule contrapos_nn) (rule arg_cong)
  then show "zeroed_item cmp ts threshold (Inr v) \<noteq> Inr v"
    using z by (simp add: zeroed_item_def zeroed_def)
qed (simp_all add: zeroed_item_def zeroed_def)

lemma sz_swept_report [simp]: "sz_swept ts threshold lo (report_zeroing st) = sz_swept ts threshold lo st"
  by (simp add: sz_swept_def report_zeroing_def)

lemma report_zeroing_simps:
  "sz_inner (report_zeroing st) = sz_inner st" "zeroed_any (report_zeroing st)"
  "sz_gc_balance (report_zeroing st) = (if \<not> zeroed_any st then sz_gc_balance st + 1 else sz_gc_balance st)"
  by (simp_all add: report_zeroing_def)

lemma sz_swept_pop:
  "sz_swept ts threshold lo st \<Longrightarrow> sz_inner st = x # xs \<Longrightarrow> sz_swept ts threshold lo (st\<lparr>sz_inner := xs\<rparr>)"
  by (auto simp: sz_swept_def)

lemma sz_next_law:
  assumes "sz_swept ts threshold lo st" "sz_inner st = x # xs" "keys_ascend (x # xs)"
  obtains lo' st' where "sz_next st = (Some (zeroed_item cmp ts threshold x), st')" "sz_swept ts threshold lo' st'"
    "sz_inner st' = xs" "zeroed_any st' \<longleftrightarrow> zeroed_any st \<or> zeroed_item cmp ts threshold x \<noteq> x"
    "sz_gc_balance st' =
      (if \<not> zeroed_any st \<and> zeroed_item cmp ts threshold x \<noteq> x then sz_gc_balance st + 1 else sz_gc_balance st)"
proof -
  let ?st = "st\<lparr>sz_inner := xs\<rparr>"
  note sw = sz_swept_pop [OF assms(1,2)]
  have cfg: "sz_enabled st" "sz_threshold st = threshold" using assms(1) by (auto simp: sz_swept_def)
  show thesis
  proof (cases x)
    case (Inl e)
    then show thesis using that [of ?st lo] assms(2) sw by (simp add: sz_next_def zeroed_item_simps)
  next
    case (Inr kv)
    show thesis
    proof (cases "eseqno kv > 0 \<and> eseqno kv < threshold")
      case False
      then have "zeroed_item cmp ts threshold x = x" using Inr zeroed_item_simps(4) by (auto simp: zeroable_def)
      then show thesis using that [of ?st lo] assms(2) sw Inr cfg False by (auto simp: sz_next_def)
    next
      case True
      have "kle cmp l (ukey kv)" if "lo = Some l" for l
        using assms(1,2) that Inr by (auto simp: sz_swept_def)
      moreover have "\<forall>y. Inr y \<in> set (sz_inner ?st) \<longrightarrow> kle cmp (ukey kv) (ukey y)"
        using assms(3) Inr by (auto simp: keys_ascend_def)
      ultimately obtain st' where st':
        "sz_covered (ukey kv) ?st = Some (\<exists>rt\<in>set ts. visible_at rt (- 1) \<and> contains_key_with cmp rt (ukey kv), st')"
        "sz_swept ts threshold (Some (ukey kv)) st'" "sz_inner st' = xs"
        "sz_gc_balance st' = sz_gc_balance st" "zeroed_any st' = zeroed_any st"
        by (rule sz_covered_law [OF sw]) auto
      show thesis
      proof (cases "zeroable cmp ts threshold kv")
        case z: True
        then have "sz_covered (ukey kv) ?st = Some (False, st')" using st'(1) by (simp add: zeroable_def)
        then have "sz_next st = (Some (Inr (with_seqno_0 kv)), report_zeroing st')"
          using assms(2) Inr cfg True by (simp add: sz_next_def)
        then show thesis using that [of "report_zeroing st'" "Some (ukey kv)"] st' zeroed_item_simps(2,3) [OF z] Inr
          by (simp only: report_zeroing_simps sz_swept_report simp_thms)
      next
        case z: False
        then have "sz_covered (ukey kv) ?st = Some (True, st')" using st'(1) True by (simp add: zeroable_def)
        then have "sz_next st = (Some (Inr kv), st')"
          using assms(2) Inr cfg True by (simp add: sz_next_def)
        then show thesis using that [of st'] st' zeroed_item_simps(4) [OF z] Inr by simp
      qed
    qed
  qed
qed

lemma sz_run_law:
  assumes "sz_swept ts threshold lo st" "keys_ascend (sz_inner st)"
  shows "fst (pull_run n sz_next st) = map Some (take n (map (zeroed_item cmp ts threshold) (sz_inner st))) @
      replicate (n - length (sz_inner st)) None \<and>
    sz_gc_balance (snd (pull_run n sz_next st)) = sz_gc_balance st +
      (if \<not> zeroed_any st \<and> (\<exists>x\<in>set (take n (sz_inner st)). zeroed_item cmp ts threshold x \<noteq> x) then 1 else 0)"
  using assms
proof (induction n arbitrary: st lo)
  case (Suc n)
  show ?case
  proof (cases "sz_inner st")
    case Nil
    then have "sz_next st = (None, st)" by (simp add: sz_next_def)
    then show ?thesis using Suc.IH [OF Suc.prems] Nil by (simp add: case_prod_beta)
  next
    case (Cons x xs)
    then have asc: "keys_ascend (x # xs)" using Suc.prems(2) by simp
    obtain lo' st' where st': "sz_next st = (Some (zeroed_item cmp ts threshold x), st')" "sz_swept ts threshold lo' st'"
      "sz_inner st' = xs" "zeroed_any st' \<longleftrightarrow> zeroed_any st \<or> zeroed_item cmp ts threshold x \<noteq> x"
      "sz_gc_balance st' =
        (if \<not> zeroed_any st \<and> zeroed_item cmp ts threshold x \<noteq> x then sz_gc_balance st + 1 else sz_gc_balance st)"
      by (rule sz_next_law [OF Suc.prems(1) Cons asc])
    have "keys_ascend (sz_inner st')" using asc st'(3) by (simp add: keys_ascend_def)
    from Suc.IH [OF st'(2) this] st' Cons show ?thesis by (auto simp: case_prod_beta)
  qed
qed simp

lemma sz_new_swept: "length ts < 2 ^ 32 \<Longrightarrow> sz_swept ts threshold None (sz_new xs True ts threshold cmp b)"
  by (simp add: sz_swept_def sz_new_def)

lemma version_sorted_ascend: "version_sorted cmp vs \<Longrightarrow> keys_ascend (map Inr vs)"
  unfolding keys_ascend_def sorted_wrt_map
  by (rule sorted_wrt_mono_rel [of vs "entry_before cmp"]) (simp_all add: entry_before_kle)

end

subsection \<open>Reads of the rewritten stream\<close>

text \<open>What a caller sees of a read: the sequence number is an encoding detail.\<close>

definition read_value :: "item option \<Rightarrow> (lsm_error + user_key \<times> value_type \<times> user_value) option" where
  "read_value = map_option (map_sum (\<lambda>e. e) (\<lambda>v. (ukey v, etype v, val v)))"

lemma zeroed_simps [simp]:
  "ukey (zeroed c ts t e) = ukey e" "etype (zeroed c ts t e) = etype e" "val (zeroed c ts t e) = val e"
  "is_tombstone (zeroed c ts t e) = is_tombstone e"
  by (simp_all add: zeroed_def is_tombstone_def)

lemma zeroed_visible: "t \<le> s \<Longrightarrow> eseqno (zeroed c ts t e) < s \<longleftrightarrow> eseqno e < s"
  by (auto simp: zeroed_def zeroable_def intro: less_le_trans le_less_trans)

lemma zeroed_suppressed:
  assumes "\<forall>rt\<in>set ts. visible_at rt (- 1)"
  shows "is_rt_suppressed c (rt_cut ts s) (zeroed c ts t e) = is_rt_suppressed c (rt_cut ts s) e"
  using assms by (auto simp: suppressed_cut_iff zeroed_def zeroable_def)

lemma from_components_seqno:
  "map_sum (\<lambda>e. e) (\<lambda>v. (ukey v, etype v, val v)) (from_components k v s t) =
   map_sum (\<lambda>e. e) (\<lambda>v. (ukey v, etype v, val v)) (from_components k v s' t)"
  by (auto simp: from_components_def internal_key_new_def internal_value_new_def)

lemma live_operand_zeroed:
  "\<forall>rt\<in>set ts. visible_at rt (- 1) \<Longrightarrow>
     live_operand c (rt_cut ts s) \<circ> zeroed c ts t = live_operand c (rt_cut ts s)"
  by (auto simp: live_operand_def zeroed_suppressed)

lemma merge_base_zeroed:
  "\<forall>rt\<in>set ts. visible_at rt (- 1) \<Longrightarrow>
     merge_base c (rt_cut ts s) (map (zeroed c ts t) es) = map_option (zeroed c ts t) (merge_base c (rt_cut ts s) es)"
  by (cases es) (simp_all add: merge_base_def zeroed_suppressed)

lemma group_read_zeroed:
  assumes "\<forall>rt\<in>set ts. visible_at rt (- 1)"
  shows "read_value (group_read c (rt_cut ts s) op (map (zeroed c ts t) g)) = read_value (group_read c (rt_cut ts s) op g)"
proof (cases g)
  case (Cons h r)
  let ?z = "zeroed c ts t" and ?live = "live_operand c (rt_cut ts s)"
  have val: "val \<circ> ?z = val" "etype \<circ> ?z = etype" by auto
  have split: "takeWhile ?live (map ?z g) = map ?z (takeWhile ?live g)" "dropWhile ?live (map ?z g) = map ?z (dropWhile ?live g)"
    using live_operand_zeroed [OF assms] by (simp_all add: takeWhile_map dropWhile_map)
  have merge: "read_value (Some (merge_group c (rt_cut ts s) m (map ?z g))) = read_value (Some (merge_group c (rt_cut ts s) m g))" for m
    unfolding merge_group_def Let_def split merge_base_zeroed [OF assms] option.map_comp map_map val
    using Cons from_components_seqno
    by (auto simp: read_value_def split: sum.splits)
  have "?live (?z h) = ?live h" using fun_cong [OF live_operand_zeroed [OF assms], where x = h] by simp
  with merge show ?thesis using Cons
    by (cases op) (simp_all add: group_read_def mvcc_resolve_def zeroed_suppressed [OF assms] read_value_def)
qed (simp add: group_read_def)

lemma snapshot_read_zeroed:
  assumes "\<forall>rt\<in>set ts. visible_at rt (- 1)" "t \<le> s"
  shows "read_value (snapshot_read c ts op s k (map (zeroed c ts t) vs)) = read_value (snapshot_read c ts op s k vs)"
proof -
  have "filter (\<lambda>e. ukey e = k \<and> eseqno e < s) (map (zeroed c ts t) vs) =
      map (zeroed c ts t) (filter (\<lambda>e. ukey e = k \<and> eseqno e < s) vs)"
    by (simp add: filter_map o_def zeroed_visible [OF assms(2)])
  then show ?thesis using group_read_zeroed [OF assms(1)] by (simp add: snapshot_read_def)
qed

lemma map_neq_iff: "map f xs \<noteq> xs \<longleftrightarrow> (\<exists>x\<in>set xs. f x \<noteq> x)"
  by (induction xs) auto

text \<open>
  C16: zeroing is invisible at or above the watermark. Over sorted input and the range tombstones of the
  version, the adapter returns every entry in order, with sequence number 0 exactly when it is below
  the watermark, not 0 yet, and its key is not covered by any range tombstone; it reports to the shared
  balance once, when it has rewritten something; and a read at or above the watermark, whatever the
  merge operator, sees the same value of every key before and after.
\<close>

theorem seqno_zeroer_reads:
  assumes "user_comparator c" "version_sorted c vs" "length ts < 2 ^ 32" "\<forall>rt\<in>set ts. visible_at rt (- 1)"
    and "threshold \<le> s"
  shows "let outs = map (zeroed c ts threshold) vs; run = pull_run n sz_next (sz_new (map Inr vs) True ts threshold c b)
    in fst run = map Some (take n (map Inr outs)) @ replicate (n - length vs) None \<and>
       sz_gc_balance (snd run) = b + (if take n outs \<noteq> take n vs then 1 else 0) \<and>
       read_value (snapshot_read c ts op s k outs) = read_value (snapshot_read c ts op s k vs)"
proof -
  let ?st = "sz_new (map Inr vs) True ts threshold c b"
  have new: "sz_inner ?st = map Inr vs" "sz_gc_balance ?st = b" "\<not> zeroed_any ?st" by (simp_all add: sz_new_def)
  have sw: "user_comparator.sz_swept c ts threshold None ?st" by (rule user_comparator.sz_new_swept [OF assms(1,3)])
  have "user_comparator.keys_ascend c (sz_inner ?st)"
    unfolding new by (rule user_comparator.version_sorted_ascend [OF assms(1,2)])
  note run = user_comparator.sz_run_law [OF assms(1) sw this, of n]
  have items: "map (zeroed_item c ts threshold) (map Inr vs) = map Inr (map (zeroed c ts threshold) vs)"
    by (simp add: zeroed_item_def)
  have "(\<exists>x\<in>set (take n (map Inr vs)). zeroed_item c ts threshold x \<noteq> x) \<longleftrightarrow>
      take n (map (zeroed c ts threshold) vs) \<noteq> take n vs"
    by (simp add: take_map map_neq_iff zeroed_item_def)
  with run [unfolded new(1) items] new(2,3) snapshot_read_zeroed [OF assms(4,5)]
  show ?thesis unfolding Let_def by (simp only: length_map simp_thms)
qed

theorem seqno_zeroer_reads_witness:
  "let a = \<lparr>key = \<lparr>user_key = [1], seqno = 9, value_type = Value\<rparr>, val = [4]\<rparr>;
       b = \<lparr>key = \<lparr>user_key = [2], seqno = 3, value_type = Value\<rparr>, val = [5]\<rparr>;
       rt = \<lparr>rt_start = [2], rt_end = [3], rt_seqno = 2\<rparr>;
       run = pull_run 2 sz_next (sz_new (map Inr [a, b]) True [rt] 10 default_compare 7)
   in fst run = [Some (Inr (with_seqno_0 a)), Some (Inr b)] \<and> sz_gc_balance (snd run) = 8"
proof -
  define a b rt where "a = \<lparr>key = \<lparr>user_key = [1], seqno = 9, value_type = Value\<rparr>, val = [4]\<rparr>"
    and "b = \<lparr>key = \<lparr>user_key = [2], seqno = 3, value_type = Value\<rparr>, val = [5]\<rparr>"
    and "rt = \<lparr>rt_start = [2], rt_end = [3], rt_seqno = 2\<rparr>"
  have sorted: "version_sorted default_compare [a, b]"
    by (simp add: entry_before_def compare_with_def default_compare_def a_def b_def)
  have "\<forall>r\<in>set [rt]. visible_at r (- 1)" by (simp add: visible_at_def rt_def)
  note law = seqno_zeroer_reads [OF user_comparator_default sorted _ this, of 10 10 2 7 None "[1]", unfolded Let_def]
  have "zeroed default_compare [rt] 10 a = with_seqno_0 a" "zeroed default_compare [rt] 10 b = b" "with_seqno_0 a \<noteq> a"
    by (simp_all add: zeroed_def zeroable_def contains_key_with_def visible_at_def default_compare_def a_def b_def rt_def)
  with law show ?thesis
    unfolding a_def [symmetric] b_def [symmetric] rt_def [symmetric] Let_def by simp
qed


end
