(* ===== verification/Key_Range.thy ===== *)
theory Key_Range
  imports User_Comparator
begin

text \<open>
  \<open>key_range.rs\<close>: closed key ranges, the tests between them, the coalescing of sorted ranges and the
  hull of a list of ranges. A range is well formed when its minimum is not above its maximum.
\<close>

record key_range =
  kr_min :: user_key
  kr_max :: user_key

datatype bound = Included user_key | Excluded user_key | Unbounded

definition kr_empty :: key_range where
  "kr_empty = \<lparr>kr_min = [], kr_max = []\<rparr>"

definition kr_contains_key :: "key_range \<Rightarrow> user_key \<Rightarrow> bool" where
  "kr_contains_key r k \<longleftrightarrow> slice_cmp k (kr_min r) \<noteq> Less \<and> slice_cmp k (kr_max r) \<noteq> Greater"

definition contains_range_cmp :: "comparator \<Rightarrow> key_range \<Rightarrow> key_range \<Rightarrow> bool" where
  "contains_range_cmp c r s \<longleftrightarrow> c (kr_min r) (kr_min s) \<noteq> Greater \<and> c (kr_max r) (kr_max s) \<noteq> Less"

definition overlaps_with_key_range_cmp :: "comparator \<Rightarrow> key_range \<Rightarrow> key_range \<Rightarrow> bool" where
  "overlaps_with_key_range_cmp c r s \<longleftrightarrow> c (kr_max r) (kr_min s) \<noteq> Less \<and> c (kr_min r) (kr_max s) \<noteq> Greater"

text \<open>The double loop: each range against those after it.\<close>

fun is_disjoint :: "key_range list \<Rightarrow> bool" where
  "is_disjoint [] \<longleftrightarrow> True"
| "is_disjoint (a # rs) \<longleftrightarrow>
     \<not> list_ex (\<lambda>b. overlaps_with_key_range_cmp default_compare a b) rs \<and> is_disjoint rs"

text \<open>The two halves of the test against bounds, each written twice in the source.\<close>

fun lo_included :: "comparator \<Rightarrow> bound \<Rightarrow> user_key \<Rightarrow> bool" where
  "lo_included c (Included k) my_hi \<longleftrightarrow> c k my_hi \<noteq> Greater"
| "lo_included c (Excluded k) my_hi \<longleftrightarrow> c k my_hi = Less"
| "lo_included c Unbounded my_hi \<longleftrightarrow> True"

fun hi_included :: "comparator \<Rightarrow> bound \<Rightarrow> user_key \<Rightarrow> bool" where
  "hi_included c (Included k) my_lo \<longleftrightarrow> c k my_lo \<noteq> Less"
| "hi_included c (Excluded k) my_lo \<longleftrightarrow> c k my_lo = Greater"
| "hi_included c Unbounded my_lo \<longleftrightarrow> True"

definition overlaps_with_bounds_cmp :: "comparator \<Rightarrow> key_range \<Rightarrow> bound \<times> bound \<Rightarrow> bool" where
  "overlaps_with_bounds_cmp c r bounds =
     (let (lo, hi) = bounds in
      if lo = Unbounded \<and> hi = Unbounded then True
      else if hi = Unbounded then lo_included c lo (kr_max r)
      else if lo = Unbounded then hi_included c hi (kr_min r)
      else lo_included c lo (kr_max r) \<and> hi_included c hi (kr_min r))"

text \<open>One iteration of the coalescing loop, then the loop.\<close>

definition merge_range :: "comparator \<Rightarrow> key_range list \<Rightarrow> key_range \<Rightarrow> key_range list" where
  "merge_range c out r =
     (if out \<noteq> [] \<and> c (kr_max (last out)) (kr_min r) \<noteq> Less
      then (if c (kr_max r) (kr_max (last out)) = Greater
            then butlast out @ [(last out)\<lparr>kr_max := kr_max r\<rparr>]
            else out)
      else out @ [r])"

definition merge_sorted_cmp :: "comparator \<Rightarrow> key_range list \<Rightarrow> key_range list" where
  "merge_sorted_cmp c ranges = foldl (merge_range c) [] ranges"

definition widen :: "comparator \<Rightarrow> user_key \<times> user_key \<Rightarrow> key_range \<Rightarrow> user_key \<times> user_key" where
  "widen c mm r =
     (case mm of (mn, mx) \<Rightarrow>
        (if c (kr_min r) mn = Less then kr_min r else mn, if c (kr_max r) mx = Greater then kr_max r else mx))"

definition aggregate_cmp :: "comparator \<Rightarrow> key_range list \<Rightarrow> key_range" where
  "aggregate_cmp c rs =
     (case rs of
        [] \<Rightarrow> kr_empty
      | first # others \<Rightarrow>
          (let (mn, mx) = foldl (widen c) (kr_min first, kr_max first) others
           in \<lparr>kr_min = mn, kr_max = mx\<rparr>))"

subsection \<open>The keys of a range\<close>

definition in_range :: "comparator \<Rightarrow> key_range \<Rightarrow> user_key \<Rightarrow> bool" where
  "in_range c r k \<longleftrightarrow> kle c (kr_min r) k \<and> kle c k (kr_max r)"

definition wf_range :: "comparator \<Rightarrow> key_range \<Rightarrow> bool" where
  "wf_range c r \<longleftrightarrow> kle c (kr_min r) (kr_max r)"

fun above_bound :: "comparator \<Rightarrow> bound \<Rightarrow> user_key \<Rightarrow> bool" where
  "above_bound c (Included l) k \<longleftrightarrow> kle c l k"
| "above_bound c (Excluded l) k \<longleftrightarrow> klt c l k"
| "above_bound c Unbounded k \<longleftrightarrow> True"

fun below_bound :: "comparator \<Rightarrow> bound \<Rightarrow> user_key \<Rightarrow> bool" where
  "below_bound c (Included h) k \<longleftrightarrow> kle c k h"
| "below_bound c (Excluded h) k \<longleftrightarrow> klt c k h"
| "below_bound c Unbounded k \<longleftrightarrow> True"

text \<open>Ranges in ascending order with no key in common.\<close>

definition ranges_ascend :: "comparator \<Rightarrow> key_range list \<Rightarrow> bool" where
  "ranges_ascend c rs \<longleftrightarrow> (\<forall>r\<in>set rs. wf_range c r) \<and> sorted_wrt (\<lambda>r s. klt c (kr_max r) (kr_min s)) rs"

lemma ranges_ascend_snoc:
  "ranges_ascend c (rs @ [r]) \<longleftrightarrow> ranges_ascend c rs \<and> wf_range c r \<and> (\<forall>s\<in>set rs. klt c (kr_max s) (kr_min r))"
  by (auto simp: ranges_ascend_def sorted_wrt_append)

context user_comparator begin

lemma lo_included_iff: "lo_included cmp lo m \<longleftrightarrow> above_bound cmp lo m"
  by (cases lo) (simp_all add: kle_def klt_def)

lemma hi_included_iff: "hi_included cmp hi m \<longleftrightarrow> below_bound cmp hi m"
  by (cases hi) (auto simp: key_order cmp_neq_Less cmp_neq_Greater)

lemma overlaps_with_bounds_iff:
  "overlaps_with_bounds_cmp cmp r (lo, hi) \<longleftrightarrow> above_bound cmp lo (kr_max r) \<and> below_bound cmp hi (kr_min r)"
  by (auto simp: overlaps_with_bounds_cmp_def lo_included_iff hi_included_iff)

lemma overlaps_iff:
  "overlaps_with_key_range_cmp cmp r s \<longleftrightarrow> kle cmp (kr_min s) (kr_max r) \<and> kle cmp (kr_min r) (kr_max s)"
  by (simp add: overlaps_with_key_range_cmp_def cmp_neq_Less cmp_neq_Greater)

lemma overlaps_common_key:
  assumes "wf_range cmp r" "wf_range cmp s"
  shows "overlaps_with_key_range_cmp cmp r s \<longleftrightarrow> (\<exists>k. in_range cmp r k \<and> in_range cmp s k)"
proof
  assume "overlaps_with_key_range_cmp cmp r s"
  then have ov: "kle cmp (kr_min s) (kr_max r)" "kle cmp (kr_min r) (kr_max s)" by (simp_all add: overlaps_iff)
  show "\<exists>k. in_range cmp r k \<and> in_range cmp s k"
  proof (cases "kle cmp (kr_min r) (kr_min s)")
    case True
    then show ?thesis using ov assms by (intro exI [of _ "kr_min s"]) (simp add: in_range_def wf_range_def)
  next
    case False
    then have "kle cmp (kr_min s) (kr_min r)" using kle_total by blast
    then show ?thesis using ov assms by (intro exI [of _ "kr_min r"]) (simp add: in_range_def wf_range_def)
  qed
qed (auto simp: overlaps_iff in_range_def intro: keys.order_trans)

lemma bound_mono:
  "above_bound cmp b k \<Longrightarrow> kle cmp k k' \<Longrightarrow> above_bound cmp b k'"
  "below_bound cmp b k' \<Longrightarrow> kle cmp k k' \<Longrightarrow> below_bound cmp b k"
  by (cases b; auto intro: keys.order_trans keys.less_le_trans keys.le_less_trans)+

lemma overlaps_bounds_common_key:
  "in_range cmp r k \<Longrightarrow> above_bound cmp lo k \<Longrightarrow> below_bound cmp hi k \<Longrightarrow> overlaps_with_bounds_cmp cmp r (lo, hi)"
  unfolding overlaps_with_bounds_iff in_range_def using bound_mono by blast

text \<open>One step of coalescing: the range starts no earlier than those before it.\<close>

lemma in_range_union:
  assumes "kle cmp (kr_min l) (kr_min r)" "kle cmp (kr_min r) (kr_max l)" "wf_range cmp r"
  shows "in_range cmp (if klt cmp (kr_max l) (kr_max r) then l\<lparr>kr_max := kr_max r\<rparr> else l) k \<longleftrightarrow>
    in_range cmp l k \<or> in_range cmp r k"
proof (cases "klt cmp (kr_max l) (kr_max r)")
  case True
  then show ?thesis using assms keys.linear [of k "kr_max l"]
    by (auto simp: in_range_def intro: keys.order_trans keys.less_imp_le)
next
  case False
  then have "kle cmp (kr_max r) (kr_max l)" by (simp add: keys.not_less)
  then show ?thesis using False assms by (auto simp: in_range_def intro: keys.order_trans)
qed

lemma merge_range_step:
  assumes "ranges_ascend cmp out" "wf_range cmp r" "\<forall>s\<in>set out. kle cmp (kr_min s) (kr_min r)"
  shows "ranges_ascend cmp (merge_range cmp out r) \<and>
    (\<forall>s\<in>set (merge_range cmp out r). kle cmp (kr_min s) (kr_min r)) \<and>
    (\<forall>k. (\<exists>s\<in>set (merge_range cmp out r). in_range cmp s k) \<longleftrightarrow> (\<exists>s\<in>set out. in_range cmp s k) \<or> in_range cmp r k)"
proof (cases "out = [] \<or> klt cmp (kr_max (last out)) (kr_min r)")
  case True
  have "klt cmp (kr_max s) (kr_min r)" if s: "s \<in> set out" for s
  proof -
    obtain xs l where out: "out = xs @ [l]" using s by (cases out rule: rev_cases) auto
    then have l: "klt cmp (kr_max l) (kr_min r)" using True by simp
    show ?thesis
    proof (cases "s = l")
      case False
      then have "s \<in> set xs" using s out by simp
      then have "klt cmp (kr_max s) (kr_min l)" "kle cmp (kr_min l) (kr_max l)"
        using assms(1) out by (auto simp: ranges_ascend_snoc wf_range_def)
      then show ?thesis using l by (blast intro: keys.less_trans keys.less_le_trans)
    qed (use l in simp)
  qed
  moreover have "merge_range cmp out r = out @ [r]" using True by (auto simp: merge_range_def cmp_klt)
  ultimately show ?thesis using assms by (auto simp: ranges_ascend_snoc)
next
  case False
  then obtain xs l where out: "out = xs @ [l]" by (cases out rule: rev_cases) auto
  have lr: "kle cmp (kr_min r) (kr_max l)" "kle cmp (kr_min l) (kr_min r)" using False out assms(3) by (auto simp: keys.not_less)
  let ?m = "if klt cmp (kr_max l) (kr_max r) then l\<lparr>kr_max := kr_max r\<rparr> else l"
  have merged: "merge_range cmp out r = xs @ [?m]"
    using False out by (auto simp: merge_range_def cmp_klt)
  have "wf_range cmp ?m" "kr_min ?m = kr_min l"
    using assms(1,2) lr out by (auto simp: wf_range_def ranges_ascend_snoc intro: keys.order_trans)
  then have "ranges_ascend cmp (xs @ [?m])" using assms(1) out by (simp add: ranges_ascend_snoc)
  moreover have "in_range cmp ?m k \<longleftrightarrow> in_range cmp l k \<or> in_range cmp r k" for k
    by (rule in_range_union [OF lr(2,1) assms(2)])
  ultimately show ?thesis unfolding merged using assms(3) out \<open>kr_min ?m = kr_min l\<close> by auto
qed

lemma merge_sorted_law:
  assumes "\<forall>r\<in>set rs. wf_range cmp r" "sorted_wrt (\<lambda>r s. kle cmp (kr_min r) (kr_min s)) rs"
  shows "ranges_ascend cmp (merge_sorted_cmp cmp rs) \<and>
    (\<forall>s\<in>set (merge_sorted_cmp cmp rs). \<forall>b. (\<forall>r\<in>set rs. kle cmp (kr_min r) b) \<longrightarrow> kle cmp (kr_min s) b) \<and>
    (\<forall>k. (\<exists>s\<in>set (merge_sorted_cmp cmp rs). in_range cmp s k) \<longleftrightarrow> (\<exists>r\<in>set rs. in_range cmp r k))"
  using assms
proof (induction rs rule: rev_induct)
  case Nil
  then show ?case by (simp add: merge_sorted_cmp_def ranges_ascend_def)
next
  case (snoc r rs)
  let ?out = "merge_sorted_cmp cmp rs"
  have IH: "ranges_ascend cmp ?out"
    "\<forall>s\<in>set ?out. \<forall>b. (\<forall>r\<in>set rs. kle cmp (kr_min r) b) \<longrightarrow> kle cmp (kr_min s) b"
    "\<forall>k. (\<exists>s\<in>set ?out. in_range cmp s k) \<longleftrightarrow> (\<exists>r\<in>set rs. in_range cmp r k)"
    using snoc by (auto simp: sorted_wrt_append)
  have "\<forall>s\<in>set ?out. kle cmp (kr_min s) (kr_min r)" using IH(2) snoc.prems(2) by (simp add: sorted_wrt_append)
  note step = merge_range_step [OF IH(1) _ this]
  have "merge_sorted_cmp cmp (rs @ [r]) = merge_range cmp ?out r" by (simp add: merge_sorted_cmp_def)
  then show ?case using step snoc.prems(1) IH(3) by (auto intro: keys.order_trans)
qed

lemma aggregate_law:
  assumes "foldl (widen cmp) (mn, mx) rs = (mn', mx')"
  shows "mn' \<in> insert mn (kr_min ` set rs) \<and> mx' \<in> insert mx (kr_max ` set rs) \<and>
    kle cmp mn' mn \<and> kle cmp mx mx' \<and> (\<forall>r\<in>set rs. kle cmp mn' (kr_min r) \<and> kle cmp (kr_max r) mx')"
  using assms
proof (induction rs arbitrary: mn mx)
  case (Cons r rs)
  let ?mn = "if cmp (kr_min r) mn = Less then kr_min r else mn" and ?mx = "if cmp (kr_max r) mx = Greater then kr_max r else mx"
  have "widen cmp (mn, mx) r = (?mn, ?mx)" by (simp add: widen_def)
  then have "foldl (widen cmp) (?mn, ?mx) rs = (mn', mx')" using Cons.prems by (simp only: foldl_Cons)
  note IH = Cons.IH [OF this]
  moreover have "kle cmp ?mn mn" "kle cmp ?mn (kr_min r)" "kle cmp mx ?mx" "kle cmp (kr_max r) ?mx"
    by (auto simp: cmp_klt keys.not_less keys.less_imp_le)
  ultimately show ?case by (auto intro: keys.order_trans split: if_splits)
qed simp

end

text \<open>
  C30: coalescing is exact. From well-formed ranges sorted by minimum, the result is well-formed ranges
  in ascending order, no two of which share a key, and the keys it covers are the keys of the input.
\<close>

theorem merge_sorted_exact:
  assumes "user_comparator c" "\<forall>r\<in>set rs. wf_range c r" "sorted_wrt (\<lambda>r s. kle c (kr_min r) (kr_min s)) rs"
  shows "ranges_ascend c (merge_sorted_cmp c rs) \<and>
    ((\<exists>s\<in>set (merge_sorted_cmp c rs). in_range c s k) \<longleftrightarrow> (\<exists>r\<in>set rs. in_range c r k))"
  using user_comparator.merge_sorted_law [OF assms] by blast

theorem merge_sorted_exact_witness:
  "let rs = [\<lparr>kr_min = [1], kr_max = [5]\<rparr>, \<lparr>kr_min = [2], kr_max = [7]\<rparr>, \<lparr>kr_min = [9], kr_max = [9]\<rparr>]
   in merge_sorted_cmp default_compare rs = [\<lparr>kr_min = [1], kr_max = [7]\<rparr>, \<lparr>kr_min = [9], kr_max = [9]\<rparr>] \<and>
      ranges_ascend default_compare (merge_sorted_cmp default_compare rs) \<and>
      (\<exists>s\<in>set (merge_sorted_cmp default_compare rs). in_range default_compare s [6])"
proof -
  let ?rs = "[\<lparr>kr_min = [1], kr_max = [5]\<rparr>, \<lparr>kr_min = [2], kr_max = [7]\<rparr>, \<lparr>kr_min = [9], kr_max = [9]\<rparr>]"
  have "\<forall>r\<in>set ?rs. wf_range default_compare r" "sorted_wrt (\<lambda>r s. kle default_compare (kr_min r) (kr_min s)) ?rs"
    "\<exists>r\<in>set ?rs. in_range default_compare r [6]"
    by (simp_all add: wf_range_def in_range_def kle_def default_compare_def)
  moreover have "merge_sorted_cmp default_compare ?rs = [\<lparr>kr_min = [1], kr_max = [7]\<rparr>, \<lparr>kr_min = [9], kr_max = [9]\<rparr>]"
    by code_simp
  ultimately show ?thesis using merge_sorted_exact [OF user_comparator_default, of ?rs "[6]"] unfolding Let_def by blast
qed

text \<open>
  The range tests answer what they are named for. Two well-formed ranges overlap exactly when some
  key is in both; a range that shares a key with bounds overlaps the bounds; the hull of a list of
  well-formed ranges contains each of them, and its ends are ends of the list.
\<close>

theorem key_range_tests:
  assumes "user_comparator c" "\<forall>r\<in>set (r # s # rs). wf_range c r"
  shows "(overlaps_with_key_range_cmp c r s \<longleftrightarrow> (\<exists>k. in_range c r k \<and> in_range c s k)) \<and>
    (in_range c r k \<and> above_bound c lo k \<and> below_bound c hi k \<longrightarrow> overlaps_with_bounds_cmp c r (lo, hi)) \<and>
    (\<forall>t\<in>set (r # rs). contains_range_cmp c (aggregate_cmp c (r # rs)) t) \<and>
    kr_min (aggregate_cmp c (r # rs)) \<in> kr_min ` set (r # rs) \<and> kr_max (aggregate_cmp c (r # rs)) \<in> kr_max ` set (r # rs)"
proof -
  obtain mn mx where f: "foldl (widen c) (kr_min r, kr_max r) rs = (mn, mx)" by fastforce
  then have agg: "aggregate_cmp c (r # rs) = \<lparr>kr_min = mn, kr_max = mx\<rparr>" by (simp add: aggregate_cmp_def)
  have "\<forall>t\<in>set (r # rs). contains_range_cmp c \<lparr>kr_min = mn, kr_max = mx\<rparr> t"
    using user_comparator.aggregate_law [OF assms(1) f]
    by (auto simp: contains_range_cmp_def user_comparator.cmp_neq_Greater [OF assms(1)] user_comparator.cmp_neq_Less [OF assms(1)])
  moreover have "mn \<in> kr_min ` set (r # rs)" "mx \<in> kr_max ` set (r # rs)"
    using user_comparator.aggregate_law [OF assms(1) f] by auto
  ultimately show ?thesis
    unfolding agg using user_comparator.overlaps_common_key [OF assms(1), of r s]
      user_comparator.overlaps_bounds_common_key [OF assms(1), of r k lo hi] assms(2) by simp
qed

theorem key_range_tests_witness:
  "let r = \<lparr>kr_min = [1], kr_max = [5]\<rparr>; s = \<lparr>kr_min = [6], kr_max = [7]\<rparr>
   in \<not> (\<exists>k. in_range default_compare r k \<and> in_range default_compare s k) \<and>
      contains_range_cmp default_compare (aggregate_cmp default_compare [r, s]) r"
proof -
  let ?r = "\<lparr>kr_min = [1], kr_max = [5]\<rparr>" and ?s = "\<lparr>kr_min = [6], kr_max = [7]\<rparr>"
  have "\<forall>r\<in>set [?r, ?s, ?s]. wf_range default_compare r" by (simp add: wf_range_def kle_def default_compare_def)
  moreover have "\<not> overlaps_with_key_range_cmp default_compare ?r ?s"
    by (simp add: overlaps_with_key_range_cmp_def default_compare_def)
  ultimately show ?thesis
    using key_range_tests [OF user_comparator_default, of ?r ?s "[?s]"] unfolding Let_def by simp
qed

end
