(* ===== verification/Runs.thy ===== *)
theory Runs
  imports Key_Range
begin

text \<open>
  \<open>version/run.rs\<close> and \<open>version/optimize.rs\<close>: runs of tables with disjoint key ranges, the searches in
  them, and the repacking of a level's runs. A run is a list of tables; the trait \<open>Ranged\<close> is the
  argument \<open>kr\<close>, the key range of a table.
\<close>

definition run_new :: "'a list \<Rightarrow> 'a list option" where
  "run_new items = (if items = [] then None else Some items)"

definition sort_by_cmp :: "comparator \<Rightarrow> ('a \<Rightarrow> key_range) \<Rightarrow> 'a list \<Rightarrow> 'a list" where
  "sort_by_cmp c kr run = sort_by (\<lambda>a b. c (kr_min (kr a)) (kr_min (kr b))) run"

definition push_cmp :: "comparator \<Rightarrow> ('a \<Rightarrow> key_range) \<Rightarrow> 'a \<Rightarrow> 'a list \<Rightarrow> 'a list" where
  "push_cmp c kr t run = sort_by_cmp c kr (run @ [t])"

definition get_for_key_cmp :: "comparator \<Rightarrow> ('a \<Rightarrow> key_range) \<Rightarrow> user_key \<Rightarrow> 'a list \<Rightarrow> 'a option" where
  "get_for_key_cmp c kr k run =
     (let idx = partition_point (\<lambda>x. c (kr_max (kr x)) k = Less) run
      in if idx < length run \<and> c (kr_min (kr (run ! idx))) k \<noteq> Greater then Some (run ! idx) else None)"

text \<open>\<open>None\<close> is the panic on an empty run.\<close>

definition aggregate_key_range :: "('a \<Rightarrow> key_range) \<Rightarrow> 'a list \<Rightarrow> key_range option" where
  "aggregate_key_range kr run =
     (if run = [] then None else Some \<lparr>kr_min = kr_min (kr (hd run)), kr_max = kr_max (kr (last run))\<rparr>)"

definition range_overlap_indexes_cmp ::
  "comparator \<Rightarrow> ('a \<Rightarrow> key_range) \<Rightarrow> bound \<times> bound \<Rightarrow> 'a list \<Rightarrow> (nat \<times> nat) option" where
  "range_overlap_indexes_cmp c kr bounds level =
     (let lo = (case fst bounds of
                  Unbounded \<Rightarrow> 0
                | Included s \<Rightarrow> partition_point (\<lambda>x. c (kr_max (kr x)) s = Less) level
                | Excluded s \<Rightarrow> partition_point (\<lambda>x. c (kr_max (kr x)) s \<noteq> Greater) level)
      in if lo \<ge> length level then None
         else (let truncated = drop lo level;
                   hi = (case snd bounds of
                           Unbounded \<Rightarrow> Some (length level - 1)
                         | Included e \<Rightarrow>
                             (let idx = lo + partition_point (\<lambda>x. c (kr_min (kr x)) e \<noteq> Greater) truncated
                              in if idx = 0 then None else Some (idx - 1))
                         | Excluded e \<Rightarrow>
                             (let idx = lo + partition_point (\<lambda>x. c (kr_min (kr x)) e = Less) truncated
                              in if idx = 0 then None else Some (idx - 1)))
               in case hi of
                    None \<Rightarrow> None
                  | Some h \<Rightarrow> if lo > h then None else Some (lo, h)))"

text \<open>\<open>slice::get(lo..=hi)\<close>: \<open>None\<close> when out of range.\<close>

definition get_slice :: "nat \<Rightarrow> nat \<Rightarrow> 'a list \<Rightarrow> 'a list option" where
  "get_slice lo hi xs = (if lo \<le> Suc hi \<and> hi < length xs then Some (take (Suc hi - lo) (drop lo xs)) else None)"

definition get_overlapping_cmp :: "comparator \<Rightarrow> ('a \<Rightarrow> key_range) \<Rightarrow> key_range \<Rightarrow> 'a list \<Rightarrow> 'a list" where
  "get_overlapping_cmp c kr r run =
     (case range_overlap_indexes_cmp c kr (Included (kr_min r), Included (kr_max r)) run of
        None \<Rightarrow> []
      | Some (lo, hi) \<Rightarrow> (case get_slice lo hi run of None \<Rightarrow> [] | Some s \<Rightarrow> s))"

fun position :: "('a \<Rightarrow> bool) \<Rightarrow> 'a list \<Rightarrow> nat option" where
  "position p [] = None"
| "position p (x # xs) = (if p x then Some 0 else map_option Suc (position p xs))"

definition rposition :: "('a \<Rightarrow> bool) \<Rightarrow> 'a list \<Rightarrow> nat option" where
  "rposition p xs = map_option (\<lambda>i. length xs - 1 - i) (position p (rev xs))"

definition trim_slice :: "('a \<Rightarrow> bool) \<Rightarrow> 'a list \<Rightarrow> 'a list option" where
  "trim_slice p xs =
     (let start = (case position p xs of None \<Rightarrow> length xs | Some i \<Rightarrow> i);
          en = (case rposition p xs of None \<Rightarrow> start | Some i \<Rightarrow> i + 1)
      in if start \<le> en \<and> en \<le> length xs then Some (take (en - start) (drop start xs)) else None)"

definition get_contained_cmp :: "comparator \<Rightarrow> ('a \<Rightarrow> key_range) \<Rightarrow> key_range \<Rightarrow> 'a list \<Rightarrow> 'a list option" where
  "get_contained_cmp c kr r run =
     (case range_overlap_indexes_cmp c kr (Included (kr_min r), Included (kr_max r)) run of
        None \<Rightarrow> Some []
      | Some (lo, hi) \<Rightarrow>
          (case get_slice lo hi run of
             None \<Rightarrow> Some []
           | Some s \<Rightarrow> trim_slice (\<lambda>x. contains_range_cmp c r (kr x)) s))"

subsection \<open>Repacking the runs of a level\<close>

text \<open>The first run, from the given end, none of whose tables overlaps the table takes it.\<close>

fun place_table :: "comparator \<Rightarrow> ('a \<Rightarrow> key_range) \<Rightarrow> 'a \<Rightarrow> 'a list list \<Rightarrow> 'a list list option" where
  "place_table c kr t [] = None"
| "place_table c kr t (run # runs) =
     (if list_all (\<lambda>x. \<not> overlaps_with_key_range_cmp c (kr t) (kr x)) run
      then Some (push_cmp c kr t run # runs)
      else map_option ((#) run) (place_table c kr t runs))"

definition optimize_table :: "comparator \<Rightarrow> ('a \<Rightarrow> key_range) \<Rightarrow> 'a list list \<Rightarrow> 'a \<Rightarrow> 'a list list" where
  "optimize_table c kr new_runs t =
     (case place_table c kr t (rev new_runs) of
        Some runs \<Rightarrow> rev runs
      | None \<Rightarrow> vec_insert 0 [t] new_runs)"

definition optimize_runs :: "comparator \<Rightarrow> ('a \<Rightarrow> key_range) \<Rightarrow> 'a list list \<Rightarrow> 'a list list" where
  "optimize_runs c kr runs =
     (if length runs \<le> 1 then runs
      else foldl (\<lambda>new_runs run. foldl (optimize_table c kr) new_runs (rev run)) [] (rev runs))"

subsection \<open>Searching a run\<close>

text \<open>A run in order: the ranges of its tables ascend and share no key.\<close>

definition run_ok :: "comparator \<Rightarrow> ('a \<Rightarrow> key_range) \<Rightarrow> 'a list \<Rightarrow> bool" where
  "run_ok c kr run \<longleftrightarrow> ranges_ascend c (map kr run)"

lemma run_ok_Cons:
  "run_ok c kr (t # run) \<longleftrightarrow>
     wf_range c (kr t) \<and> (\<forall>u\<in>set run. klt c (kr_max (kr t)) (kr_min (kr u))) \<and> run_ok c kr run"
  by (auto simp: run_ok_def ranges_ascend_def)

lemma find_skip: "\<forall>x\<in>set a. \<not> p x \<Longrightarrow> find p (a @ b) = find p b"
  by (induction a) auto

text \<open>A symmetric relation between all pairs survives sorting.\<close>

lemma sorted_wrt_insert_by:
  assumes "\<And>a b. P a b = P b a"
  shows "sorted_wrt P (insert_by c x ys) \<longleftrightarrow> sorted_wrt P (x # ys)"
proof (induction ys)
  case (Cons y ys)
  have "set (insert_by c x ys) = insert x (set ys)" by (induction ys) auto
  with Cons show ?case using assms [of x y] by auto
qed simp

lemma sorted_wrt_sort_by:
  assumes "sorted_wrt P xs" "\<And>a b. P a b = P b a"
  shows "sorted_wrt P (sort_by c xs)"
  using assms(1)
proof (induction xs)
  case (Cons x xs)
  have "sort_by c (x # xs) = insert_by c x (sort_by c xs)" by (simp add: sort_by_def)
  with Cons show ?case by (simp add: sorted_wrt_insert_by [of P, OF assms(2)])
qed (simp add: sort_by_def)

context user_comparator begin

lemma run_ok_mono:
  assumes "run_ok cmp kr run"
  shows "sorted_wrt (\<lambda>x y. klt cmp (kr_max (kr x)) (kr_max (kr y)) \<and> klt cmp (kr_min (kr x)) (kr_min (kr y))) run"
  using assms
proof (induction run)
  case (Cons t run)
  have "klt cmp (kr_max (kr t)) (kr_max (kr u)) \<and> klt cmp (kr_min (kr t)) (kr_min (kr u))" if "u \<in> set run" for u
  proof -
    have "klt cmp (kr_max (kr t)) (kr_min (kr u))" "kle cmp (kr_min (kr u)) (kr_max (kr u))" "kle cmp (kr_min (kr t)) (kr_max (kr t))"
      using Cons.prems that by (auto simp: run_ok_def ranges_ascend_def wf_range_def)
    then show ?thesis by (blast intro: keys.less_le_trans keys.le_less_trans)
  qed
  then show ?case using Cons by (simp add: run_ok_Cons)
qed simp

lemma run_searches:
  assumes "run_ok cmp kr run"
  shows "sorted_wrt (\<lambda>x y. \<not> above_bound cmp b (kr_max (kr y)) \<longrightarrow> \<not> above_bound cmp b (kr_max (kr x))) run"
    and "sorted_wrt (\<lambda>x y. below_bound cmp b (kr_min (kr y)) \<longrightarrow> below_bound cmp b (kr_min (kr x))) run"
proof -
  show "sorted_wrt (\<lambda>x y. \<not> above_bound cmp b (kr_max (kr y)) \<longrightarrow> \<not> above_bound cmp b (kr_max (kr x))) run"
    by (rule sorted_wrt_mono_rel [OF _ run_ok_mono [OF assms]]) (blast intro: bound_mono keys.less_imp_le)
  show "sorted_wrt (\<lambda>x y. below_bound cmp b (kr_min (kr y)) \<longrightarrow> below_bound cmp b (kr_min (kr x))) run"
    by (rule sorted_wrt_mono_rel [OF _ run_ok_mono [OF assms]]) (blast intro: bound_mono keys.less_imp_le)
qed

text \<open>The two searches, in terms of the bounds.\<close>

lemma start_search:
  assumes "run_ok cmp kr run"
  shows "(case b of
      Unbounded \<Rightarrow> 0
    | Included s \<Rightarrow> partition_point (\<lambda>x. cmp (kr_max (kr x)) s = Less) run
    | Excluded s \<Rightarrow> partition_point (\<lambda>x. cmp (kr_max (kr x)) s \<noteq> Greater) run) =
    length (takeWhile (\<lambda>x. \<not> above_bound cmp b (kr_max (kr x))) run)"
  using partition_point_sorted [OF run_searches(1) [OF assms, of b]]
  by (cases b; cases run) (simp_all add: cmp_klt keys.not_less keys.not_le)

lemma end_search:
  assumes "run_ok cmp kr run"
  shows "partition_point (\<lambda>x. cmp (kr_min (kr x)) e \<noteq> Greater) run = length (takeWhile (\<lambda>x. below_bound cmp (Included e) (kr_min (kr x))) run)"
    and "partition_point (\<lambda>x. cmp (kr_min (kr x)) e = Less) run = length (takeWhile (\<lambda>x. below_bound cmp (Excluded e) (kr_min (kr x))) run)"
  using partition_point_sorted [OF run_searches(2) [OF assms, of "Included e"]]
    partition_point_sorted [OF run_searches(2) [OF assms, of "Excluded e"]]
  by (simp_all add: cmp_klt keys.not_less)

lemma run_ok_drop: "run_ok cmp kr run \<Longrightarrow> run_ok cmp kr (drop n run)"
  unfolding run_ok_def ranges_ascend_def by (auto simp: sorted_wrt_map sorted_wrt_drop dest: in_set_dropD)

lemma range_overlap_slice:
  assumes "run_ok cmp kr run"
  shows "(case range_overlap_indexes_cmp cmp kr (lo, hi) run of
      None \<Rightarrow> []
    | Some (i, j) \<Rightarrow> (case get_slice i j run of None \<Rightarrow> [] | Some s \<Rightarrow> s)) =
    filter (\<lambda>x. overlaps_with_bounds_cmp cmp (kr x) (lo, hi)) run"
proof -
  let ?p = "\<lambda>x. \<not> above_bound cmp lo (kr_max (kr x))" and ?q = "\<lambda>x. below_bound cmp hi (kr_min (kr x))"
  define i where "i = length (takeWhile ?p run)"
  define n where "n = length (takeWhile ?q (drop i run))"
  have rest: "drop i run = filter (\<lambda>x. \<not> ?p x) run"
    using filter_split(2) [OF run_searches(1) [OF assms, of lo]] by (simp add: i_def dropWhile_eq_drop)
  have "takeWhile ?q (drop i run) = filter ?q (drop i run)"
    by (rule filter_split(1) [OF run_searches(2) [OF run_ok_drop [OF assms]]])
  then have out: "take n (drop i run) = filter (\<lambda>x. overlaps_with_bounds_cmp cmp (kr x) (lo, hi)) run"
    unfolding n_def takeWhile_eq_take [symmetric] by (simp add: rest overlaps_with_bounds_iff conj_commute)
  have n: "n \<le> length run - i" using length_takeWhile_le [of ?q "drop i run"] by (simp add: n_def)
  have hi: "(case hi of
        Unbounded \<Rightarrow> Some (length run - 1)
      | Included e \<Rightarrow> (let idx = i + partition_point (\<lambda>x. cmp (kr_min (kr x)) e \<noteq> Greater) (drop i run) in if idx = 0 then None else Some (idx - 1))
      | Excluded e \<Rightarrow> (let idx = i + partition_point (\<lambda>x. cmp (kr_min (kr x)) e = Less) (drop i run) in if idx = 0 then None else Some (idx - 1))) =
    (if i + n = 0 then None else Some (i + n - 1))" if "i < length run"
    using end_search [OF run_ok_drop [OF assms, of i]] that
    by (cases hi) (auto simp: n_def takeWhile_eq_all_conv [THEN iffD2])
  have "range_overlap_indexes_cmp cmp kr (lo, hi) run = (if n = 0 then None else Some (i, i + n - 1))"
  proof (cases "i < length run")
    case True
    show ?thesis
      unfolding range_overlap_indexes_cmp_def fst_conv snd_conv start_search [OF assms] i_def [symmetric] Let_def
        hi [OF True, unfolded Let_def]
      using True by auto
  next
    case False
    then show ?thesis
      unfolding range_overlap_indexes_cmp_def fst_conv snd_conv start_search [OF assms] i_def [symmetric] Let_def
      using n by simp
  qed
  then show ?thesis using out n by (auto simp: get_slice_def)
qed

lemma get_for_key_law:
  assumes "run_ok cmp kr run"
  shows "get_for_key_cmp cmp kr k run = find (\<lambda>t. in_range cmp (kr t) k) run"
proof -
  let ?p = "\<lambda>x. klt cmp (kr_max (kr x)) k"
  have idx: "partition_point (\<lambda>x. cmp (kr_max (kr x)) k = Less) run = length (takeWhile ?p run)"
    using start_search [OF assms, of "Included k"] by (simp add: keys.not_le)
  have "\<forall>x\<in>set (takeWhile ?p run). \<not> in_range cmp (kr x) k"
    by (auto simp: in_range_def keys.not_le dest: set_takeWhileD)
  from find_skip [OF this, of "dropWhile ?p run"]
  have find: "find (\<lambda>t. in_range cmp (kr t) k) run = find (\<lambda>t. in_range cmp (kr t) k) (dropWhile ?p run)" by simp
  show ?thesis
  proof (cases "dropWhile ?p run")
    case Nil
    then have "length (takeWhile ?p run) = length run" by (metis append_Nil2 takeWhile_dropWhile_id)
    then show ?thesis using find Nil idx by (simp add: get_for_key_cmp_def)
  next
    case (Cons x xs)
    have x: "\<not> ?p x" using hd_dropWhile [of ?p run] Cons by simp
    define a where "a = takeWhile ?p run"
    have split: "run = a @ x # xs" using Cons takeWhile_dropWhile_id [of ?p run] by (simp add: a_def)
    then have at: "length a < length run" "run ! length a = x" by simp_all
    have "run_ok cmp kr (x # xs)" using run_ok_drop [OF assms, of "length a"] split by simp
    then have "klt cmp (kr_min (kr x)) (kr_min (kr y))" if "y \<in> set xs" for y using run_ok_mono that by force
    then have "find (\<lambda>t. in_range cmp (kr t) k) (x # xs) = (if kle cmp (kr_min (kr x)) k then Some x else None)"
      using x by (auto simp: in_range_def find_None_iff keys.not_less keys.not_le intro: keys.less_trans)
    then show ?thesis using at find Cons unfolding get_for_key_cmp_def idx a_def [symmetric] by (simp add: cmp_neq_Greater)
  qed
qed

end

subsection \<open>Trimming\<close>

lemma position_skip: "\<forall>x\<in>set a. \<not> p x \<Longrightarrow> position p (a @ b) = map_option (\<lambda>i. length a + i) (position p b)"
  by (cases "position p b"; induction a) auto

lemma trim_slice_block:
  assumes "\<forall>x\<in>set a. \<not> p x" "\<forall>x\<in>set b. p x" "\<forall>x\<in>set d. \<not> p x"
  shows "trim_slice p (a @ b @ d) = Some b"
proof (cases b)
  case Nil
  have "position p (a @ d) = None" "position p (rev d @ rev a) = None"
    using assms position_skip [of a p d] position_skip [of d p "[]"] position_skip [of "rev d" p "rev a"] position_skip [of "rev a" p "[]"]
    by simp_all
  then show ?thesis using Nil by (simp add: trim_slice_def rposition_def)
next
  case (Cons x xs)
  obtain ys y where snoc: "b = ys @ [y]" using Cons by (metis neq_Nil_conv rev_exhaust)
  have "position p (a @ b @ d) = Some (length a)" using assms Cons position_skip [of a p "b @ d"] by simp
  moreover have "position p (rev (a @ b @ d)) = Some (length d)"
    using assms snoc position_skip [of "rev d" p "rev b @ rev a"] by simp
  then have "rposition p (a @ b @ d) = Some (length a + length b - 1)" using Cons by (simp add: rposition_def)
  ultimately show ?thesis using Cons by (simp add: trim_slice_def)
qed

context user_comparator begin

lemma get_overlapping_law:
  assumes "run_ok cmp kr run"
  shows "get_overlapping_cmp cmp kr r run = filter (\<lambda>t. overlaps_with_key_range_cmp cmp r (kr t)) run"
  unfolding get_overlapping_cmp_def range_overlap_slice [OF assms]
  by (rule filter_cong [OF refl]) (auto simp: overlaps_with_bounds_iff overlaps_iff)

lemma trim_contained:
  assumes "run_ok cmp kr run"
  shows "trim_slice (\<lambda>t. contains_range_cmp cmp r (kr t)) run = Some (filter (\<lambda>t. contains_range_cmp cmp r (kr t)) run)"
proof -
  let ?c = "\<lambda>t. contains_range_cmp cmp r (kr t)"
  let ?p = "\<lambda>t. \<not> kle cmp (kr_min r) (kr_min (kr t))" and ?q = "\<lambda>t. kle cmp (kr_max (kr t)) (kr_max r)"
  let ?b = "dropWhile ?p run"
  have c: "?c t \<longleftrightarrow> \<not> ?p t \<and> ?q t" for t by (simp add: contains_range_cmp_def cmp_neq_Greater cmp_neq_Less)
  have p: "sorted_wrt (\<lambda>x y. ?p y \<longrightarrow> ?p x) run" and q: "sorted_wrt (\<lambda>x y. ?q y \<longrightarrow> ?q x) run"
    using run_ok_mono [OF assms]
    by (auto elim!: sorted_wrt_mono_rel [rotated] intro: keys.order_trans keys.less_imp_le)
  have b: "?b = filter (\<lambda>t. \<not> ?p t) run" by (rule filter_split(2) [OF p])
  have q': "sorted_wrt (\<lambda>x y. ?q y \<longrightarrow> ?q x) ?b" using sorted_wrt_drop [OF q] by (simp add: dropWhile_eq_drop)
  have kept: "\<forall>t\<in>set ?b. \<not> ?p t" by (simp add: b)
  have "trim_slice ?c (takeWhile ?p run @ filter ?q ?b @ filter (\<lambda>t. \<not> ?q t) ?b) = Some (filter ?q ?b)"
  proof (rule trim_slice_block)
    show "\<forall>t\<in>set (takeWhile ?p run). \<not> ?c t" unfolding c using set_takeWhileD [of _ ?p run] by blast
    show "\<forall>t\<in>set (filter ?q ?b). ?c t" unfolding c set_filter using kept by blast
    show "\<forall>t\<in>set (filter (\<lambda>t. \<not> ?q t) ?b). \<not> ?c t" unfolding c set_filter by blast
  qed
  moreover have "takeWhile ?p run @ filter ?q ?b @ filter (\<lambda>t. \<not> ?q t) ?b = run"
    unfolding filter_split [OF q', symmetric] by simp
  moreover have "filter ?q ?b = filter ?c run" unfolding b filter_filter by (rule filter_cong [OF refl]) (simp add: c conj_commute)
  ultimately show ?thesis by (simp only:)
qed

lemma run_ok_filter: "run_ok cmp kr run \<Longrightarrow> run_ok cmp kr (filter p run)"
  unfolding run_ok_def ranges_ascend_def by (auto simp: sorted_wrt_map sorted_wrt_filter)

lemma get_contained_law:
  assumes "run_ok cmp kr run"
  shows "get_contained_cmp cmp kr r run = Some (filter (\<lambda>t. contains_range_cmp cmp r (kr t)) run)"
proof -
  let ?s = "filter (\<lambda>t. overlaps_with_key_range_cmp cmp r (kr t)) run"
  have s: "get_overlapping_cmp cmp kr r run = ?s" by (rule get_overlapping_law [OF assms])
  have "get_contained_cmp cmp kr r run = trim_slice (\<lambda>t. contains_range_cmp cmp r (kr t)) ?s"
    unfolding s [symmetric] get_contained_cmp_def get_overlapping_cmp_def
    by (auto simp: trim_slice_def rposition_def split: option.splits)
  also have "\<dots> = Some (filter (\<lambda>t. contains_range_cmp cmp r (kr t)) ?s)"
    by (rule trim_contained [OF run_ok_filter [OF assms]])
  also have "filter (\<lambda>t. contains_range_cmp cmp r (kr t)) ?s = filter (\<lambda>t. contains_range_cmp cmp r (kr t)) run"
    unfolding filter_filter
  proof (rule filter_cong [OF refl])
    fix t assume "t \<in> set run"
    then have "kle cmp (kr_min (kr t)) (kr_max (kr t))" using assms by (simp add: run_ok_def ranges_ascend_def wf_range_def)
    then show "(overlaps_with_key_range_cmp cmp r (kr t) \<and> contains_range_cmp cmp r (kr t)) = contains_range_cmp cmp r (kr t)"
      by (auto simp: contains_range_cmp_def overlaps_iff cmp_neq_Greater cmp_neq_Less intro: keys.order_trans)
  qed
  finally show ?thesis .
qed

subsection \<open>Repacking\<close>

lemma min_preorder: "cmp_preorder (\<lambda>a b. cmp (kr_min (kr a)) (kr_min (kr b)))"
  unfolding cmp_preorder_def by (auto simp: cmp_neq_Greater cmp_klt intro: keys.order_trans keys.less_imp_le)

text \<open>Tables with well-formed ranges that pairwise do not overlap form a run once sorted.\<close>

lemma sorted_run_ok:
  assumes "\<forall>t\<in>set run. wf_range cmp (kr t)" "sorted_wrt (\<lambda>a b. kle cmp (kr_min (kr a)) (kr_min (kr b))) run"
    and "sorted_wrt (\<lambda>a b. \<not> overlaps_with_key_range_cmp cmp (kr a) (kr b)) run"
  shows "run_ok cmp kr run"
  using assms
proof (induction run)
  case (Cons t run)
  have "klt cmp (kr_max (kr t)) (kr_min (kr u))" if "u \<in> set run" for u
  proof -
    have "kle cmp (kr_min (kr t)) (kr_min (kr u))" "kle cmp (kr_min (kr u)) (kr_max (kr u))"
      "\<not> overlaps_with_key_range_cmp cmp (kr t) (kr u)" using Cons.prems that by (auto simp: wf_range_def)
    then show ?thesis by (auto simp: overlaps_iff keys.not_le dest: keys.order_trans)
  qed
  then show ?case using Cons by (simp add: run_ok_Cons)
qed (simp add: run_ok_def ranges_ascend_def)

lemma run_ok_no_overlap:
  assumes "run_ok cmp kr run"
  shows "sorted_wrt (\<lambda>a b. \<not> overlaps_with_key_range_cmp cmp (kr a) (kr b)) run"
proof -
  have "sorted_wrt (\<lambda>a b. klt cmp (kr_max (kr a)) (kr_min (kr b))) run"
    using assms by (simp add: run_ok_def ranges_ascend_def sorted_wrt_map)
  then show ?thesis by (rule sorted_wrt_mono_rel [rotated]) (simp add: overlaps_iff keys.not_le)
qed

lemma overlaps_sym: "overlaps_with_key_range_cmp cmp a b = overlaps_with_key_range_cmp cmp b a"
  by (auto simp: overlaps_iff)

lemma push_run_ok:
  assumes "run_ok cmp kr run" "wf_range cmp (kr t)" "\<forall>x\<in>set run. \<not> overlaps_with_key_range_cmp cmp (kr t) (kr x)"
  shows "run_ok cmp kr (push_cmp cmp kr t run)"
proof (rule sorted_run_ok)
  let ?c = "\<lambda>a b. cmp (kr_min (kr a)) (kr_min (kr b))"
  show "\<forall>t\<in>set (push_cmp cmp kr t run). wf_range cmp (kr t)"
    using assms(1,2) by (auto simp: push_cmp_def sort_by_cmp_def run_ok_def ranges_ascend_def)
  show "sorted_wrt (\<lambda>a b. kle cmp (kr_min (kr a)) (kr_min (kr b))) (push_cmp cmp kr t run)"
    using sorted_sort_by [OF min_preorder] by (simp add: push_cmp_def sort_by_cmp_def cmp_neq_Greater)
  have "sorted_wrt (\<lambda>a b. \<not> overlaps_with_key_range_cmp cmp (kr a) (kr b)) (run @ [t])"
    using run_ok_no_overlap [OF assms(1)] assms(3) overlaps_sym by (simp add: sorted_wrt_append)
  then show "sorted_wrt (\<lambda>a b. \<not> overlaps_with_key_range_cmp cmp (kr a) (kr b)) (push_cmp cmp kr t run)"
    unfolding push_cmp_def sort_by_cmp_def by (rule sorted_wrt_sort_by) (simp add: overlaps_sym)
qed

lemma mset_push: "mset (push_cmp cmp kr t run) = add_mset t (mset run)"
  by (simp add: push_cmp_def sort_by_cmp_def)

lemma place_table_law:
  assumes "place_table cmp kr t runs = Some runs'" "wf_range cmp (kr t)" "\<forall>run\<in>set runs. run \<noteq> [] \<and> run_ok cmp kr run"
  shows "(\<forall>run\<in>set runs'. run \<noteq> [] \<and> run_ok cmp kr run) \<and> mset (concat runs') = add_mset t (mset (concat runs)) \<and>
    length runs' = length runs"
  using assms
proof (induction runs arbitrary: runs')
  case (Cons run runs)
  show ?case
  proof (cases "list_all (\<lambda>x. \<not> overlaps_with_key_range_cmp cmp (kr t) (kr x)) run")
    case True
    then have ok: "run_ok cmp kr (push_cmp cmp kr t run)" using Cons.prems by (intro push_run_ok) (auto simp: list_all_iff)
    have "push_cmp cmp kr t run \<noteq> []" by (simp add: push_cmp_def sort_by_cmp_def flip: length_0_conv)
    moreover have "runs' = push_cmp cmp kr t run # runs" using True Cons.prems(1) by simp
    ultimately show ?thesis using ok Cons.prems(3) by (simp add: mset_push)
  next
    case False
    then obtain rs where rs: "place_table cmp kr t runs = Some rs" "runs' = run # rs" using Cons.prems(1) by auto
    with Cons.IH [OF rs(1) Cons.prems(2)] Cons.prems(3) show ?thesis by simp
  qed
qed simp

definition packed :: "('a \<Rightarrow> key_range) \<Rightarrow> 'a list list \<Rightarrow> 'a multiset \<Rightarrow> bool" where
  "packed kr runs M \<longleftrightarrow> (\<forall>run\<in>set runs. run \<noteq> [] \<and> run_ok cmp kr run) \<and> mset (concat runs) = M"

lemma optimize_table_packed:
  assumes "packed kr runs M" "wf_range cmp (kr t)"
  shows "packed kr (optimize_table cmp kr runs t) (add_mset t M)"
proof (cases "place_table cmp kr t (rev runs)")
  case None
  have "run_ok cmp kr [t]" using assms(2) by (simp add: run_ok_def ranges_ascend_def)
  then show ?thesis using None assms(1) by (simp add: optimize_table_def vec_insert_def packed_def)
next
  case (Some rs)
  have conc: "mset (concat (rev xs)) = mset (concat xs)" for xs :: "'b list list" by (induction xs) auto
  have "\<forall>run\<in>set (rev runs). run \<noteq> [] \<and> run_ok cmp kr run" using assms(1) by (simp add: packed_def)
  from place_table_law [OF Some assms(2) this] have "packed kr (rev rs) (add_mset t M)"
    using assms(1) unfolding packed_def conc by simp
  then show ?thesis by (simp add: optimize_table_def Some)
qed

lemma optimize_tables_packed:
  "packed kr runs M \<Longrightarrow> \<forall>t\<in>set ts. wf_range cmp (kr t) \<Longrightarrow>
     packed kr (foldl (optimize_table cmp kr) runs ts) (M + mset ts)"
proof (induction ts arbitrary: runs M)
  case (Cons t ts)
  then show ?case using Cons.IH [OF optimize_table_packed] by simp
qed simp

lemma foldl_runs: "foldl (\<lambda>acc run. foldl f acc (rev run)) a (rev runs) = foldl f a (rev (concat runs))"
  by (induction runs) simp_all

lemma optimize_runs_packed:
  assumes "\<forall>run\<in>set runs. run \<noteq> [] \<and> run_ok cmp kr run"
  shows "packed kr (optimize_runs cmp kr runs) (mset (concat runs))"
proof (cases "length runs \<le> 1")
  case True
  then show ?thesis using assms by (simp add: optimize_runs_def packed_def)
next
  case False
  have "packed kr [] {#}" by (simp add: packed_def)
  moreover have "\<forall>t\<in>set (rev (concat runs)). wf_range cmp (kr t)"
    using assms by (auto simp: run_ok_def ranges_ascend_def)
  ultimately show ?thesis using False optimize_tables_packed [of kr "[]" "{#}" "rev (concat runs)"]
    by (simp add: optimize_runs_def foldl_runs)
qed

text \<open>Tables that pairwise do not overlap end up in one run.\<close>

lemma optimize_tables_single:
  assumes "length runs \<le> 1" "sorted_wrt (\<lambda>a b. \<not> overlaps_with_key_range_cmp cmp (kr a) (kr b)) (concat runs @ ts)"
  shows "length (foldl (optimize_table cmp kr) runs ts) \<le> 1"
  using assms
proof (induction ts arbitrary: runs)
  case (Cons t ts)
  let ?no = "\<lambda>a b. \<not> overlaps_with_key_range_cmp cmp (kr a) (kr b)"
  have t: "\<forall>x\<in>set (concat runs). ?no t x" using Cons.prems(2) overlaps_sym by (auto simp: sorted_wrt_append)
  consider "runs = []" | run where "runs = [run]" using Cons.prems(1) by (cases runs) auto
  then have "\<exists>us. optimize_table cmp kr runs t = [us] \<and> sorted_wrt ?no us \<and> set us = insert t (set (concat runs))"
  proof cases
    case 1
    then show ?thesis by (simp add: optimize_table_def vec_insert_def)
  next
    case 2
    then have "optimize_table cmp kr runs t = [push_cmp cmp kr t run]"
      using t by (simp add: optimize_table_def list_all_iff)
    moreover have "sorted_wrt ?no (run @ [t])" using Cons.prems(2) 2 t overlaps_sym by (simp add: sorted_wrt_append)
    then have "sorted_wrt ?no (push_cmp cmp kr t run)"
      unfolding push_cmp_def sort_by_cmp_def by (rule sorted_wrt_sort_by) (simp add: overlaps_sym)
    ultimately show ?thesis using 2 by (simp add: push_cmp_def sort_by_cmp_def)
  qed
  then obtain us where us: "optimize_table cmp kr runs t = [us]" "sorted_wrt ?no us" "set us = insert t (set (concat runs))" by blast
  have "sorted_wrt ?no (concat [us] @ ts)" using Cons.prems(2) us by (auto simp: sorted_wrt_append)
  with Cons.IH [of "[us]"] us(1) show ?case by simp
qed simp

lemma optimize_runs_single:
  assumes "sorted_wrt (\<lambda>a b. \<not> overlaps_with_key_range_cmp cmp (kr a) (kr b)) (concat runs)"
  shows "length (optimize_runs cmp kr runs) \<le> 1"
proof -
  have "sorted_wrt (\<lambda>a b. \<not> overlaps_with_key_range_cmp cmp (kr a) (kr b)) (rev (concat runs))"
    using assms overlaps_sym by (simp add: sorted_wrt_rev)
  then show ?thesis using optimize_tables_single [of "[]" kr "rev (concat runs)"]
    by (simp add: optimize_runs_def foldl_runs)
qed

end

text \<open>
  C19: the searches in a run are exact. On a run in order, the lookup of a key returns the table whose
  range holds the key, if there is one; the search for a range returns the tables that overlap it, and
  the search for contained tables returns, without panicking, those contained in it, each in the run's
  order; and the index search for bounds delimits the tables that overlap the bounds.
\<close>

theorem run_lookups:
  assumes "user_comparator c" "run_ok c kr run"
  shows "get_for_key_cmp c kr k run = find (\<lambda>t. in_range c (kr t) k) run \<and>
    get_overlapping_cmp c kr r run = filter (\<lambda>t. overlaps_with_key_range_cmp c r (kr t)) run \<and>
    get_contained_cmp c kr r run = Some (filter (\<lambda>t. contains_range_cmp c r (kr t)) run) \<and>
    (case range_overlap_indexes_cmp c kr (lo, hi) run of
       None \<Rightarrow> []
     | Some (i, j) \<Rightarrow> (case get_slice i j run of None \<Rightarrow> [] | Some s \<Rightarrow> s)) =
      filter (\<lambda>t. overlaps_with_bounds_cmp c (kr t) (lo, hi)) run"
  using user_comparator.get_for_key_law [OF assms] user_comparator.get_overlapping_law [OF assms]
    user_comparator.get_contained_law [OF assms] user_comparator.range_overlap_slice [OF assms] by blast

theorem run_lookups_witness:
  "let a = \<lparr>kr_min = [1], kr_max = [3]\<rparr>; b = \<lparr>kr_min = [5], kr_max = [8]\<rparr>
   in get_for_key_cmp default_compare (\<lambda>r. r) [6] [a, b] = Some b \<and>
      get_contained_cmp default_compare (\<lambda>r. r) \<lparr>kr_min = [2], kr_max = [9]\<rparr> [a, b] = Some [b]"
proof -
  let ?a = "\<lparr>kr_min = [1], kr_max = [3]\<rparr>" and ?b = "\<lparr>kr_min = [5], kr_max = [8]\<rparr>"
  have "run_ok default_compare (\<lambda>r. r) [?a, ?b]"
    by (simp add: run_ok_def ranges_ascend_def wf_range_def kle_def klt_def default_compare_def)
  from run_lookups [OF user_comparator_default this, of "[6]" "\<lparr>kr_min = [2], kr_max = [9]\<rparr>"]
  show ?thesis by (simp add: in_range_def kle_def contains_range_cmp_def default_compare_def)
qed

text \<open>
  C20: repacking the runs of a level keeps its tables, all of them and no others, in non-empty runs in
  order; and where no two tables of the level overlap, as below level 0, it leaves at most one run.
\<close>

theorem optimize_runs_correct:
  assumes "user_comparator c" "\<forall>run\<in>set runs. run \<noteq> [] \<and> run_ok c kr run"
  shows "(\<forall>run\<in>set (optimize_runs c kr runs). run \<noteq> [] \<and> run_ok c kr run) \<and>
    mset (concat (optimize_runs c kr runs)) = mset (concat runs) \<and>
    (sorted_wrt (\<lambda>a b. \<not> overlaps_with_key_range_cmp c (kr a) (kr b)) (concat runs) \<longrightarrow>
       length (optimize_runs c kr runs) \<le> 1)"
  using user_comparator.optimize_runs_packed [OF assms] user_comparator.optimize_runs_single [OF assms(1)]
  unfolding user_comparator.packed_def [OF assms(1)] by blast

theorem optimize_runs_correct_witness:
  "let a = \<lparr>kr_min = [1], kr_max = [3]\<rparr>; b = \<lparr>kr_min = [5], kr_max = [8]\<rparr>
   in mset (concat (optimize_runs default_compare (\<lambda>r. r) [[b], [a]])) = {#a, b#} \<and>
      length (optimize_runs default_compare (\<lambda>r. r) [[b], [a]]) \<le> 1"
proof -
  let ?a = "\<lparr>kr_min = [1], kr_max = [3]\<rparr>" and ?b = "\<lparr>kr_min = [5], kr_max = [8]\<rparr>"
  have "\<forall>run\<in>set [[?b], [?a]]. run \<noteq> [] \<and> run_ok default_compare (\<lambda>r. r) run"
    by (simp add: run_ok_def ranges_ascend_def wf_range_def kle_def default_compare_def)
  from optimize_runs_correct [OF user_comparator_default this]
  show ?thesis by (simp add: overlaps_with_key_range_cmp_def default_compare_def)
qed


end
