(* ===== verification/Super_Versions.thy ===== *)
theory Super_Versions
  imports Seqno_Counter
begin

text \<open>
  \<open>version/super_version.rs\<close>: the history of super versions and the routing of snapshot reads. A super
  version is a set of memtables and a version of the tree, installed at a sequence number; a read at a
  snapshot is answered by the newest super version installed below it. The type \<open>'m\<close> stands for
  memtables and \<open>'d\<close> for what a version holds beside its id and its retention floor. The manifest on
  disk is reached through the operations of \<open>manifest_io\<close> on a state \<open>'w\<close>, about which nothing is
  assumed, so every result holds whichever of them fail.
\<close>

subsection \<open>Versions\<close>

record 'd version =
  v_id :: u64
  v_floor :: seqno
  v_data :: 'd

definition with_retention_floor :: "seqno \<Rightarrow> 'd version \<Rightarrow> 'd version" where
  "with_retention_floor floor v = (if floor \<le> v_floor v then v else v\<lparr>v_floor := floor\<rparr>)"

text \<open>\<open>sole\<close>: whether this handle is the only owner of the version; either way the result is the same.\<close>

definition set_retention_floor :: "bool \<Rightarrow> seqno \<Rightarrow> 'd version \<Rightarrow> 'd version" where
  "set_retention_floor sole floor v =
     (if floor \<le> v_floor v then v
      else if sole then v\<lparr>v_floor := floor\<rparr> else with_retention_floor floor v)"

record ('m, 'd) super_version =
  active_memtable :: 'm
  sealed_memtables :: "'m list"
  sv_version :: "'d version"
  sv_seqno :: seqno

datatype retention_effect = RetentionKeep | GcBelow seqno | DropsData

definition of_run :: "bool \<Rightarrow> bool \<Rightarrow> seqno \<Rightarrow> retention_effect" where
  "of_run filter_transformed collected_below_watermark watermark =
     (if filter_transformed then DropsData
      else if collected_below_watermark then GcBelow watermark
      else RetentionKeep)"

subsection \<open>The history\<close>

record ('m, 'd) super_versions =
  versions :: "('m, 'd) super_version list"
  snapshot_id :: u64
  log_rotate_bytes :: u64
  log_bytes :: "u64 option"
  latest :: "('m, 'd) super_version"

definition svs_new :: "'m \<Rightarrow> 'd version \<Rightarrow> u64 \<Rightarrow> u64 \<Rightarrow> ('m, 'd) super_versions" where
  "svs_new empty_memtable v snapshot rotate_bytes =
     (let initial = \<lparr>active_memtable = empty_memtable, sealed_memtables = [], sv_version = v, sv_seqno = v_floor v\<rparr>
      in \<lparr>versions = [initial], snapshot_id = snapshot, log_rotate_bytes = rotate_bytes, log_bytes = None, latest = initial\<rparr>)"

text \<open>The hash map from memtable ids to bytes, then the sum of its values.\<close>

fun add_size :: "u64 \<Rightarrow> u64 \<Rightarrow> (u64 \<times> u64) list \<Rightarrow> (u64 \<times> u64) list" where
  "add_size i n [] = [(i, n)]"
| "add_size i n ((j, bytes) # sizes) =
     (if j = i then (j, bytes + n) # sizes else (j, bytes) # add_size i n sizes)"

definition memtable_size_sum :: "('m \<Rightarrow> u64) \<Rightarrow> ('m \<Rightarrow> u64) \<Rightarrow> ('m, 'd) super_versions \<Rightarrow> u64" where
  "memtable_size_sum id_of size_of st =
     sum_list (map snd (foldl (\<lambda>sizes v.
       foldl (\<lambda>sizes m. add_size (id_of m) (size_of m) sizes)
         (add_size (id_of (active_memtable v)) (size_of (active_memtable v)) sizes) (sealed_memtables v)) [] (versions st)))"

definition free_list_len :: "('m, 'd) super_versions \<Rightarrow> nat" where
  "free_list_len st = length (versions st) - 1"

definition latest_version :: "('m, 'd) super_versions \<Rightarrow> ('m, 'd) super_version option" where
  "latest_version st = (if versions st = [] then None else Some (last (versions st)))"

definition oldest_version_ref :: "('m, 'd) super_versions \<Rightarrow> ('m, 'd) super_version option" where
  "oldest_version_ref st = (if versions st = [] then None else Some (hd (versions st)))"

definition oldest_retained_seqno :: "('m, 'd) super_versions \<Rightarrow> seqno option" where
  "oldest_retained_seqno st = map_option sv_seqno (oldest_version_ref st)"

definition append_version :: "('m, 'd) super_version \<Rightarrow> ('m, 'd) super_versions \<Rightarrow> ('m, 'd) super_versions" where
  "append_version v st = st\<lparr>latest := v, versions := versions st @ [v]\<rparr>"

definition replace_latest_version :: "('m, 'd) super_version \<Rightarrow> ('m, 'd) super_versions \<Rightarrow> ('m, 'd) super_versions" where
  "replace_latest_version v st =
     (if versions st = [] then st else st\<lparr>latest := v, versions := butlast (versions st) @ [v]\<rparr>)"

definition drain_obsolete_to_latest :: "('m, 'd) super_versions \<Rightarrow> ('m, 'd) super_versions" where
  "drain_obsolete_to_latest st = st\<lparr>versions := drop (length (versions st) - 1) (versions st)\<rparr>"

text \<open>The oldest version answers snapshot 0; the error is for snapshots at or below it.\<close>

definition get_version_for_snapshot ::
  "seqno \<Rightarrow> ('m, 'd) super_versions \<Rightarrow> lsm_error + ('m, 'd) super_version" where
  "get_version_for_snapshot s st =
     (case oldest_version_ref st of
        None \<Rightarrow> Inl Panicked
      | Some oldest \<Rightarrow>
          (if s = 0 then Inr oldest
           else if s \<le> sv_seqno oldest then Inl (SnapshotBelowRetention s (sv_seqno oldest))
           else Inr (case find (\<lambda>v. sv_seqno v < s) (rev (versions st)) of Some v \<Rightarrow> v | None \<Rightarrow> oldest)))"

text \<open>\<open>Tree::snapshot_for_read\<close>: the mirrored latest version answers snapshots above it.\<close>

definition snapshot_for_read ::
  "seqno \<Rightarrow> ('m, 'd) super_versions \<Rightarrow> lsm_error + ('m, 'd) super_version" where
  "snapshot_for_read s st =
     (if s > sv_seqno (latest st) then Inr (latest st) else get_version_for_snapshot s st)"

subsection \<open>The manifest on disk\<close>

datatype manifest_file = EditLog u64 | SnapshotFile u64

datatype removal = Removed | NotFound | RemoveFailed lsm_error

record ('w, 'd, 'e) manifest_io =
  io_log_size :: "'w \<Rightarrow> manifest_file \<Rightarrow> lsm_error + u64"
  io_diff :: "'d version \<Rightarrow> 'd version \<Rightarrow> lsm_error + 'e"
  io_append_edit :: "manifest_file \<Rightarrow> 'e \<Rightarrow> 'w \<Rightarrow> (lsm_error + u64) \<times> 'w"
  io_persist_version :: "'d version \<Rightarrow> 'w \<Rightarrow> (lsm_error + unit) \<times> 'w"
  io_remove_file :: "manifest_file \<Rightarrow> 'w \<Rightarrow> removal \<times> 'w"

definition remove_if_present :: "('w, 'd, 'e) manifest_io \<Rightarrow> manifest_file \<Rightarrow> 'w \<Rightarrow> (lsm_error + unit) \<times> 'w" where
  "remove_if_present io f w =
     (case io_remove_file io f w of
        (RemoveFailed e, w') \<Rightarrow> (Inl e, w')
      | (_, w') \<Rightarrow> (Inr (), w'))"

text \<open>Appending one edit to the log.\<close>

definition append_change ::
  "('w, 'd, 'e) manifest_io \<Rightarrow> 'd version \<Rightarrow> 'd version \<Rightarrow> u64 \<Rightarrow> ('m, 'd) super_versions \<Rightarrow> 'w \<Rightarrow>
   (lsm_error + unit) \<times> ('m, 'd) super_versions \<times> 'w" where
  "append_change io prior nxt log_size st w =
     (case io_diff io nxt prior of
        Inl e \<Rightarrow> (Inl e, st, w)
      | Inr edit \<Rightarrow>
          (case io_append_edit io (EditLog (snapshot_id st)) edit w of
             (Inr appended, w') \<Rightarrow> (Inr (), st\<lparr>log_bytes := Some (log_size + appended)\<rparr>, w')
           | (Inl e, w') \<Rightarrow> (Inl e, st\<lparr>log_bytes := None\<rparr>, w')))"

text \<open>Writing a new snapshot; removing the old generation's files afterwards is best effort.\<close>

definition rotate_snapshot ::
  "('w, 'd, 'e) manifest_io \<Rightarrow> 'd version \<Rightarrow> ('m, 'd) super_versions \<Rightarrow> 'w \<Rightarrow>
   (lsm_error + unit) \<times> ('m, 'd) super_versions \<times> 'w" where
  "rotate_snapshot io nxt st w =
     (case io_persist_version io nxt w of
        (Inl e, w1) \<Rightarrow> (Inl e, st, w1)
      | (Inr _, w1) \<Rightarrow>
          (let st1 = st\<lparr>snapshot_id := v_id nxt, log_bytes := Some 0\<rparr>;
               (_, w2) = remove_if_present io (EditLog (snapshot_id st)) w1;
               w3 = (if snapshot_id st \<noteq> snapshot_id st1
                     then snd (remove_if_present io (SnapshotFile (snapshot_id st)) w2) else w2)
           in (Inr (), st1, w3)))"

definition persist_change ::
  "('w, 'd, 'e) manifest_io \<Rightarrow> 'd version \<Rightarrow> 'd version \<Rightarrow> ('m, 'd) super_versions \<Rightarrow> 'w \<Rightarrow>
   (lsm_error + unit) \<times> ('m, 'd) super_versions \<times> 'w" where
  "persist_change io prior nxt st w =
     (case (case log_bytes st of Some n \<Rightarrow> Inr n | None \<Rightarrow> io_log_size io w (EditLog (snapshot_id st))) of
        Inl e \<Rightarrow> (Inl e, st, w)
      | Inr n \<Rightarrow>
          (let st1 = st\<lparr>log_bytes := Some n\<rparr>
           in if n < log_rotate_bytes st1 then append_change io prior nxt n st1 w
              else rotate_snapshot io nxt st1 w))"

subsection \<open>Installing and pruning\<close>

definition floor_of :: "retention_effect \<Rightarrow> seqno \<Rightarrow> seqno option" where
  "floor_of retention s =
     (case retention of
        RetentionKeep \<Rightarrow> None
      | GcBelow watermark \<Rightarrow> if watermark = 0 then None else Some (min (watermark - 1) s)
      | DropsData \<Rightarrow> Some s)"

definition next_visible :: "seqno \<Rightarrow> seqno" where
  "next_visible s = min (if s = - 1 then s else s + 1) MAX_SEQNO"

definition upgrade_version_with_seqno ::
  "('w, 'd, 'e) manifest_io \<Rightarrow> (('m, 'd) super_version \<Rightarrow> lsm_error + ('m, 'd) super_version) \<Rightarrow> seqno \<Rightarrow> bool \<Rightarrow>
   retention_effect \<Rightarrow> ('m, 'd) super_versions \<Rightarrow> seqno \<Rightarrow> 'w \<Rightarrow>
   (lsm_error + unit) \<times> ('m, 'd) super_versions \<times> seqno \<times> 'w" where
  "upgrade_version_with_seqno io f s sole retention st visible w =
     (case latest_version st of
        None \<Rightarrow> (Inl Panicked, st, visible, w)
      | Some prior \<Rightarrow>
          (let s' = max s (sv_seqno prior) in
           case f prior of
             Inl e \<Rightarrow> (Inl e, st, visible, w)
           | Inr n \<Rightarrow>
               (let n1 = n\<lparr>sv_seqno := s'\<rparr>;
                    n2 = (case floor_of retention s' of
                            Some fl \<Rightarrow> n1\<lparr>sv_version := set_retention_floor sole fl (sv_version n1)\<rparr>
                          | None \<Rightarrow> n1)
                in case persist_change io (sv_version prior) (sv_version n2) st w of
                     (Inl e, st1, w1) \<Rightarrow> (Inl e, st1, visible, w1)
                   | (Inr _, st1, w1) \<Rightarrow>
                       (Inr (), append_version n2 st1, counter_fetch_max (next_visible s') visible, w1))))"

definition upgrade_version ::
  "('w, 'd, 'e) manifest_io \<Rightarrow> (('m, 'd) super_version \<Rightarrow> lsm_error + ('m, 'd) super_version) \<Rightarrow> bool \<Rightarrow>
   retention_effect \<Rightarrow> ('m, 'd) super_versions \<Rightarrow> seqno \<Rightarrow> seqno \<Rightarrow> 'w \<Rightarrow>
   (lsm_error + unit) \<times> ('m, 'd) super_versions \<times> seqno \<times> seqno \<times> 'w" where
  "upgrade_version io f sole retention st counter visible w =
     (case counter_next counter of
        (Inl e, counter') \<Rightarrow> (Inl e, st, counter', visible, w)
      | (Inr s, counter') \<Rightarrow>
          (case upgrade_version_with_seqno io f s sole retention st visible w of
             (r, st', visible', w') \<Rightarrow> (r, st', counter', visible', w')))"

text \<open>The eviction loop: \<open>n\<close> versions from the front, stopping at a failed removal.\<close>

fun evict_loop ::
  "('w, 'd, 'e) manifest_io \<Rightarrow> nat \<Rightarrow> ('m, 'd) super_versions \<Rightarrow> 'w \<Rightarrow>
   (lsm_error + unit) \<times> ('m, 'd) super_versions \<times> 'w" where
  "evict_loop io 0 st w = (Inr (), st, w)"
| "evict_loop io (Suc n) st w =
     (case versions st of
        [] \<Rightarrow> (Inr (), st, w)
      | head # rest \<Rightarrow>
          (if v_id (sv_version head) \<noteq> snapshot_id st
           then (case remove_if_present io (SnapshotFile (v_id (sv_version head))) w of
                   (Inl e, w') \<Rightarrow> (Inl e, st, w')
                 | (Inr _, w') \<Rightarrow> evict_loop io n (st\<lparr>versions := rest\<rparr>) w')
           else evict_loop io n (st\<lparr>versions := rest\<rparr>) w))"

fun last_index :: "('a \<Rightarrow> bool) \<Rightarrow> 'a list \<Rightarrow> nat option" where
  "last_index p [] = None"
| "last_index p (x # xs) =
     (case last_index p xs of Some i \<Rightarrow> Some (Suc i) | None \<Rightarrow> if p x then Some 0 else None)"

definition maintenance ::
  "('w, 'd, 'e) manifest_io \<Rightarrow> seqno \<Rightarrow> ('m, 'd) super_versions \<Rightarrow> 'w \<Rightarrow>
   (lsm_error + unit) \<times> ('m, 'd) super_versions \<times> 'w" where
  "maintenance io gc_watermark st w =
     (if gc_watermark = 0 \<or> free_list_len st < 1 then (Inr (), st, w)
      else case last_index (\<lambda>v. sv_seqno v < gc_watermark) (versions st) of
             Some hi_idx \<Rightarrow> evict_loop io hi_idx st w
           | None \<Rightarrow> (Inr (), st, w))"

subsection \<open>Routing\<close>

text \<open>A history in order: never empty, installed at ascending sequence numbers, with the latest version mirrored.\<close>

definition history_ok :: "('m, 'd) super_versions \<Rightarrow> bool" where
  "history_ok st \<longleftrightarrow> versions st \<noteq> [] \<and> sorted_wrt (\<lambda>a b. sv_seqno a \<le> sv_seqno b) (versions st) \<and>
     latest st = last (versions st)"

lemma find_rev: "find p (rev xs) = (if filter p xs = [] then None else Some (last (filter p xs)))"
proof (induction xs rule: rev_induct)
  case (snoc x xs)
  then show ?case by auto
qed simp

lemma route:
  assumes "history_ok st" "s \<noteq> 0" "v \<in> set (versions st)" "sv_seqno v < s"
  shows "get_version_for_snapshot s st = Inr (last (filter (\<lambda>v. sv_seqno v < s) (versions st)))"
proof -
  obtain h vs where vs: "versions st = h # vs" using assms(1) by (cases "versions st") (auto simp: history_ok_def)
  then have "sv_seqno h \<le> sv_seqno v" using assms(1,3) by (auto simp: history_ok_def)
  then have "sv_seqno h < s" using assms(4) by (rule le_less_trans)
  then show ?thesis using vs assms(2)
    by (simp add: get_version_for_snapshot_def oldest_version_ref_def not_le [symmetric] find_rev del: rev.simps)
qed

lemma sorted_filter_last:
  assumes "sorted_wrt (\<lambda>a b. f a \<le> f b) xs" "x \<in> set xs" "f x < (s :: seqno)"
  shows "\<exists>as bs. xs = as @ last (filter (\<lambda>v. f v < s) xs) # bs \<and> f (last (filter (\<lambda>v. f v < s) xs)) < s \<and> (\<forall>b\<in>set bs. s \<le> f b)"
  using assms
proof (induction xs rule: rev_induct)
  case (snoc y xs)
  show ?case
  proof (cases "f y < s")
    case True
    then show ?thesis by (intro exI [of _ xs] exI [of _ "[]"]) simp
  next
    case False
    then have "x \<in> set xs" using snoc.prems(2,3) by auto
    then obtain as bs where "xs = as @ last (filter (\<lambda>v. f v < s) xs) # bs" "f (last (filter (\<lambda>v. f v < s) xs)) < s"
      "\<forall>b\<in>set bs. s \<le> f b"
      using snoc.IH snoc.prems(1,3) by (auto simp: sorted_wrt_append)
    then show ?thesis using False by (intro exI [of _ as] exI [of _ "bs @ [y]"]) simp
  qed
qed simp

text \<open>Routing depends on the versions alone.\<close>

lemma get_version_cong: "versions st' = versions st \<Longrightarrow> get_version_for_snapshot s st' = get_version_for_snapshot s st"
  by (simp add: get_version_for_snapshot_def oldest_version_ref_def)

lemma history_last: "history_ok st \<Longrightarrow> v \<in> set (versions st) \<Longrightarrow> sv_seqno v \<le> sv_seqno (last (versions st))"
  unfolding history_ok_def by (cases "versions st" rule: rev_cases) (auto simp: sorted_wrt_append)

lemma append_ok:
  assumes "history_ok st" "sv_seqno (last (versions st)) \<le> sv_seqno v"
  shows "history_ok (append_version v st)"
  using assms history_last [OF assms(1)] unfolding history_ok_def append_version_def
  by (auto simp: sorted_wrt_append intro: order_trans)

lemma append_routing:
  assumes "history_ok st" "sv_seqno (last (versions st)) \<le> sv_seqno v"
  shows "get_version_for_snapshot s (append_version v st) =
    (if s \<le> sv_seqno v then get_version_for_snapshot s st else Inr v)"
proof (cases "s \<le> sv_seqno v")
  case True
  then have "\<not> sv_seqno v < s" by simp
  then show ?thesis using True assms(1)
    by (simp add: get_version_for_snapshot_def oldest_version_ref_def append_version_def history_ok_def)
next
  case False
  then have "s \<noteq> 0" "sv_seqno v < s" by auto
  then show ?thesis using False route [OF append_ok [OF assms], of s v] by (simp add: append_version_def)
qed

subsection \<open>Frames\<close>

lemma persist_change_frame:
  "persist_change io p n st w = (r, st', w') \<Longrightarrow> versions st' = versions st \<and> latest st' = latest st"
  by (auto simp: persist_change_def append_change_def rotate_snapshot_def Let_def split: option.splits sum.splits prod.splits if_splits)

lemma history_ok_cong: "versions st' = versions st \<Longrightarrow> latest st' = latest st \<Longrightarrow> history_ok st' = history_ok st"
  by (simp add: history_ok_def)

text \<open>An install either fails and leaves the history alone, or appends the new version at its sequence number.\<close>

lemma upgrade_cases:
  assumes "upgrade_version_with_seqno io f s sole ret st visible w = (r, st', visible', w')" "history_ok st"
  obtains e where "r = Inl e" "versions st' = versions st" "latest st' = latest st" "visible' = visible"
  | n st1 where "r = Inr ()" "f (last (versions st)) = Inr n" "versions st1 = versions st" "latest st1 = latest st"
      "st' = append_version (n\<lparr>sv_seqno := max s (sv_seqno (last (versions st))),
        sv_version := (case floor_of ret (max s (sv_seqno (last (versions st)))) of
          Some fl \<Rightarrow> set_retention_floor sole fl (sv_version n) | None \<Rightarrow> sv_version n)\<rparr>) st1"
      "visible' = counter_fetch_max (next_visible (max s (sv_seqno (last (versions st))))) visible"
proof -
  let ?prior = "last (versions st)"
  let ?s = "max s (sv_seqno ?prior)"
  have prior: "latest_version st = Some ?prior" using assms(2) by (simp add: latest_version_def history_ok_def)
  show thesis
  proof (cases "f ?prior")
    case (Inl e)
    then show thesis using that(1) [of e] assms(1) prior by (simp add: upgrade_version_with_seqno_def)
  next
    case (Inr n)
    define n2 where "n2 = n\<lparr>sv_seqno := ?s, sv_version := (case floor_of ret ?s of
      Some fl \<Rightarrow> set_retention_floor sole fl (sv_version n) | None \<Rightarrow> sv_version n)\<rparr>"
    have n2: "(case floor_of ret ?s of
        Some fl \<Rightarrow> n\<lparr>sv_seqno := ?s\<rparr>\<lparr>sv_version := set_retention_floor sole fl (sv_version (n\<lparr>sv_seqno := ?s\<rparr>))\<rparr>
      | None \<Rightarrow> n\<lparr>sv_seqno := ?s\<rparr>) = n2"
      by (cases "floor_of ret ?s") (simp_all add: n2_def)
    obtain r1 st1 w1 where p: "persist_change io (sv_version ?prior) (sv_version n2) st w = (r1, st1, w1)"
      by (metis prod_cases3)
    have up: "upgrade_version_with_seqno io f s sole ret st visible w =
      (case r1 of Inl e \<Rightarrow> (Inl e, st1, visible, w1)
        | Inr _ \<Rightarrow> (Inr (), append_version n2 st1, counter_fetch_max (next_visible ?s) visible, w1))"
      unfolding upgrade_version_with_seqno_def prior option.case Let_def Inr sum.case n2 p prod.case by (rule refl)
    note frame = persist_change_frame [OF p]
    show thesis
    proof (cases r1)
      case (Inl e)
      then show thesis using that(1) [of e] up assms(1) frame by simp
    next
      case ok: (Inr u)
      then show thesis using that(2) [of n st1] up assms(1) frame Inr n2_def by simp
    qed
  qed
qed

subsection \<open>Pruning\<close>

lemma evict_loop_drop:
  "evict_loop io n st w = (r, st', w') \<Longrightarrow> n < length (versions st) \<Longrightarrow>
     \<exists>k\<le>n. versions st' = drop k (versions st) \<and> latest st' = latest st"
proof (induction n arbitrary: st w)
  case (Suc n)
  then obtain h vs where vs: "versions st = h # vs" by (cases "versions st") auto
  show ?case
  proof (cases "evict_loop io (Suc n) st w = (r, st, w')")
    case True
    then show ?thesis using Suc.prems(1) by (intro exI [of _ 0]) simp
  next
    case False
    then obtain w1 where "evict_loop io n (st\<lparr>versions := vs\<rparr>) w1 = (r, st', w')"
      using Suc.prems(1) vs by (auto split: if_splits prod.splits sum.splits)
    from Suc.IH [OF this] obtain k where "k \<le> n" "versions st' = drop k vs" "latest st' = latest st"
      using Suc.prems(2) vs by auto
    then show ?thesis using vs by (intro exI [of _ "Suc k"]) simp
  qed
qed (intro exI [of _ 0], simp)

lemma last_index_Some: "last_index p xs = Some i \<Longrightarrow> i < length xs \<and> p (xs ! i)"
  by (induction xs arbitrary: i) (auto split: option.splits if_splits)

lemma maintenance_drop:
  assumes "maintenance io wm st w = (r, st', w')" "history_ok st"
  obtains k where "versions st' = drop k (versions st)" "latest st' = latest st" "k < length (versions st)"
    "k = 0 \<or> wm \<noteq> 0 \<and> sv_seqno (versions st ! k) < wm"
proof (cases "\<exists>hi. wm \<noteq> 0 \<and> last_index (\<lambda>v. sv_seqno v < wm) (versions st) = Some hi \<and> evict_loop io hi st w = (r, st', w')")
  case True
  then obtain hi where hi: "wm \<noteq> 0" "last_index (\<lambda>v. sv_seqno v < wm) (versions st) = Some hi" "evict_loop io hi st w = (r, st', w')"
    by blast
  note li = last_index_Some [OF hi(2)]
  obtain k where k: "k \<le> hi" "versions st' = drop k (versions st)" "latest st' = latest st"
    using evict_loop_drop [OF hi(3)] li by blast
  have "sv_seqno (versions st ! k) \<le> sv_seqno (versions st ! hi)"
    using assms(2) k(1) li sorted_wrt_nth_less [of "\<lambda>a b. sv_seqno a \<le> sv_seqno b" "versions st" k hi]
    by (cases "k = hi") (auto simp: history_ok_def)
  then show thesis using that [of k] k li hi(1) by (auto intro: le_less_trans)
next
  case False
  then have "st' = st" using assms(1) by (auto simp: maintenance_def split: if_splits option.splits)
  then show thesis using that [of 0] assms(2) by (auto simp: history_ok_def)
qed

lemma drop_ok: "history_ok st \<Longrightarrow> versions st' = drop k (versions st) \<Longrightarrow> latest st' = latest st \<Longrightarrow>
    k < length (versions st) \<Longrightarrow> history_ok st'"
  unfolding history_ok_def by (simp add: sorted_wrt_drop)

lemma drop_routing:
  assumes "history_ok st" "versions st' = drop k (versions st)" "latest st' = latest st" "k < length (versions st)"
    and "s \<noteq> 0" "sv_seqno (versions st ! k) < s"
  shows "get_version_for_snapshot s st' = get_version_for_snapshot s st"
proof -
  let ?p = "\<lambda>v. sv_seqno v < s"
  have k: "versions st ! k \<in> set (drop k (versions st))" "versions st ! k \<in> set (versions st)"
    using assms(4) hd_drop_conv_nth [of k "versions st"] hd_in_set [of "drop k (versions st)"] by simp_all
  have "filter ?p (versions st) = filter ?p (take k (versions st)) @ filter ?p (drop k (versions st))"
    by (metis append_take_drop_id filter_append)
  moreover have "filter ?p (drop k (versions st)) \<noteq> []" using k(1) assms(6) by (auto simp: filter_empty_conv)
  ultimately have "last (filter ?p (versions st)) = last (filter ?p (drop k (versions st)))" by simp
  then show ?thesis
    using route [OF assms(1,5) k(2) assms(6)] route [OF drop_ok [OF assms(1-4)] assms(5), of "versions st ! k"] k(1) assms(2,6)
    by simp
qed

subsection \<open>Histories\<close>

text \<open>The histories a tree can reach. A rotation or a clear of the memtables replaces the latest version in place.\<close>

inductive svs_reachable :: "('w, 'd, 'e) manifest_io \<Rightarrow> ('m, 'd) super_versions \<Rightarrow> bool" for io where
  opened: "svs_reachable io (svs_new mt v sid bytes)"
| installed: "svs_reachable io st \<Longrightarrow>
    upgrade_version_with_seqno io f s sole ret st visible w = (r, st', visible', w') \<Longrightarrow> svs_reachable io st'"
| maintained: "svs_reachable io st \<Longrightarrow> maintenance io wm st w = (r, st', w') \<Longrightarrow> svs_reachable io st'"
| drained: "svs_reachable io st \<Longrightarrow> svs_reachable io (drain_obsolete_to_latest st)"
| rotated: "svs_reachable io st \<Longrightarrow> latest_version st = Some v \<Longrightarrow>
    svs_reachable io (replace_latest_version (v\<lparr>active_memtable := mt, sealed_memtables := mts\<rparr>) st)"

lemma reachable_ok: "svs_reachable io st \<Longrightarrow> history_ok st"
proof (induction rule: svs_reachable.induct)
  case (opened mt v sid bytes)
  then show ?case by (simp add: svs_new_def history_ok_def Let_def)
next
  case (installed st f s sole ret visible w r st' visible' w')
  from installed(2) installed.IH show ?case
  proof (cases rule: upgrade_cases)
    case (1 e)
    then show ?thesis using installed.IH history_ok_cong by blast
  next
    case (2 n st1)
    have "history_ok st1" using 2 installed.IH history_ok_cong by blast
    then show ?thesis unfolding 2(5) by (rule append_ok) (simp add: 2(3))
  qed
next
  case (maintained st wm w r st' w')
  from maintained(2) maintained.IH show ?case by (rule maintenance_drop) (rule drop_ok [OF maintained.IH])
next
  case (drained st)
  show ?case
    by (rule drop_ok [OF drained.IH, of _ "length (versions st) - 1"])
      (use drained.IH in \<open>simp_all add: drain_obsolete_to_latest_def history_ok_def\<close>)
next
  case (rotated st v mt mts)
  obtain vs where "versions st = vs @ [v]"
    using rotated(2) by (cases "versions st" rule: rev_cases) (auto simp: latest_version_def split: if_splits)
  then show ?case using rotated.IH by (simp add: history_ok_def replace_latest_version_def sorted_wrt_append)
qed

text \<open>A manifest none of whose operations fails, a fresh tree, and the tree after one install at 5.\<close>

definition quiet_io :: "(unit, unit, unit) manifest_io" where
  "quiet_io = \<lparr>io_log_size = (\<lambda>_ _. Inr 0), io_diff = (\<lambda>_ _. Inr ()), io_append_edit = (\<lambda>_ _ w. (Inr 1, w)),
     io_persist_version = (\<lambda>_ w. (Inr (), w)), io_remove_file = (\<lambda>_ w. (Removed, w))\<rparr>"

definition fresh_tree :: "(unit, unit) super_versions" where
  "fresh_tree = svs_new () \<lparr>v_id = 1, v_floor = 0, v_data = ()\<rparr> 1 100"

definition one_install :: "(lsm_error + unit) \<times> (unit, unit) super_versions \<times> seqno \<times> unit" where
  "one_install = upgrade_version_with_seqno quiet_io Inr 5 True (GcBelow 3) fresh_tree 0 ()"

definition installed_tree :: "(unit, unit) super_versions" where
  "installed_tree = fst (snd one_install)"

lemmas demo_defs = quiet_io_def fresh_tree_def one_install_def installed_tree_def svs_new_def upgrade_version_with_seqno_def
  persist_change_def append_change_def append_version_def latest_version_def floor_of_def set_retention_floor_def
  counter_fetch_max_def next_visible_def MAX_SEQNO_def

lemma fresh_reachable: "svs_reachable quiet_io fresh_tree"
  unfolding fresh_tree_def by (rule svs_reachable.opened)

lemma one_install_ok: "one_install = (Inr (), installed_tree, 6, ())"
  by (simp add: demo_defs Let_def)

lemma installed_reachable: "svs_reachable quiet_io installed_tree"
  by (rule svs_reachable.installed [OF fresh_reachable one_install_ok [unfolded one_install_def]])

text \<open>
  C10: whatever installs, failed installs, prunings, drains and memtable rotations a tree has seen, and
  whatever of its manifest writes failed, the history is never empty, its versions are in ascending
  order of sequence number, and the mirror of the latest version is its back; so a point read that
  takes the mirror gets the version the locked history would have given it.
\<close>

theorem history_invariant:
  assumes "svs_reachable io st"
  shows "versions st \<noteq> [] \<and> sorted_wrt (\<lambda>a b. sv_seqno a \<le> sv_seqno b) (versions st) \<and>
    latest st = last (versions st) \<and> snapshot_for_read s st = get_version_for_snapshot s st"
proof -
  note ok = reachable_ok [OF assms]
  have "get_version_for_snapshot s st = Inr (latest st)" if "s > sv_seqno (latest st)"
  proof -
    obtain vs v where vs: "versions st = vs @ [v]" "latest st = v" using ok by (cases "versions st" rule: rev_cases) (auto simp: history_ok_def)
    have "s \<noteq> 0" using that by auto
    then show ?thesis using route [OF ok, of s v] vs that by simp
  qed
  then show ?thesis using ok by (auto simp: snapshot_for_read_def history_ok_def)
qed

theorem history_invariant_witness:
  "versions installed_tree \<noteq> [] \<and> snapshot_for_read 6 installed_tree = get_version_for_snapshot 6 installed_tree"
  using history_invariant [OF installed_reachable, of 6] by blast


text \<open>
  C4: snapshot reads are routed to the version that was current. In a reachable history, snapshot 0
  goes to the oldest version; a snapshot at or below the oldest retained sequence number is refused
  with the retention error naming both; and any other goes to the newest version installed strictly
  below it: every later version was installed at or above the snapshot.
\<close>

theorem snapshot_routing:
  assumes "svs_reachable io st" and oldest: "oldest_retained_seqno st = Some old"
  shows "(s = 0 \<longrightarrow> get_version_for_snapshot s st = Inr (hd (versions st))) \<and>
    (0 < s \<and> s \<le> old \<longrightarrow> get_version_for_snapshot s st = Inl (SnapshotBelowRetention s old)) \<and>
    (old < s \<longrightarrow> (\<exists>v before after. get_version_for_snapshot s st = Inr v \<and> versions st = before @ v # after \<and>
       sv_seqno v < s \<and> (\<forall>u\<in>set after. s \<le> sv_seqno u)))"
proof -
  note ok = reachable_ok [OF assms(1)]
  obtain h vs where vs: "versions st = h # vs" "old = sv_seqno h"
    using oldest by (cases "versions st") (auto simp: oldest_retained_seqno_def oldest_version_ref_def)
  have "\<exists>v before after. get_version_for_snapshot s st = Inr v \<and> versions st = before @ v # after \<and>
      sv_seqno v < s \<and> (\<forall>u\<in>set after. s \<le> sv_seqno u)" if "old < s"
  proof -
    have h: "h \<in> set (versions st)" "sv_seqno h < s" "s \<noteq> 0" using vs that by auto
    show ?thesis using route [OF ok h(3,1,2)] sorted_filter_last [of sv_seqno "versions st" h s] h ok
      unfolding history_ok_def by blast
  qed
  then show ?thesis using vs by (auto simp: get_version_for_snapshot_def oldest_version_ref_def)
qed

theorem snapshot_routing_witness:
  "\<exists>v before after. get_version_for_snapshot 5 installed_tree = Inr v \<and> versions installed_tree = before @ v # after \<and>
     sv_seqno v < 5 \<and> (\<forall>u\<in>set after. 5 \<le> sv_seqno u)"
proof -
  have "oldest_retained_seqno installed_tree = Some 0"
    by (simp add: oldest_retained_seqno_def oldest_version_ref_def demo_defs Let_def)
  from snapshot_routing [OF installed_reachable this, of 5] show ?thesis by simp
qed


text \<open>
  C6: an install does not change what older snapshots resolve to. If it fails, the history and the
  visible sequence number are as before. If it succeeds, the new version is at the back, at a sequence
  number no smaller than the requested one and its predecessor's; every snapshot up to that number
  resolves as it did, every later one to the new version; and the visible sequence number never falls.
\<close>

theorem install_keeps_snapshots:
  assumes "svs_reachable io st"
    and up: "upgrade_version_with_seqno io f s sole ret st visible w = (r, st', visible', w')"
  shows "(\<forall>e. r = Inl e \<longrightarrow> (\<forall>q. get_version_for_snapshot q st' = get_version_for_snapshot q st) \<and> visible' = visible) \<and>
    (r = Inr () \<longrightarrow> (\<exists>v. versions st' = versions st @ [v] \<and> s \<le> sv_seqno v \<and> visible \<le> visible' \<and>
       (\<forall>q. get_version_for_snapshot q st' = (if q \<le> sv_seqno v then get_version_for_snapshot q st else Inr v))))"
  using up reachable_ok [OF assms(1)]
proof (cases rule: upgrade_cases)
  case (1 e)
  then show ?thesis using get_version_cong [of st' st] by simp
next
  case (2 n st1)
  define v where "v = n\<lparr>sv_seqno := max s (sv_seqno (last (versions st))),
    sv_version := (case floor_of ret (max s (sv_seqno (last (versions st)))) of
      Some fl \<Rightarrow> set_retention_floor sole fl (sv_version n) | None \<Rightarrow> sv_version n)\<rparr>"
  have st': "st' = append_version v st1" using 2(5) by (simp add: v_def)
  have "history_ok st1" using 2(3,4) reachable_ok [OF assms(1)] history_ok_cong by blast
  note routing = append_routing [OF this, of v]
  have "get_version_for_snapshot q st' = (if q \<le> sv_seqno v then get_version_for_snapshot q st else Inr v)" for q
    using routing [of q] get_version_cong [OF 2(3), of q] by (simp add: st' v_def 2(3))
  moreover have "versions st' = versions st @ [v]" by (simp add: st' append_version_def 2(3))
  moreover have "s \<le> sv_seqno v" "visible \<le> visible'" by (simp_all add: v_def 2(6) counter_fetch_max_def)
  ultimately show ?thesis using 2(1) by blast
qed

theorem install_keeps_snapshots_witness:
  "\<exists>v. versions installed_tree = versions fresh_tree @ [v] \<and> 5 \<le> sv_seqno v \<and>
     get_version_for_snapshot 9 installed_tree = (if 9 \<le> sv_seqno v then get_version_for_snapshot 9 fresh_tree else Inr v)"
  using install_keeps_snapshots [OF fresh_reachable one_install_ok [unfolded one_install_def]] by blast


text \<open>
  C14: pruning below a watermark leaves every snapshot at or above the watermark where it was, even when
  the removal of a version's file fails halfway, and never removes the latest version.
\<close>

theorem maintenance_keeps_snapshots:
  assumes "svs_reachable io st" "maintenance io wm st w = (r, st', w')"
  shows "versions st' \<noteq> [] \<and> last (versions st') = last (versions st) \<and>
    (wm \<le> s \<and> 0 < s \<longrightarrow> get_version_for_snapshot s st' = get_version_for_snapshot s st)"
proof -
  note ok = reachable_ok [OF assms(1)]
  obtain k where k: "versions st' = drop k (versions st)" "latest st' = latest st" "k < length (versions st)"
    "k = 0 \<or> wm \<noteq> 0 \<and> sv_seqno (versions st ! k) < wm" using assms(2) ok by (rule maintenance_drop)
  have "get_version_for_snapshot s st' = get_version_for_snapshot s st" if "wm \<le> s" "0 < s"
  proof (cases "k = 0")
    case True
    then show ?thesis using k(1) get_version_cong [of st' st] by simp
  next
    case False
    then have "sv_seqno (versions st ! k) < s" using k(4) that(1) by (auto intro: less_le_trans)
    then show ?thesis using drop_routing [OF ok k(1-3)] that(2) by auto
  qed
  then show ?thesis using k(1,3) by simp
qed

theorem maintenance_keeps_snapshots_witness:
  "case maintenance quiet_io 6 installed_tree () of (r, st', w') \<Rightarrow>
     length (versions st') = 1 \<and> get_version_for_snapshot 8 st' = get_version_for_snapshot 8 installed_tree"
proof -
  obtain r st' w' where m: "maintenance quiet_io 6 installed_tree () = (r, st', w')" by (metis prod_cases3)
  have "length (versions (fst (snd (maintenance quiet_io 6 installed_tree ())))) = 1"
    by (simp add: maintenance_def free_list_len_def remove_if_present_def demo_defs Let_def)
  then show ?thesis using maintenance_keeps_snapshots [OF installed_reachable m, of 8] m by simp
qed




lemma add_size_sum: "sum_list (map snd (add_size i n sizes)) = sum_list (map snd sizes) + n"
  by (induction i n sizes rule: add_size.induct) (simp_all add: add.assoc add.commute)

lemma add_sizes_sum:
  "sum_list (map snd (foldl (\<lambda>sizes m. add_size (id_of m) (size_of m) sizes) sizes ms)) =
     sum_list (map snd sizes) + sum_list (map size_of ms)"
  by (induction ms arbitrary: sizes) (simp_all add: add_size_sum add.assoc)

text \<open>
  C35: the sum of memtable sizes counts a memtable once for every retained version that holds it: the
  map from memtable ids adds the size again at each occurrence, so keying it by id has no effect on the
  result.
\<close>

theorem memtable_size_sum_multiplicity:
  "memtable_size_sum id_of size_of st =
     sum_list (map (\<lambda>v. size_of (active_memtable v) + sum_list (map size_of (sealed_memtables v))) (versions st))"
proof -
  have "sum_list (map snd (foldl (\<lambda>sizes v.
       foldl (\<lambda>sizes m. add_size (id_of m) (size_of m) sizes)
         (add_size (id_of (active_memtable v)) (size_of (active_memtable v)) sizes) (sealed_memtables v)) sizes vs)) =
     sum_list (map snd sizes) + sum_list (map (\<lambda>v. size_of (active_memtable v) + sum_list (map size_of (sealed_memtables v))) vs)"
    for sizes and vs :: "('a, 'b) super_version list"
    by (induction vs arbitrary: sizes) (simp_all add: add_sizes_sum add_size_sum add.assoc)
  from this [of "[]" "versions st"] show ?thesis by (simp add: memtable_size_sum_def)
qed


end
