(* ===== verification/Le_Bytes.thy ===== *)
theory Le_Bytes
  imports Prelude
begin

text \<open>
  Little-endian bytes of machine integers: \<open>from_le_bytes\<close> and \<open>to_le_bytes\<close> of \<open>u64\<close> and \<open>u32\<close>, with their
  round trips.
\<close>

unbundle bit_operations_syntax

definition from_le_bytes :: "u8 list \<Rightarrow> u64" where
  "from_le_bytes bs = foldr (\<lambda>b w. ucast b OR push_bit 8 w) bs 0"

definition to_le_bytes :: "u64 \<Rightarrow> u8 list" where
  "to_le_bytes w = map (\<lambda>i. ucast (drop_bit (8 * i) w)) [0..<8]"

text \<open>A \<open>u32\<close> is the low half of a \<open>u64\<close>.\<close>

definition from_le_bytes32 :: "u8 list \<Rightarrow> u32" where
  "from_le_bytes32 bs = ucast (from_le_bytes bs)"

definition to_le_bytes32 :: "u32 \<Rightarrow> u8 list" where
  "to_le_bytes32 w = take 4 (to_le_bytes (ucast w))"

lemma length_to_le_bytes [simp]: "length (to_le_bytes w) = 8"
  by (simp add: to_le_bytes_def)

lemma to_le_bytes_nth: "i < 8 \<Longrightarrow> to_le_bytes w ! i = ucast (drop_bit (8 * i) w)"
  by (simp add: to_le_bytes_def)

lemma bit_from_le_bytes:
  "length bs \<le> 8 \<Longrightarrow> bit (from_le_bytes bs) n \<longleftrightarrow> n < 8 * length bs \<and> bit (bs ! (n div 8)) (n mod 8)"
proof (induction bs arbitrary: n)
  case Nil
  then show ?case by (simp add: from_le_bytes_def)
next
  case (Cons b bs)
  have "from_le_bytes (b # bs) = ucast b OR push_bit 8 (from_le_bytes bs)" by (simp add: from_le_bytes_def)
  then have "bit (from_le_bytes (b # bs)) n \<longleftrightarrow> n < 64 \<and> (if n < 8 then bit b n else bit (from_le_bytes bs) (n - 8))"
    by (auto simp: bit_or_iff bit_push_bit_iff bit_unsigned_iff dest: bit_imp_le_length)
  moreover have "bit (from_le_bytes bs) (n - 8) \<longleftrightarrow> n - 8 < 8 * length bs \<and> bit (bs ! ((n - 8) div 8)) ((n - 8) mod 8)"
    using Cons.IH [of "n - 8"] Cons.prems by simp
  ultimately show ?case using Cons.prems
    by (cases "n < 8") (auto simp: le_div_geq le_mod_geq not_less)
qed

lemma to_from_le_bytes:
  assumes "length bs = 8"
  shows "to_le_bytes (from_le_bytes bs) = bs"
proof (rule nth_equalityI)
  fix i assume i: "i < length (to_le_bytes (from_le_bytes bs))"
  show "to_le_bytes (from_le_bytes bs) ! i = bs ! i"
  proof (rule bit_word_eqI)
    fix n assume "n < LENGTH(8)"
    then show "bit (to_le_bytes (from_le_bytes bs) ! i) n = bit (bs ! i) n"
      using i assms by (simp add: to_le_bytes_nth bit_simps bit_from_le_bytes)
  qed
qed (simp add: assms)

lemma from_to_le_bytes [simp]: "from_le_bytes (to_le_bytes w) = w"
proof (rule bit_word_eqI)
  fix n assume n: "n < LENGTH(64)"
  then have "n div 8 < 8" by simp
  then show "bit (from_le_bytes (to_le_bytes w)) n = bit w n"
    using n by (simp add: bit_from_le_bytes to_le_bytes_nth bit_simps)
qed

text \<open>Dropping high bytes masks the value.\<close>

lemma bit_from_take:
  assumes "m \<le> 8"
  shows "bit (from_le_bytes (take m (to_le_bytes w))) n \<longleftrightarrow> n < 8 * m \<and> bit w n"
proof -
  have "n div 8 < m" if "n < 8 * m" using that by (simp add: less_mult_imp_div_less mult.commute)
  then show ?thesis using assms by (auto simp: bit_from_le_bytes to_le_bytes_nth bit_simps)
qed

lemma from_take_le_bytes: "m \<le> 8 \<Longrightarrow> from_le_bytes (take m (to_le_bytes w)) = take_bit (8 * m) w"
  by (rule bit_word_eqI) (simp add: bit_from_take bit_take_bit_iff)

lemma length_to_le_bytes32 [simp]: "length (to_le_bytes32 w) = 4"
  by (simp add: to_le_bytes32_def)

lemma from_to_le_bytes32 [simp]: "from_le_bytes32 (to_le_bytes32 w) = w"
  unfolding from_le_bytes32_def to_le_bytes32_def by (rule bit_word_eqI) (simp add: bit_simps bit_from_take)

lemma to_from_le_bytes32 [simp]:
  assumes "length bs = 4"
  shows "to_le_bytes32 (from_le_bytes32 bs) = bs"
proof (rule nth_equalityI)
  fix i assume i: "i < length (to_le_bytes32 (from_le_bytes32 bs))"
  show "to_le_bytes32 (from_le_bytes32 bs) ! i = bs ! i"
  proof (rule bit_word_eqI)
    fix n assume "n < LENGTH(8)"
    then show "bit (to_le_bytes32 (from_le_bytes32 bs) ! i) n = bit (bs ! i) n"
      using i assms by (simp add: to_le_bytes32_def from_le_bytes32_def to_le_bytes_nth bit_simps bit_from_le_bytes)
  qed
qed (simp add: assms)

lemma to_le_bytes_inject: "to_le_bytes v = to_le_bytes w \<longleftrightarrow> v = w"
  by (metis from_to_le_bytes)

lemma to_le_bytes32_inject: "to_le_bytes32 v = to_le_bytes32 w \<longleftrightarrow> v = w"
  by (metis from_to_le_bytes32)

end
