(* ===== verification/Kv_Checksum.thy ===== *)
theory Kv_Checksum
  imports Internal_Key Le_Bytes
begin

text \<open>
  \<open>table/block/kv_checksum.rs\<close> and \<open>ChecksumAlgorithm\<close> of \<open>runtime_config/types.rs\<close>: the digest of an entry
  and the footer of per-entry digests behind a data block. The hash functions come from other crates and
  are an argument \<open>h\<close>; hashing chunk by chunk is hashing their concatenation, as both crates document.
  Lengths are \<open>nat\<close>: a count of 32 bits times a digest size of at most 8 does not overflow a \<open>usize\<close>.
\<close>

subsection \<open>Algorithms\<close>

datatype checksum_algorithm = Xxh3_64 | Xxh3Low32 | Crc32c

definition digest_size :: "checksum_algorithm \<Rightarrow> nat" where
  "digest_size algo = (case algo of Xxh3_64 \<Rightarrow> 8 | Xxh3Low32 \<Rightarrow> 4 | Crc32c \<Rightarrow> 4)"

text \<open>The hash functions of the build; CRC32C is optional.\<close>

record hashers =
  h_xxh3 :: "u8 list \<Rightarrow> u64"
  h_crc32c :: "(u8 list \<Rightarrow> u32) option"

definition is_available :: "hashers \<Rightarrow> checksum_algorithm \<Rightarrow> bool" where
  "is_available h algo = (case algo of Crc32c \<Rightarrow> h_crc32c h \<noteq> None | _ \<Rightarrow> True)"

definition compute :: "hashers \<Rightarrow> checksum_algorithm \<Rightarrow> u8 list \<Rightarrow> u64 option" where
  "compute h algo bytes =
     (case algo of
        Xxh3_64 \<Rightarrow> Some (h_xxh3 h bytes)
      | Xxh3Low32 \<Rightarrow> Some (take_bit 32 (h_xxh3 h bytes))
      | Crc32c \<Rightarrow> map_option (\<lambda>f. ucast (f bytes)) (h_crc32c h))"

definition compute_chunks :: "hashers \<Rightarrow> checksum_algorithm \<Rightarrow> u8 list list \<Rightarrow> u64 option" where
  "compute_chunks h algo chunks =
     (case algo of
        Crc32c \<Rightarrow> map_option (\<lambda>f. ucast (f (concat chunks))) (h_crc32c h)
      | _ \<Rightarrow> (let digest = h_xxh3 h (concat chunks)
             in Some (if algo = Xxh3Low32 then take_bit 32 digest else digest)))"

definition wire_tag :: "checksum_algorithm \<Rightarrow> u8" where
  "wire_tag algo = (case algo of Xxh3_64 \<Rightarrow> 0 | Xxh3Low32 \<Rightarrow> 1 | Crc32c \<Rightarrow> 2)"

definition from_wire_tag :: "u8 \<Rightarrow> checksum_algorithm option" where
  "from_wire_tag tag =
     (if tag = 0 then Some Xxh3_64 else if tag = 1 then Some Xxh3Low32 else if tag = 2 then Some Crc32c else None)"

subsection \<open>Digests of entries\<close>

definition digest_head :: "internal_value \<Rightarrow> u8 list" where
  "digest_head e = [u8_of_value_type (etype e)] @ to_le_bytes (eseqno e) @ to_le_bytes32 (of_nat (length (ukey e)))"

definition kv_digest :: "hashers \<Rightarrow> internal_value \<Rightarrow> checksum_algorithm \<Rightarrow> u64 option" where
  "kv_digest h e algo = compute_chunks h algo [digest_head e, ukey e, val e]"

subsection \<open>The footer\<close>

definition FOOTER_TAIL_LEN :: nat where
  "FOOTER_TAIL_LEN = 1 + 4"

definition append_footer :: "u8 list \<Rightarrow> u64 list \<Rightarrow> checksum_algorithm \<Rightarrow> u8 list" where
  "append_footer payload digests algo =
     payload @ concat (map (\<lambda>d. take (digest_size algo) (to_le_bytes d)) digests) @
     [wire_tag algo] @ to_le_bytes32 (of_nat (length digests))"

definition descriptor_byte :: "checksum_algorithm option \<Rightarrow> u8" where
  "descriptor_byte algo = (case algo of None \<Rightarrow> 0 | Some a \<Rightarrow> 1 + wire_tag a)"

definition descriptor_from_byte :: "u8 \<Rightarrow> lsm_error + checksum_algorithm option" where
  "descriptor_from_byte b =
     (if b = 0 then Inr None
      else case from_wire_tag (b - 1) of Some a \<Rightarrow> Inr (Some a) | None \<Rightarrow> Inl InvalidTrailer)"

definition split_inner :: "u8 list \<Rightarrow> lsm_error + u8 list" where
  "split_inner bytes =
     (let total = length bytes in
      if total < FOOTER_TAIL_LEN then Inl InvalidTrailer
      else let tail_start = total - FOOTER_TAIL_LEN; tail = drop tail_start bytes in
        case from_wire_tag (hd tail) of
          None \<Rightarrow> Inl InvalidTrailer
        | Some algo \<Rightarrow>
            (let array_len = unat (from_le_bytes32 (drop 1 tail)) * digest_size algo in
             if tail_start < array_len then Inl InvalidTrailer
             else Inr (take (tail_start - array_len) bytes)))"

record split_full_view =
  sf_inner :: "u8 list"
  sf_digest_array :: "u8 list"
  sf_algo :: checksum_algorithm
  sf_count :: nat

definition split_full :: "u8 list \<Rightarrow> lsm_error + split_full_view" where
  "split_full bytes =
     (let total = length bytes in
      if total < FOOTER_TAIL_LEN then Inl InvalidTrailer
      else let tail_start = total - FOOTER_TAIL_LEN; tail = drop tail_start bytes in
        case from_wire_tag (hd tail) of
          None \<Rightarrow> Inl InvalidTrailer
        | Some algo \<Rightarrow>
            (let cnt = unat (from_le_bytes32 (drop 1 tail)); array_len = cnt * digest_size algo in
             if tail_start < array_len then Inl InvalidTrailer
             else let array_start = tail_start - array_len in
               Inr \<lparr>sf_inner = take array_start bytes, sf_digest_array = take array_len (drop array_start bytes),
                    sf_algo = algo, sf_count = cnt\<rparr>))"

definition sf_digest :: "split_full_view \<Rightarrow> nat \<Rightarrow> u64 option" where
  "sf_digest sf index =
     (let size = digest_size (sf_algo sf); off = index * size in
      if off + size \<le> length (sf_digest_array sf)
      then Some (from_le_bytes (take size (drop off (sf_digest_array sf)) @ replicate (8 - size) 0))
      else None)"

subsection \<open>Lemmas\<close>

lemma from_wire_tag_iff: "from_wire_tag tag = Some algo \<longleftrightarrow> tag = wire_tag algo"
  by (cases algo) (auto simp: from_wire_tag_def wire_tag_def)

lemma digest_size_bounds: "0 < digest_size algo" "digest_size algo \<le> 8"
  by (cases algo; simp add: digest_size_def)+

lemma from_le_bytes_zeros: "from_le_bytes (bs @ replicate n 0) = from_le_bytes bs"
proof -
  have "foldr (\<lambda>b w. ucast b OR push_bit 8 w) (replicate n (0 :: u8)) (0 :: u64) = 0" by (induction n) simp_all
  then show ?thesis by (simp add: from_le_bytes_def)
qed

lemma take_drop_chunks:
  "i < length xs \<Longrightarrow> \<forall>x\<in>set xs. length x = n \<Longrightarrow> take n (drop (i * n) (concat xs)) = xs ! i"
proof (induction xs arbitrary: i)
  case (Cons x xs)
  then show ?case by (cases i) simp_all
qed simp

lemma length_chunks: "\<forall>x\<in>set xs. length x = n \<Longrightarrow> length (concat xs) = length xs * n"
  by (induction xs) simp_all

text \<open>The two splitters parse the same way, and a parse takes every byte once.\<close>

lemma split_inner_full: "split_inner bytes = map_sum id sf_inner (split_full bytes)"
  by (auto simp: split_inner_def split_full_def Let_def split: option.splits)

lemma split_full_parse:
  assumes "split_full bytes = Inr sf"
  shows "bytes = sf_inner sf @ sf_digest_array sf @ [wire_tag (sf_algo sf)] @ to_le_bytes32 (of_nat (sf_count sf))"
    "length (sf_digest_array sf) = sf_count sf * digest_size (sf_algo sf)" "sf_count sf < 2 ^ 32"
proof -
  define n where "n = length bytes - FOOTER_TAIL_LEN"
  define cnt where "cnt = unat (from_le_bytes32 (drop 1 (drop n bytes)))"
  from assms obtain algo where p: "FOOTER_TAIL_LEN \<le> length bytes" "from_wire_tag (hd (drop n bytes)) = Some algo"
    "cnt * digest_size algo \<le> n"
    and sf: "sf = \<lparr>sf_inner = take (n - cnt * digest_size algo) bytes,
      sf_digest_array = take (cnt * digest_size algo) (drop (n - cnt * digest_size algo) bytes), sf_algo = algo, sf_count = cnt\<rparr>"
    by (auto simp: split_full_def Let_def n_def cnt_def not_less split: if_splits option.splits)
  have len: "length (drop n bytes) = 5" using p(1) by (simp add: n_def FOOTER_TAIL_LEN_def)
  then have "drop n bytes = hd (drop n bytes) # drop 1 (drop n bytes)" by (cases "drop n bytes") auto
  moreover have "hd (drop n bytes) = wire_tag algo" using p(2) by (simp add: from_wire_tag_iff)
  moreover have "drop 1 (drop n bytes) = to_le_bytes32 (of_nat cnt)" using len by (simp add: cnt_def)
  ultimately have tail: "drop n bytes = wire_tag algo # to_le_bytes32 (of_nat cnt)" by simp
  have "bytes = take (n - cnt * digest_size algo) bytes @ take (cnt * digest_size algo) (drop (n - cnt * digest_size algo) bytes) @ drop n bytes"
    using p(3) by (metis append_take_drop_id drop_drop le_add_diff_inverse2 add.commute)
  then show "bytes = sf_inner sf @ sf_digest_array sf @ [wire_tag (sf_algo sf)] @ to_le_bytes32 (of_nat (sf_count sf))"
    by (simp add: sf tail)
  show "length (sf_digest_array sf) = sf_count sf * digest_size (sf_algo sf)" using p(3) by (simp add: sf n_def)
  show "sf_count sf < 2 ^ 32" using unsigned_less [of "from_le_bytes32 (drop 1 (drop n bytes))"] by (simp add: sf cnt_def)
qed

lemma split_full_unparse:
  assumes "length arr = cnt * digest_size algo" "cnt < 2 ^ 32"
  shows "split_full (inner @ arr @ [wire_tag algo] @ to_le_bytes32 (of_nat cnt)) =
    Inr \<lparr>sf_inner = inner, sf_digest_array = arr, sf_algo = algo, sf_count = cnt\<rparr>"
proof -
  have "unat (of_nat cnt :: u32) = cnt" using assms(2) by (simp add: unat_of_nat take_bit_nat_eq_self)
  moreover have "from_wire_tag (wire_tag algo) = Some algo" by (simp add: from_wire_tag_iff)
  ultimately show ?thesis using assms(1) by (simp add: split_full_def FOOTER_TAIL_LEN_def)
qed

lemma chunk_fits: "i * digest_size algo + digest_size algo \<le> m * digest_size algo \<longleftrightarrow> i < m"
  using digest_size_bounds(1) [of algo]
  by (simp only: add.commute [of _ "digest_size algo"] mult_Suc [symmetric] mult_le_cancel2) (simp add: Suc_le_eq)

lemma sf_digest_nth:
  assumes "sf_digest_array sf = concat xs" "\<forall>x\<in>set xs. length x = digest_size (sf_algo sf)"
  shows "sf_digest sf i = (if i < length xs then Some (from_le_bytes (xs ! i)) else None)"
  using take_drop_chunks [OF _ assms(2), of i]
  by (simp add: sf_digest_def Let_def length_chunks [OF assms(2)] chunk_fits from_le_bytes_zeros assms(1))

lemma compute_concat: "compute_chunks h algo chunks = compute h algo (concat chunks)"
  by (cases algo) (simp_all add: compute_chunks_def compute_def Let_def)

lemma u8_of_value_type_inject: "u8_of_value_type a = u8_of_value_type b \<Longrightarrow> a = b"
  by (cases a; cases b) simp_all

subsection \<open>Properties\<close>

text \<open>
  The bytes an entry's digest is computed over determine the entry: for keys shorter than 4 GiB, two
  entries with the same digest input are equal, so every change to an entry changes what is hashed.
\<close>

theorem kv_digest_domain_injective:
  assumes "length (ukey a) < 2 ^ 32" "length (ukey b) < 2 ^ 32"
  shows "(\<forall>h algo. kv_digest h a algo = compute h algo (digest_head a @ ukey a @ val a)) \<and>
    (digest_head a @ ukey a @ val a = digest_head b @ ukey b @ val b \<longrightarrow> a = b)"
proof -
  have "a = b" if "digest_head a @ ukey a @ val a = digest_head b @ ukey b @ val b"
  proof -
    have "length (digest_head a) = length (digest_head b)" by (simp add: digest_head_def)
    then have head: "digest_head a = digest_head b" and body: "ukey a @ val a = ukey b @ val b" using that by auto
    have "etype a = etype b" "eseqno a = eseqno b" "(of_nat (length (ukey a)) :: u32) = of_nat (length (ukey b))"
      using head by (auto simp: digest_head_def to_le_bytes_inject to_le_bytes32_inject dest: u8_of_value_type_inject)
    moreover from this(3) have "length (ukey a) = length (ukey b)"
      using assms by (simp add: word_unat_eq_iff unat_of_nat take_bit_nat_eq_self)
    ultimately show "a = b" using body by (auto intro!: internal_value.equality internal_key.equality)
  qed
  then show ?thesis by (simp add: kv_digest_def compute_concat)
qed

theorem kv_digest_domain_injective_witness:
  "let a = \<lparr>key = \<lparr>user_key = [1], seqno = 7, value_type = Value\<rparr>, val = [2, 3]\<rparr>;
       b = \<lparr>key = \<lparr>user_key = [1, 2], seqno = 7, value_type = Value\<rparr>, val = [3]\<rparr>
   in ukey a @ val a = ukey b @ val b \<and> digest_head a @ ukey a @ val a \<noteq> digest_head b @ ukey b @ val b"
proof -
  let ?a = "\<lparr>key = \<lparr>user_key = [1], seqno = 7, value_type = Value\<rparr>, val = [2, 3]\<rparr>"
    and ?b = "\<lparr>key = \<lparr>user_key = [1, 2], seqno = 7, value_type = Value\<rparr>, val = [3]\<rparr>"
  have "?a \<noteq> ?b" by simp
  then show ?thesis using kv_digest_domain_injective [of ?a ?b] unfolding Let_def by auto
qed

text \<open>
  C24: splitting undoes appending. From a block with the footer of fewer than \<open>2 ^ 32\<close> digests, both
  splitters return the block as it was, and the full one the algorithm, the number of digests and each
  digest, cut to the width of the algorithm; there is no digest past the last. The descriptor byte of
  the table round trips as well.
\<close>

theorem kv_footer_roundtrip:
  assumes "length digests < 2 ^ 32"
  shows "split_inner (append_footer payload digests algo) = Inr payload \<and>
    (\<exists>sf. split_full (append_footer payload digests algo) = Inr sf \<and> sf_inner sf = payload \<and> sf_algo sf = algo \<and>
       sf_count sf = length digests \<and>
       (\<forall>i. sf_digest sf i = (if i < length digests then Some (take_bit (8 * digest_size algo) (digests ! i)) else None))) \<and>
    descriptor_from_byte (descriptor_byte d) = Inr d"
proof -
  define xs where "xs = map (\<lambda>d. take (digest_size algo) (to_le_bytes d)) digests"
  have xs: "\<forall>x\<in>set xs. length x = digest_size algo" "length xs = length digests"
    using digest_size_bounds(2) [of algo] by (auto simp: xs_def)
  define sf where "sf = \<lparr>sf_inner = payload, sf_digest_array = concat xs, sf_algo = algo, sf_count = length digests\<rparr>"
  have full: "split_full (append_footer payload digests algo) = Inr sf"
    using split_full_unparse [of "concat xs" "length digests" algo payload] length_chunks [OF xs(1)] xs(2) assms
    by (simp add: append_footer_def sf_def xs_def)
  have "sf_digest sf i = (if i < length digests then Some (take_bit (8 * digest_size algo) (digests ! i)) else None)" for i
    using sf_digest_nth [of sf xs i] xs digest_size_bounds(2) [of algo] by (simp add: sf_def) (simp add: xs_def from_take_le_bytes)
  moreover have "descriptor_from_byte (descriptor_byte d) = Inr d"
    by (cases d; (cases "the d")?) (simp_all add: descriptor_byte_def descriptor_from_byte_def wire_tag_def from_wire_tag_def)
  ultimately show ?thesis using full by (auto simp: split_inner_full sf_def)
qed

theorem kv_footer_roundtrip_witness:
  "split_inner (append_footer [9, 9] [0x1122334455667788] Xxh3Low32) = Inr [9, 9]"
  using kv_footer_roundtrip [of "[0x1122334455667788]" "[9, 9]" Xxh3Low32] by simp

text \<open>
  C25: whatever the bytes, splitting either fails with \<open>InvalidTrailer\<close> or divides them into the inner
  block, an array of exactly the counted digests, the tag of a known algorithm and the count: no digest
  below the count is missing and none above it is read. The two splitters accept the same blocks.
\<close>

theorem kv_split_checked:
  "(split_full bytes = Inl InvalidTrailer \<and> split_inner bytes = Inl InvalidTrailer) \<or>
   (\<exists>sf. split_full bytes = Inr sf \<and> split_inner bytes = Inr (sf_inner sf) \<and>
      bytes = sf_inner sf @ sf_digest_array sf @ [wire_tag (sf_algo sf)] @ to_le_bytes32 (of_nat (sf_count sf)) \<and>
      length (sf_digest_array sf) = sf_count sf * digest_size (sf_algo sf) \<and>
      (\<forall>i. sf_digest sf i = None \<longleftrightarrow> sf_count sf \<le> i))"
proof (cases "split_full bytes")
  case (Inl e)
  then have "e = InvalidTrailer" by (auto simp: split_full_def Let_def split: if_splits option.splits)
  then show ?thesis using Inl by (simp add: split_inner_full)
next
  case (Inr sf)
  note parse = split_full_parse [OF Inr]
  have "sf_digest sf i = None \<longleftrightarrow> sf_count sf \<le> i" for i
    by (simp add: sf_digest_def Let_def parse(2) chunk_fits not_less)
  then show ?thesis using Inr parse by (simp add: split_inner_full)
qed

end
