(* ===== verification/Skiplist.thy ===== *)
theory Skiplist
  imports Internal_Key Key_Range Double_Ended Kv_Checksum
begin

text \<open>
  \<open>memtable/skiplist.rs\<close>: the skip list of a memtable. The arena is the list of the nodes allocated so
  far and a node's offset is its index; index 0 is the head sentinel and \<open>UNSET\<close> is \<open>None\<close>. A node keeps
  its key, its value (the source keeps an index into a value store), its tower of next pointers, and the
  type byte and digest slot from which the residence check reads back what was fixed at insert.
  Operations run one after another, so a compare-and-swap fails only if its expected value is wrong.
  Loops along a level carry fuel, the number of nodes: no level visits a node twice.
\<close>

unbundle bit_operations_syntax

definition MAX_HEIGHT :: nat where
  "MAX_HEIGHT = 20"

record sl_node =
  n_key :: internal_key
  n_value :: user_value
  n_vt_byte :: u8
  n_slot :: u32
  n_tower :: "nat option list"

record skip_map =
  sl_nodes :: "sl_node list"
  sl_comparator :: comparator
  is_lexicographic :: bool
  sl_height :: nat
  sl_len :: nat
  rng_state :: u64
  tail_hint :: "nat option"

definition sl_new :: "comparator \<Rightarrow> bool \<Rightarrow> u64 \<Rightarrow> skip_map" where
  "sl_new c lexicographic seed =
     \<lparr>sl_nodes = [\<lparr>n_key = \<lparr>user_key = [], seqno = 0, value_type = Value\<rparr>, n_value = [], n_vt_byte = 0, n_slot = 0,
        n_tower = replicate MAX_HEIGHT None\<rparr>],
      sl_comparator = c, is_lexicographic = lexicographic, sl_height = 1, sl_len = 0,
      rng_state = (if seed = 0 then 0xDEADBEEF else seed), tail_hint = None\<rparr>"

definition sl_is_empty :: "skip_map \<Rightarrow> bool" where
  "sl_is_empty st \<longleftrightarrow> sl_len st = 0"

subsection \<open>Nodes\<close>

definition next_at :: "skip_map \<Rightarrow> nat \<Rightarrow> nat \<Rightarrow> nat option" where
  "next_at st node level = n_tower (sl_nodes st ! node) ! level"

definition set_next :: "nat \<Rightarrow> nat \<Rightarrow> nat option \<Rightarrow> skip_map \<Rightarrow> skip_map" where
  "set_next node level x st =
     st\<lparr>sl_nodes := (sl_nodes st)[node := (sl_nodes st ! node)\<lparr>n_tower := (n_tower (sl_nodes st ! node))[level := x]\<rparr>]\<rparr>"

text \<open>The value type byte also holds the presence and the algorithm of an insert-time digest.\<close>

definition KV_DIGEST_PRESENT :: u8 where
  "KV_DIGEST_PRESENT = 0x80"

definition VALUE_TYPE_MASK :: u8 where
  "VALUE_TYPE_MASK = 0x07"

definition KV_ALGO_SHIFT :: nat where
  "KV_ALGO_SHIFT = 5"

definition KV_ALGO_MASK :: u8 where
  "KV_ALGO_MASK = 0x60"

definition vt_byte_of :: "value_type \<Rightarrow> (u32 \<times> checksum_algorithm) option \<Rightarrow> u8" where
  "vt_byte_of t digest =
     (case digest of
        Some (d, algo) \<Rightarrow> u8_of_value_type t OR KV_DIGEST_PRESENT OR push_bit KV_ALGO_SHIFT (wire_tag algo)
      | None \<Rightarrow> u8_of_value_type t)"

definition alloc_node ::
  "internal_key \<Rightarrow> user_value \<Rightarrow> nat \<Rightarrow> (u32 \<times> checksum_algorithm) option \<Rightarrow> skip_map \<Rightarrow> nat \<times> skip_map" where
  "alloc_node k v height digest st =
     (length (sl_nodes st),
      st\<lparr>sl_nodes := sl_nodes st @
        [\<lparr>n_key = k, n_value = v, n_vt_byte = vt_byte_of (value_type k) digest,
          n_slot = (case digest of Some (d, _) \<Rightarrow> d | None \<Rightarrow> 0), n_tower = replicate height None\<rparr>]\<rparr>)"

datatype node_kv_digest = Absent | Present u32 checksum_algorithm | CorruptAlgorithm u8

definition read_kv_digest :: "sl_node \<Rightarrow> node_kv_digest" where
  "read_kv_digest nd =
     (if n_vt_byte nd AND KV_DIGEST_PRESENT = 0 then Absent
      else let algo_tag = drop_bit KV_ALGO_SHIFT (n_vt_byte nd AND KV_ALGO_MASK) in
        case from_wire_tag algo_tag of
          Some algo \<Rightarrow> if digest_size algo = 4 then Present (n_slot nd) algo else CorruptAlgorithm algo_tag
        | None \<Rightarrow> CorruptAlgorithm algo_tag)"

definition node_internal_key_checked :: "sl_node \<Rightarrow> lsm_error + internal_key" where
  "node_internal_key_checked nd =
     (case value_type_of_u8 (n_vt_byte nd AND VALUE_TYPE_MASK) of
        Some t \<Rightarrow> Inr ((n_key nd)\<lparr>value_type := t\<rparr>)
      | None \<Rightarrow> Inl (InvalidTag (n_vt_byte nd AND VALUE_TYPE_MASK)))"

definition first_node :: "skip_map \<Rightarrow> nat option" where
  "first_node st = next_at st 0 0"

definition node_entry :: "skip_map \<Rightarrow> nat \<Rightarrow> internal_value" where
  "node_entry st node = \<lparr>key = n_key (sl_nodes st ! node), val = n_value (sl_nodes st ! node)\<rparr>"

definition compare_key_parts :: "skip_map \<Rightarrow> nat \<Rightarrow> user_key \<Rightarrow> seqno \<Rightarrow> ordering" where
  "compare_key_parts st node uk s =
     (let k = n_key (sl_nodes st ! node);
          uk_ord = (if is_lexicographic st then slice_cmp (user_key k) uk else sl_comparator st (user_key k) uk)
      in case uk_ord of Equal \<Rightarrow> ord_cmp s (seqno k) | other \<Rightarrow> other)"

definition compare_key :: "skip_map \<Rightarrow> nat \<Rightarrow> internal_key \<Rightarrow> ordering" where
  "compare_key st node k = compare_key_parts st node (user_key k) (seqno k)"

definition compare_nodes :: "skip_map \<Rightarrow> nat \<Rightarrow> nat \<Rightarrow> ordering" where
  "compare_nodes st a b =
     (let ka = n_key (sl_nodes st ! a); kb = n_key (sl_nodes st ! b);
          uk_ord = (if is_lexicographic st then slice_cmp (user_key ka) (user_key kb)
                    else sl_comparator st (user_key ka) (user_key kb))
      in case uk_ord of Equal \<Rightarrow> ord_cmp (seqno kb) (seqno ka) | other \<Rightarrow> other)"

subsection \<open>Searching\<close>

text \<open>Along one level while the next node passes the test; then down through the levels.\<close>

fun walk :: "skip_map \<Rightarrow> (nat \<Rightarrow> bool) \<Rightarrow> nat \<Rightarrow> nat \<Rightarrow> nat \<Rightarrow> nat" where
  "walk st p level 0 node = node"
| "walk st p level (Suc fuel) node =
     (case next_at st node level of
        None \<Rightarrow> node
      | Some nxt \<Rightarrow> if p nxt then walk st p level fuel nxt else node)"

definition walk_level :: "skip_map \<Rightarrow> (nat \<Rightarrow> bool) \<Rightarrow> nat \<Rightarrow> nat \<Rightarrow> nat" where
  "walk_level st p level node = walk st p level (length (sl_nodes st)) node"

fun descend :: "skip_map \<Rightarrow> (nat \<Rightarrow> bool) \<Rightarrow> nat \<Rightarrow> nat \<Rightarrow> nat" where
  "descend st p 0 node = node"
| "descend st p (Suc level) node = descend st p level (walk_level st p level node)"

fun find_splice_loop ::
  "skip_map \<Rightarrow> internal_key \<Rightarrow> nat \<Rightarrow> nat \<Rightarrow> nat list \<times> nat option list \<Rightarrow> nat list \<times> nat option list" where
  "find_splice_loop st k 0 node ps = ps"
| "find_splice_loop st k (Suc level) node ps =
     (let node' = walk_level st (\<lambda>n. compare_key st n k = Less) level node
      in find_splice_loop st k level node'
           ((fst ps)[level := node'], (snd ps)[level := next_at st node' level]))"

definition find_splice ::
  "skip_map \<Rightarrow> internal_key \<Rightarrow> nat list \<times> nat option list \<Rightarrow> nat list \<times> nat option list" where
  "find_splice st k ps = find_splice_loop st k (sl_height st) 0 ps"

text \<open>The levels above \<open>level\<close> from the top, then \<open>level\<close> itself.\<close>

fun descend_to :: "skip_map \<Rightarrow> (nat \<Rightarrow> bool) \<Rightarrow> nat \<Rightarrow> nat \<Rightarrow> nat \<Rightarrow> nat" where
  "descend_to st p level 0 node = walk_level st p level node"
| "descend_to st p level (Suc upper) node =
     descend_to st p level upper (walk_level st p (level + Suc upper) node)"

definition find_splice_for_level ::
  "skip_map \<Rightarrow> internal_key \<Rightarrow> nat \<Rightarrow> nat list \<times> nat option list \<Rightarrow> nat list \<times> nat option list" where
  "find_splice_for_level st k level ps =
     (let node = descend_to st (\<lambda>n. compare_key st n k = Less) level (sl_height st - (level + 1)) 0
      in ((fst ps)[level := node], (snd ps)[level := next_at st node level]))"

definition seek_ge_parts :: "skip_map \<Rightarrow> user_key \<Rightarrow> seqno \<Rightarrow> nat option" where
  "seek_ge_parts st uk s =
     next_at st (descend st (\<lambda>n. compare_key_parts st n uk s = Less) (sl_height st) 0) 0"

definition seek_ge :: "skip_map \<Rightarrow> internal_key \<Rightarrow> nat option" where
  "seek_ge st k = seek_ge_parts st (user_key k) (seqno k)"

definition seek_gt :: "skip_map \<Rightarrow> internal_key \<Rightarrow> nat option" where
  "seek_gt st k = next_at st (descend st (\<lambda>n. compare_key st n k \<noteq> Greater) (sl_height st) 0) 0"

definition unless_head :: "nat \<Rightarrow> nat option" where
  "unless_head node = (if node = 0 then None else Some node)"

definition seek_le :: "skip_map \<Rightarrow> internal_key \<Rightarrow> nat option" where
  "seek_le st k = unless_head (descend st (\<lambda>n. compare_key st n k \<noteq> Greater) (sl_height st) 0)"

definition seek_lt :: "skip_map \<Rightarrow> internal_key \<Rightarrow> nat option" where
  "seek_lt st k = unless_head (descend st (\<lambda>n. compare_key st n k = Less) (sl_height st) 0)"

definition last_node :: "skip_map \<Rightarrow> nat option" where
  "last_node st = unless_head (descend st (\<lambda>_. True) (sl_height st) 0)"

definition find_predecessor :: "skip_map \<Rightarrow> nat \<Rightarrow> nat option" where
  "find_predecessor st target =
     (let p = (\<lambda>n. n \<noteq> target \<and> compare_nodes st n target = Less)
      in unless_head (walk_level st p 0 (descend st p (sl_height st) 0)))"

definition point_get :: "skip_map \<Rightarrow> user_key \<Rightarrow> seqno \<Rightarrow> internal_value option" where
  "point_get st k max_seqno =
     (case seek_ge_parts st k max_seqno of
        None \<Rightarrow> None
      | Some node \<Rightarrow>
          if \<not> same_user_key (user_key (n_key (sl_nodes st ! node))) k then None else Some (node_entry st node))"

subsection \<open>Insertion\<close>

text \<open>\<open>u64::trailing_zeros\<close>.\<close>

definition trailing_zeros :: "u64 \<Rightarrow> nat" where
  "trailing_zeros z = length (takeWhile (\<lambda>i. \<not> bit z i) [0..<64])"

definition random_height :: "skip_map \<Rightarrow> nat \<times> skip_map" where
  "random_height st =
     (let z = rng_state st + 0x9E3779B97F4A7C15;
          z = (z XOR drop_bit 30 z) * 0xBF58476D1CE4E5B9;
          z = (z XOR drop_bit 27 z) * 0x94D049BB133111EB;
          z = z XOR drop_bit 31 z
      in (min (1 + trailing_zeros z div 2) MAX_HEIGHT, st\<lparr>rng_state := rng_state st + 1\<rparr>))"

text \<open>Linking one level: \<open>tries\<close> bounds the compare-and-swap loop.\<close>

fun link_level ::
  "nat \<Rightarrow> internal_key \<Rightarrow> nat \<Rightarrow> nat \<Rightarrow> nat list \<times> nat option list \<Rightarrow> skip_map \<Rightarrow>
   (nat list \<times> nat option list) \<times> skip_map" where
  "link_level 0 k node level ps st = (ps, st)"
| "link_level (Suc tries) k node level ps st =
     (let st1 = set_next node level (snd ps ! level) st
      in if next_at st1 (fst ps ! level) level = snd ps ! level
         then (ps, set_next (fst ps ! level) level (Some node) st1)
         else link_level tries k node level (find_splice_for_level st1 k level ps) st1)"

definition link_levels ::
  "internal_key \<Rightarrow> nat \<Rightarrow> nat list \<Rightarrow> nat list \<times> nat option list \<Rightarrow> skip_map \<Rightarrow>
   (nat list \<times> nat option list) \<times> skip_map" where
  "link_levels k node levels ps st =
     foldl (\<lambda>(ps, st) level. link_level 2 k node level ps st) (ps, st) levels"

definition appended_at_tail :: "nat \<Rightarrow> internal_key \<Rightarrow> skip_map \<Rightarrow> bool" where
  "appended_at_tail height k st \<longleftrightarrow>
     (case tail_hint st of
        None \<Rightarrow> False
      | Some hint \<Rightarrow> height = 1 \<and> next_at st hint 0 = None \<and> compare_key st hint k = Less)"

definition insert_with_kv_digest ::
  "internal_key \<Rightarrow> user_value \<Rightarrow> (u32 \<times> checksum_algorithm) option \<Rightarrow> skip_map \<Rightarrow> skip_map" where
  "insert_with_kv_digest k v digest st =
     (let (height, st1) = random_height st;
          (node, st2) = alloc_node k v height digest st1;
          st3 = st2\<lparr>sl_height := max (sl_height st2) height\<rparr>;
          preds = replicate MAX_HEIGHT 0;
          succs = replicate MAX_HEIGHT None;
          ps = (if appended_at_tail height k st3 then (preds[0 := the (tail_hint st3)], succs)
                else find_splice st3 k (preds, succs));
          (ps', st4) = link_levels k node [0..<height] ps st3;
          st5 = (if snd ps' ! 0 = None then st4\<lparr>tail_hint := Some node\<rparr> else st4)
      in st5\<lparr>sl_len := sl_len st5 + 1\<rparr>)"

definition sl_insert :: "internal_key \<Rightarrow> user_value \<Rightarrow> skip_map \<Rightarrow> skip_map" where
  "sl_insert k v st = insert_with_kv_digest k v None st"

subsection \<open>The residence check\<close>

definition verify_node :: "hashers \<Rightarrow> sl_node \<Rightarrow> lsm_error + unit" where
  "verify_node h nd =
     (case read_kv_digest nd of
        Absent \<Rightarrow> Inr ()
      | Present stored algo \<Rightarrow>
          (case node_internal_key_checked nd of
             Inl e \<Rightarrow> Inl e
           | Inr k \<Rightarrow>
               (case kv_digest h \<lparr>key = k, val = n_value nd\<rparr> algo of
                  None \<Rightarrow> Inl FeatureUnsupported
                | Some recomputed \<Rightarrow>
                    (let got = ucast recomputed :: u32 in
                     if got \<noteq> stored then Inl (MemtableKvChecksumMismatch (seqno k) (ucast got) (ucast stored))
                     else Inr ())))
      | CorruptAlgorithm tag \<Rightarrow> Inl (MemtableKvChecksumCorruptAlgorithm (seqno (n_key nd)) tag))"

fun verify_loop :: "hashers \<Rightarrow> skip_map \<Rightarrow> nat \<Rightarrow> nat option \<Rightarrow> lsm_error + unit" where
  "verify_loop h st 0 node = Inr ()"
| "verify_loop h st (Suc fuel) None = Inr ()"
| "verify_loop h st (Suc fuel) (Some node) =
     (case verify_node h (sl_nodes st ! node) of
        Inl e \<Rightarrow> Inl e
      | Inr _ \<Rightarrow> verify_loop h st fuel (next_at st node 0))"

definition verify_kv_digests :: "hashers \<Rightarrow> skip_map \<Rightarrow> lsm_error + unit" where
  "verify_kv_digests h st = verify_loop h st (length (sl_nodes st)) (first_node st)"

subsection \<open>Iterators\<close>

datatype key_bound = KIncluded internal_key | KExcluded internal_key | KUnbounded

record sl_range =
  r_map :: skip_map
  end_bound :: key_bound
  r_front :: "nat option"
  r_back :: "nat option"
  back_init :: bool
  r_done :: bool

definition sl_iter :: "skip_map \<Rightarrow> sl_range" where
  "sl_iter st = \<lparr>r_map = st, end_bound = KUnbounded, r_front = first_node st, r_back = None, back_init = False, r_done = False\<rparr>"

definition sl_range_of :: "skip_map \<Rightarrow> key_bound \<Rightarrow> key_bound \<Rightarrow> sl_range" where
  "sl_range_of st lo hi =
     \<lparr>r_map = st, end_bound = hi,
      r_front = (case lo of KIncluded k \<Rightarrow> seek_ge st k | KExcluded k \<Rightarrow> seek_gt st k | KUnbounded \<Rightarrow> first_node st),
      r_back = None, back_init = False, r_done = False\<rparr>"

definition within_end :: "sl_range \<Rightarrow> nat \<Rightarrow> bool" where
  "within_end it node =
     (case end_bound it of
        KUnbounded \<Rightarrow> True
      | KIncluded k \<Rightarrow> compare_key (r_map it) node k \<noteq> Greater
      | KExcluded k \<Rightarrow> compare_key (r_map it) node k = Less)"

text \<open>The end of both \<open>next\<close>s: the last node, or one step on.\<close>

definition advance_front :: "nat \<Rightarrow> sl_range \<Rightarrow> sl_range" where
  "advance_front node it =
     (if back_init it \<and> Some node = r_back it then it\<lparr>r_done := True\<rparr>
      else let it1 = it\<lparr>r_front := next_at (r_map it) node 0\<rparr>
           in if r_front it1 = None then it1\<lparr>r_done := True\<rparr> else it1)"

definition advance_back :: "nat \<Rightarrow> sl_range \<Rightarrow> sl_range" where
  "advance_back node it =
     (if Some node = r_front it then it\<lparr>r_done := True\<rparr>
      else it\<lparr>r_back := find_predecessor (r_map it) node\<rparr>)"

definition iter_next :: "sl_range \<Rightarrow> internal_value option \<times> sl_range" where
  "iter_next it =
     (if r_done it then (None, it)
      else case r_front it of
             None \<Rightarrow> (None, it)
           | Some node \<Rightarrow> (Some (node_entry (r_map it) node), advance_front node it))"

definition iter_next_back :: "sl_range \<Rightarrow> internal_value option \<times> sl_range" where
  "iter_next_back it =
     (if r_done it then (None, it)
      else let it1 = (if back_init it then it else it\<lparr>r_back := last_node (r_map it), back_init := True\<rparr>)
           in case r_back it1 of
                None \<Rightarrow> (None, it1\<lparr>r_done := True\<rparr>)
              | Some node \<Rightarrow> (Some (node_entry (r_map it1) node), advance_back node it1))"

definition range_next :: "sl_range \<Rightarrow> internal_value option \<times> sl_range" where
  "range_next it =
     (if r_done it then (None, it)
      else case r_front it of
             None \<Rightarrow> (None, it)
           | Some node \<Rightarrow>
               if \<not> within_end it node then (None, it\<lparr>r_front := None, r_done := True\<rparr>)
               else (Some (node_entry (r_map it) node), advance_front node it))"

definition init_back :: "sl_range \<Rightarrow> sl_range" where
  "init_back it =
     (if back_init it then it
      else it\<lparr>r_back := (case end_bound it of
                            KUnbounded \<Rightarrow> last_node (r_map it)
                          | KIncluded k \<Rightarrow> seek_le (r_map it) k
                          | KExcluded k \<Rightarrow> seek_lt (r_map it) k), back_init := True\<rparr>)"

definition range_next_back :: "sl_range \<Rightarrow> internal_value option \<times> sl_range" where
  "range_next_back it =
     (if r_done it then (None, it)
      else let it1 = init_back it in
           case (r_back it1, r_front it1) of
             (Some node, Some front) \<Rightarrow>
               if compare_nodes (r_map it1) node front = Less then (None, it1\<lparr>r_done := True\<rparr>)
               else (Some (node_entry (r_map it1) node), advance_back node it1)
           | _ \<Rightarrow> (None, it1\<lparr>r_done := True\<rparr>))"

subsection \<open>Levels\<close>

text \<open>\<open>chain st level a ns\<close>: from node \<open>a\<close> the level visits \<open>ns\<close> and ends.\<close>

fun chain :: "skip_map \<Rightarrow> nat \<Rightarrow> nat \<Rightarrow> nat list \<Rightarrow> bool" where
  "chain st level a [] \<longleftrightarrow> next_at st a level = None"
| "chain st level a (n # ns) \<longleftrightarrow> next_at st a level = Some n \<and> chain st level n ns"

abbreviation head_opt :: "'a list \<Rightarrow> 'a option" where
  "head_opt xs \<equiv> (case xs of [] \<Rightarrow> None | x # _ \<Rightarrow> Some x)"

lemma chain_next: "chain st level a ns \<Longrightarrow> next_at st a level = head_opt ns"
  by (cases ns) simp_all

lemma chain_append: "chain st level a (xs @ ys) \<Longrightarrow> chain st level (last (a # xs)) ys"
  by (induction xs arbitrary: a) auto

lemma chain_cong:
  "(\<And>x. x \<in> set (a # ns) \<Longrightarrow> next_at st' x level = next_at st x level) \<Longrightarrow> chain st' level a ns = chain st level a ns"
proof (induction ns arbitrary: a)
  case (Cons n ns)
  then have "chain st' level n ns = chain st level n ns" by simp
  with Cons.prems [of a] show ?case by simp
qed simp

lemma chain_insert:
  assumes "chain st level a (xs @ ys)" "distinct (a # xs @ ys)"
    and "next_at st' (last (a # xs)) level = Some n" "next_at st' n level = head_opt ys"
    and "\<And>x. x \<in> set (a # xs @ ys) \<Longrightarrow> x \<noteq> last (a # xs) \<Longrightarrow> next_at st' x level = next_at st x level"
  shows "chain st' level a (xs @ n # ys)"
  using assms
proof (induction xs arbitrary: a)
  case Nil
  have "chain st' level y ys' = chain st level y ys'" if "ys = y # ys'" for y ys'
    by (rule chain_cong) (use Nil(2) Nil(5) that in auto)
  with Nil show ?case by (cases ys) auto
next
  case (Cons x xs)
  have "chain st' level x (xs @ n # ys)"
  proof (rule Cons.IH)
    show "chain st level x (xs @ ys)" "distinct (x # xs @ ys)" using Cons.prems(1,2) by simp_all
    show "next_at st' (last (x # xs)) level = Some n" "next_at st' n level = head_opt ys" using Cons.prems(3,4) by simp_all
    show "next_at st' z level = next_at st z level" if "z \<in> set (x # xs @ ys)" "z \<noteq> last (x # xs)" for z
      using Cons.prems(5) [of z] that by simp
  qed
  moreover have "a \<noteq> last (x # xs)" using Cons.prems(2) by (metis UnI1 distinct.simps(2) last_in_set list.discI set_append append_Cons)
  then have "next_at st' a level = Some x" using Cons.prems(1) Cons.prems(5) [of a] by simp
  ultimately show ?case by simp
qed

lemma walk_chain:
  "chain st level a ns \<Longrightarrow> length ns \<le> fuel \<Longrightarrow> walk st p level fuel a = last (a # takeWhile p ns)"
proof (induction ns arbitrary: a fuel)
  case Nil
  then show ?case by (cases fuel) simp_all
next
  case (Cons n ns)
  then obtain f where f: "fuel = Suc f" by (cases fuel) auto
  with Cons have "walk st p level f n = last (n # takeWhile p ns)" by simp
  with Cons.prems f show ?case by simp
qed

text \<open>
  \<open>leveled st ns\<close>: level 0 visits the nodes \<open>ns\<close>, and each level above visits those of them whose tower
  reaches it.
\<close>

abbreviation tower_height :: "skip_map \<Rightarrow> nat \<Rightarrow> nat" where
  "tower_height st n \<equiv> length (n_tower (sl_nodes st ! n))"

abbreviation at_level :: "skip_map \<Rightarrow> nat list \<Rightarrow> nat \<Rightarrow> nat list" where
  "at_level st ns level \<equiv> filter (\<lambda>n. level < tower_height st n) ns"

definition leveled :: "skip_map \<Rightarrow> nat list \<Rightarrow> bool" where
  "leveled st ns \<longleftrightarrow> distinct ns \<and> set ns \<subseteq> {1..<length (sl_nodes st)} \<and> sl_nodes st \<noteq> [] \<and>
     tower_height st 0 = MAX_HEIGHT \<and> 1 \<le> sl_height st \<and> sl_height st \<le> MAX_HEIGHT \<and>
     (\<forall>n\<in>set ns. 1 \<le> tower_height st n \<and> tower_height st n \<le> sl_height st) \<and>
     (\<forall>level<MAX_HEIGHT. chain st level 0 (at_level st ns level))"

lemma leveled_0: "leveled st ns \<Longrightarrow> at_level st ns 0 = ns"
  by (auto simp: leveled_def filter_id_conv Suc_le_eq)

lemma leveled_chain_0: "leveled st ns \<Longrightarrow> chain st 0 0 ns"
  using leveled_0 [of st ns] by (auto simp: leveled_def MAX_HEIGHT_def dest: spec [of _ 0])

lemma leveled_length: "leveled st ns \<Longrightarrow> length ns < length (sl_nodes st)"
proof -
  assume lev: "leveled st ns"
  then have "card (set ns) \<le> card {1..<length (sl_nodes st)}" by (intro card_mono) (simp_all add: leveled_def)
  moreover have "card (set ns) = length ns" using lev by (simp add: leveled_def distinct_card)
  moreover have "0 < length (sl_nodes st)" using lev by (simp add: leveled_def)
  ultimately show ?thesis unfolding card_atLeastLessThan by linarith
qed

text \<open>Where a test that holds of a prefix of the nodes stops at a level.\<close>

definition stop_at :: "skip_map \<Rightarrow> (nat \<Rightarrow> bool) \<Rightarrow> nat list \<Rightarrow> nat \<Rightarrow> nat" where
  "stop_at st p ns level = last (0 # filter p (at_level st ns level))"

lemma stop_at_in: "stop_at st p ns level = 0 \<or> stop_at st p ns level \<in> set (at_level st ns level) \<and> p (stop_at st p ns level)"
  unfolding stop_at_def using last_in_set [of "filter p (at_level st ns level)"] by auto

lemma stop_at_0: "leveled st ns \<Longrightarrow> stop_at st p ns 0 = last (0 # filter p ns)"
  unfolding stop_at_def by (simp only: leveled_0)

lemma prefix_level: "sorted_wrt (\<lambda>x y. p y \<longrightarrow> p x) ns \<Longrightarrow> sorted_wrt (\<lambda>x y. p y \<longrightarrow> p x) (at_level st ns level)"
  by (simp add: sorted_wrt_filter)

lemma walk_level_stop:
  assumes lev: "leveled st ns" "level < MAX_HEIGHT" and p: "sorted_wrt (\<lambda>x y. p y \<longrightarrow> p x) ns"
    and a: "a = 0 \<or> a \<in> set (at_level st ns level) \<and> p a"
  shows "walk_level st p level a = stop_at st p ns level"
proof -
  let ?L = "at_level st ns level"
  have chain: "chain st level 0 ?L" using lev by (simp add: leveled_def)
  have len: "length ?L \<le> length (sl_nodes st)"
    using leveled_length [OF lev(1)] length_filter_le [of _ ns] by (meson le_less_trans less_imp_le)
  have split: "takeWhile p ?L = filter p ?L" by (rule filter_split(1) [OF prefix_level [OF p]])
  show ?thesis
  proof (cases "a = 0")
    case True
    then show ?thesis using walk_chain [OF chain len, of p] split by (simp add: walk_level_def stop_at_def)
  next
    case False
    then obtain u v where L: "?L = u @ a # v" and pa: "p a" using a by (auto dest: split_list)
    have "chain st level a v" using chain_append [of st level 0 "u @ [a]" v] chain L by simp
    moreover have "length v \<le> length (sl_nodes st)" using len L by simp
    ultimately have "walk_level st p level a = last (a # takeWhile p v)" unfolding walk_level_def by (rule walk_chain)
    moreover have "\<forall>x\<in>set u. p x" using prefix_level [OF p, where st = st and level = level] pa unfolding L by (auto simp: sorted_wrt_append)
    then have "takeWhile p ?L = u @ a # takeWhile p v" using pa unfolding L by (simp add: takeWhile_append)
    ultimately show ?thesis unfolding stop_at_def split [symmetric] by simp
  qed
qed

lemma next_stop:
  assumes "leveled st ns" "level < MAX_HEIGHT" "sorted_wrt (\<lambda>x y. p y \<longrightarrow> p x) ns"
  shows "next_at st (stop_at st p ns level) level = head_opt (filter (\<lambda>n. \<not> p n) (at_level st ns level))"
proof -
  let ?L = "at_level st ns level"
  have "?L = filter p ?L @ filter (\<lambda>n. \<not> p n) ?L"
    using filter_split [OF prefix_level [OF assms(3)]] by (metis takeWhile_dropWhile_id)
  moreover have "chain st level 0 ?L" using assms(1,2) by (simp add: leveled_def)
  ultimately have "chain st level (stop_at st p ns level) (filter (\<lambda>n. \<not> p n) ?L)"
    unfolding stop_at_def using chain_append by metis
  then show ?thesis by (rule chain_next)
qed

lemma descend_stop:
  assumes lev: "leveled st ns" and p: "sorted_wrt (\<lambda>x y. p y \<longrightarrow> p x) ns"
  shows "level \<le> MAX_HEIGHT \<Longrightarrow> 0 < level \<Longrightarrow> a = 0 \<or> a \<in> set ns \<and> level - 1 < tower_height st a \<and> p a \<Longrightarrow>
    descend st p level a = last (0 # filter p ns)"
proof (induction level arbitrary: a)
  case (Suc l)
  have w: "walk_level st p l a = stop_at st p ns l" by (rule walk_level_stop [OF lev _ p]) (use Suc.prems in auto)
  show ?case
  proof (cases l)
    case 0
    then show ?thesis using w stop_at_0 [OF lev] by simp
  next
    case (Suc l')
    have "descend st p l (stop_at st p ns l) = last (0 # filter p ns)"
      using Suc Suc.prems(1) stop_at_in [of st p ns l] by (intro Suc.IH) auto
    then show ?thesis using w by simp
  qed
qed simp

lemma descend_from_head:
  assumes "leveled st ns" "sorted_wrt (\<lambda>x y. p y \<longrightarrow> p x) ns"
  shows "descend st p (sl_height st) 0 = last (0 # filter p ns)"
  by (rule descend_stop [OF assms]) (use assms(1) in \<open>auto simp: leveled_def\<close>)

lemma find_splice_loop_stop:
  assumes lev: "leveled st ns" and p: "sorted_wrt (\<lambda>x y. q y \<longrightarrow> q x) ns" and q: "q = (\<lambda>n. compare_key st n k = Less)"
  shows "level \<le> MAX_HEIGHT \<Longrightarrow> a = 0 \<or> a \<in> set ns \<and> level - 1 < tower_height st a \<and> q a \<Longrightarrow>
    length (fst ps) = MAX_HEIGHT \<Longrightarrow> length (snd ps) = MAX_HEIGHT \<Longrightarrow>
    (case find_splice_loop st k level a ps of (preds, succs) \<Rightarrow> length preds = MAX_HEIGHT \<and> length succs = MAX_HEIGHT \<and>
       (\<forall>l<level. preds ! l = stop_at st q ns l \<and> succs ! l = next_at st (stop_at st q ns l) l) \<and>
       (\<forall>l\<ge>level. preds ! l = fst ps ! l \<and> succs ! l = snd ps ! l))"
proof (induction level arbitrary: a ps)
  case (Suc l)
  have w: "walk_level st q l a = stop_at st q ns l"
    by (rule walk_level_stop [OF lev _ p]) (use Suc.prems in auto)
  let ?ps = "((fst ps)[l := stop_at st q ns l], (snd ps)[l := next_at st (stop_at st q ns l) l])"
  have "find_splice_loop st k (Suc l) a ps = find_splice_loop st k l (stop_at st q ns l) ?ps"
    using w by (simp add: q Let_def)
  moreover have "stop_at st q ns l = 0 \<or> stop_at st q ns l \<in> set ns \<and> l - 1 < tower_height st (stop_at st q ns l) \<and> q (stop_at st q ns l)"
    using stop_at_in [of st q ns l] by auto
  from Suc.IH [OF _ this, of ?ps] have "case find_splice_loop st k l (stop_at st q ns l) ?ps of (preds, succs) \<Rightarrow>
      length preds = MAX_HEIGHT \<and> length succs = MAX_HEIGHT \<and>
      (\<forall>j<l. preds ! j = stop_at st q ns j \<and> succs ! j = next_at st (stop_at st q ns j) j) \<and>
      (\<forall>j\<ge>l. preds ! j = fst ?ps ! j \<and> succs ! j = snd ?ps ! j)"
    using Suc.prems by simp
  ultimately show ?case using Suc.prems by (auto simp: less_Suc_eq nth_list_update)
qed auto

subsection \<open>Linking a node\<close>

text \<open>What writing next pointers leaves alone.\<close>

definition same_but_links :: "skip_map \<Rightarrow> skip_map \<Rightarrow> bool" where
  "same_but_links st st' \<longleftrightarrow> length (sl_nodes st') = length (sl_nodes st) \<and>
     (\<forall>n. n_key (sl_nodes st' ! n) = n_key (sl_nodes st ! n) \<and> n_value (sl_nodes st' ! n) = n_value (sl_nodes st ! n) \<and>
        n_vt_byte (sl_nodes st' ! n) = n_vt_byte (sl_nodes st ! n) \<and> n_slot (sl_nodes st' ! n) = n_slot (sl_nodes st ! n) \<and>
        tower_height st' n = tower_height st n) \<and>
     sl_comparator st' = sl_comparator st \<and> is_lexicographic st' = is_lexicographic st \<and> sl_height st' = sl_height st \<and>
     sl_len st' = sl_len st \<and> tail_hint st' = tail_hint st"

lemma same_but_links_refl: "same_but_links st st"
  by (simp add: same_but_links_def)

lemma same_but_links_trans: "same_but_links a b \<Longrightarrow> same_but_links b c \<Longrightarrow> same_but_links a c"
  by (simp add: same_but_links_def)

lemma list_update_nth: "xs[n := y] ! m = (if m = n \<and> n < length xs then y else xs ! m)"
  by (cases "n < length xs"; cases "m = n") (auto simp: list_update_beyond)

lemma same_but_links_set_next: "same_but_links st (set_next n l x st)"
  unfolding same_but_links_def set_next_def by (simp add: list_update_nth)

lemma next_at_set_next:
  "n < length (sl_nodes st) \<Longrightarrow> l < tower_height st n \<Longrightarrow>
     next_at (set_next n l x st) m l' = (if m = n \<and> l' = l then x else next_at st m l')"
  by (auto simp: next_at_def set_next_def nth_list_update)

lemma link_level_law:
  assumes chain: "chain st l 0 (A @ B)" "distinct (0 # A @ B)" "node \<notin> set (0 # A @ B)"
    and ok: "\<forall>n\<in>set (node # 0 # A @ B). n < length (sl_nodes st) \<and> l < tower_height st n"
    and ps: "fst ps ! l = last (0 # A)" "snd ps ! l = head_opt B"
  obtains st' where "link_level 2 k node l ps st = (ps, st')" "same_but_links st st'" "chain st' l 0 (A @ node # B)"
    "\<And>m l'. l' \<noteq> l \<Longrightarrow> next_at st' m l' = next_at st m l'"
proof -
  define st1 where "st1 = set_next node l (head_opt B) st"
  define st2 where "st2 = set_next (last (0 # A)) l (Some node) st1"
  have last: "last (0 # A) \<in> set (0 # A @ B)" using last_in_set [of "0 # A"] by (simp only: set_append list.set) auto
  then have pred: "last (0 # A) \<noteq> node" "last (0 # A) < length (sl_nodes st)" "l < tower_height st (last (0 # A))"
    using chain(3) ok by auto
  have node: "node < length (sl_nodes st)" "l < tower_height st node" using ok by simp_all
  have s1: "same_but_links st st1" unfolding st1_def by (rule same_but_links_set_next)
  have n1: "next_at st1 m l' = (if m = node \<and> l' = l then head_opt B else next_at st m l')" for m l'
    unfolding st1_def by (rule next_at_set_next [OF node])
  have n2: "next_at st2 m l' = (if m = last (0 # A) \<and> l' = l then Some node else next_at st1 m l')" for m l'
    unfolding st2_def by (rule next_at_set_next) (use pred s1 in \<open>simp_all add: same_but_links_def\<close>)
  have "next_at st (last (0 # A)) l = head_opt B" by (rule chain_next [OF chain_append [OF chain(1)]])
  then have "link_level 2 k node l ps st = (ps, st2)"
    using ps pred(1) n1 by (simp add: numeral_2_eq_2 Let_def st1_def [symmetric] st2_def [symmetric] del: last.simps)
  moreover have "same_but_links st st2"
    using same_but_links_trans [OF s1 same_but_links_set_next] by (simp add: st2_def)
  moreover have "chain st2 l 0 (A @ node # B)"
    by (rule chain_insert [OF chain(1,2)]) (use n1 n2 pred(1) chain(3) in auto)
  ultimately show thesis using that [of st2] n1 n2 by simp
qed

lemma link_levels_law:
  assumes base: "\<forall>l<MAX_HEIGHT. chain st l 0 (A l @ B l)"
    and nodes: "\<forall>l<h. distinct (0 # A l @ B l) \<and> node \<notin> set (0 # A l @ B l) \<and>
      (\<forall>n\<in>set (node # 0 # A l @ B l). n < length (sl_nodes st) \<and> l < tower_height st n)"
    and ps: "\<forall>l<h. fst ps ! l = last (0 # A l) \<and> snd ps ! l = head_opt (B l)" and h: "h \<le> MAX_HEIGHT"
  shows "j \<le> h \<Longrightarrow> \<exists>st'. link_levels k node [0..<j] ps st = (ps, st') \<and> same_but_links st st' \<and>
    (\<forall>l<j. chain st' l 0 (A l @ node # B l)) \<and> (\<forall>l m. j \<le> l \<longrightarrow> next_at st' m l = next_at st m l)"
proof (induction j)
  case 0
  then show ?case by (simp add: link_levels_def same_but_links_refl)
next
  case (Suc j)
  then obtain st1 where st1: "link_levels k node [0..<j] ps st = (ps, st1)" "same_but_links st st1"
    "\<forall>l<j. chain st1 l 0 (A l @ node # B l)" "\<forall>l m. j \<le> l \<longrightarrow> next_at st1 m l = next_at st m l" by auto
  have j: "j < h" "j < MAX_HEIGHT" using Suc.prems h by simp_all
  have c: "chain st1 j 0 (A j @ B j)"
    using base j(2) st1(4) chain_cong [of 0 "A j @ B j" st1 j st] by simp
  have ok: "\<forall>n\<in>set (node # 0 # A j @ B j). n < length (sl_nodes st1) \<and> j < tower_height st1 n"
    using nodes j(1) st1(2) by (simp add: same_but_links_def)
  have d: "distinct (0 # A j @ B j)" "node \<notin> set (0 # A j @ B j)" using nodes j(1) by blast+
  have p: "fst ps ! j = last (0 # A j)" "snd ps ! j = head_opt (B j)" using ps j(1) by blast+
  obtain st2 where st2: "link_level 2 k node j ps st1 = (ps, st2)" "same_but_links st1 st2" "chain st2 j 0 (A j @ node # B j)"
    "\<And>m l'. l' \<noteq> j \<Longrightarrow> next_at st2 m l' = next_at st1 m l'"
    by (rule link_level_law [OF c d ok p, where k = k]) (rule that)
  have "link_levels k node [0..<Suc j] ps st = (ps, st2)" using st1(1) st2(1) by (simp add: link_levels_def)
  moreover have "chain st2 l 0 (A l @ node # B l)" if "l < Suc j" for l
  proof (cases "l = j")
    case False
    have "chain st2 l 0 (A l @ node # B l) = chain st1 l 0 (A l @ node # B l)" by (rule chain_cong) (rule st2(4) [OF False])
    then show ?thesis using st1(3) that False by simp
  qed (use st2(3) in simp)
  moreover have "next_at st2 m l = next_at st m l" if "Suc j \<le> l" for l m using st2(4) [of l m] st1(4) that by simp
  ultimately show ?case using same_but_links_trans [OF st1(2) st2(2)] by blast
qed

lemma random_height_bounds:
  assumes "random_height st = (h, st')"
  shows "1 \<le> h" "h \<le> MAX_HEIGHT" "st' = st\<lparr>rng_state := rng_state st + 1\<rparr>"
  using assms by (auto simp: random_height_def MAX_HEIGHT_def Let_def)

text \<open>The comparison of a node with a key, in terms of the order on internal keys.\<close>

definition lexicographic_ok :: "skip_map \<Rightarrow> bool" where
  "lexicographic_ok st \<longleftrightarrow> (is_lexicographic st \<longrightarrow> sl_comparator st = default_compare)"

lemma compare_key_with:
  "lexicographic_ok st \<Longrightarrow> compare_key st n k = compare_with (sl_comparator st) (n_key (sl_nodes st ! n)) k"
  "lexicographic_ok st \<Longrightarrow> compare_nodes st a b = compare_with (sl_comparator st) (n_key (sl_nodes st ! a)) (n_key (sl_nodes st ! b))"
  by (auto simp: lexicographic_ok_def compare_key_def compare_key_parts_def compare_nodes_def compare_with_def
      default_compare_def Let_def split: ordering.splits)

lemma leveled_cong:
  assumes "sl_nodes st' = sl_nodes st" "sl_height st' = sl_height st"
  shows "leveled st' ns = leveled st ns"
proof -
  have "chain st' l a xs = chain st l a xs" for l a xs by (rule chain_cong) (simp add: next_at_def assms)
  then show ?thesis by (simp add: leveled_def assms)
qed

subsection \<open>Insertion keeps the levels\<close>

text \<open>The state after \<open>alloc_node\<close> and the raise of the height.\<close>

definition with_new_node ::
  "internal_key \<Rightarrow> user_value \<Rightarrow> nat \<Rightarrow> (u32 \<times> checksum_algorithm) option \<Rightarrow> skip_map \<Rightarrow> skip_map" where
  "with_new_node k v h d st =
     (let st' = snd (alloc_node k v h d (snd (random_height st))) in st'\<lparr>sl_height := max (sl_height st') h\<rparr>)"

lemma with_new_node_fields:
  "sl_nodes (with_new_node k v h d st) = sl_nodes st @ [\<lparr>n_key = k, n_value = v,
     n_vt_byte = vt_byte_of (value_type k) d, n_slot = (case d of Some (d, _) \<Rightarrow> d | None \<Rightarrow> 0), n_tower = replicate h None\<rparr>]"
  "sl_height (with_new_node k v h d st) = max (sl_height st) h" "sl_len (with_new_node k v h d st) = sl_len st"
  "sl_comparator (with_new_node k v h d st) = sl_comparator st"
  "is_lexicographic (with_new_node k v h d st) = is_lexicographic st" "tail_hint (with_new_node k v h d st) = tail_hint st"
  by (simp_all add: with_new_node_def alloc_node_def random_height_def Let_def)

lemma with_new_node_old:
  assumes "n < length (sl_nodes st)"
  shows "sl_nodes (with_new_node k v h d st) ! n = sl_nodes st ! n"
    "next_at (with_new_node k v h d st) n l = next_at st n l"
    "compare_key (with_new_node k v h d st) n x = compare_key st n x"
  using assms by (simp_all add: with_new_node_fields nth_append next_at_def compare_key_def compare_key_parts_def Let_def)

lemma leveled_with_new_node:
  assumes lev: "leveled st ns" and h: "h \<le> MAX_HEIGHT"
  shows "leveled (with_new_node k v h d st) ns"
proof -
  let ?st = "with_new_node k v h d st"
  have old: "n < length (sl_nodes st)" if "n \<in> set (0 # ns)" for n using lev that by (auto simp: leveled_def)
  have tower: "tower_height ?st n = tower_height st n" if "n \<in> set (0 # ns)" for n
    using old [OF that] by (simp add: with_new_node_old)
  have same: "at_level ?st ns l = at_level st ns l" for l by (rule filter_cong) (simp_all add: tower)
  have "chain ?st l 0 (at_level ?st ns l)" if "l < MAX_HEIGHT" for l
  proof -
    have "chain ?st l 0 (at_level st ns l) = chain st l 0 (at_level st ns l)"
      by (rule chain_cong, rule with_new_node_old(2), rule old) auto
    with lev that show ?thesis by (simp add: same leveled_def)
  qed
  moreover have "1 \<le> tower_height ?st n \<and> tower_height ?st n \<le> sl_height ?st" if "n \<in> set ns" for n
    using lev that tower [of n] by (auto simp: leveled_def with_new_node_fields)
  moreover have "tower_height ?st 0 = MAX_HEIGHT" using lev tower [of 0] by (simp add: leveled_def)
  ultimately show ?thesis using lev h by (auto simp: leveled_def with_new_node_fields)
qed

lemma sl_insert_unfold:
  assumes "random_height st = (h, st1)"
    and "st3 = with_new_node k v h d st"
    and "link_levels k (length (sl_nodes st)) [0..<h]
      (if appended_at_tail h k st3 then ((replicate MAX_HEIGHT 0)[0 := the (tail_hint st3)], replicate MAX_HEIGHT None)
       else find_splice st3 k (replicate MAX_HEIGHT 0, replicate MAX_HEIGHT None)) st3 = (ps, st4)"
  shows "insert_with_kv_digest k v d st =
    (let st5 = (if snd ps ! 0 = None then st4\<lparr>tail_hint := Some (length (sl_nodes st))\<rparr> else st4) in st5\<lparr>sl_len := sl_len st5 + 1\<rparr>)"
proof -
  have st1: "snd (random_height st) = st1" "sl_nodes st1 = sl_nodes st" using assms(1) random_height_bounds(3) [OF assms(1)] by simp_all
  have a: "alloc_node k v h d st1 = (length (sl_nodes st), snd (alloc_node k v h d st1))" by (simp add: alloc_node_def st1)
  have st3: "st3 = (snd (alloc_node k v h d st1))\<lparr>sl_height := max (sl_height (snd (alloc_node k v h d st1))) h\<rparr>"
    by (simp add: assms(2) with_new_node_def Let_def st1)
  show ?thesis unfolding insert_with_kv_digest_def assms(1) Let_def prod.case
    by (subst a) (simp only: prod.case assms(3) flip: st3)
qed

text \<open>Both ways of finding where to link give the stops of the search and what follows them.\<close>

abbreviation before_at :: "skip_map \<Rightarrow> (nat \<Rightarrow> bool) \<Rightarrow> nat list \<Rightarrow> nat \<Rightarrow> nat list" where
  "before_at st q ns l \<equiv> filter q (at_level st ns l)"

abbreviation behind_at :: "skip_map \<Rightarrow> (nat \<Rightarrow> bool) \<Rightarrow> nat list \<Rightarrow> nat \<Rightarrow> nat list" where
  "behind_at st q ns l \<equiv> filter (\<lambda>n. \<not> q n) (at_level st ns l)"

lemma split_level:
  assumes "sorted_wrt (\<lambda>x y. q y \<longrightarrow> q x) ns"
  shows "at_level st ns l = before_at st q ns l @ behind_at st q ns l"
  using filter_split [OF prefix_level [OF assms, where st = st and level = l]] by (metis takeWhile_dropWhile_id)

lemma find_splice_law:
  assumes lev: "leveled st ns" and q: "q = (\<lambda>n. compare_key st n k = Less)" and p: "sorted_wrt (\<lambda>x y. q y \<longrightarrow> q x) ns"
    and l: "l < sl_height st" and ps: "ps = find_splice st k (replicate MAX_HEIGHT 0, replicate MAX_HEIGHT None)"
  shows "fst ps ! l = last (0 # before_at st q ns l) \<and> snd ps ! l = head_opt (behind_at st q ns l)"
proof -
  have h: "sl_height st \<le> MAX_HEIGHT" using lev by (simp add: leveled_def)
  have "fst ps ! l = stop_at st q ns l \<and> snd ps ! l = next_at st (stop_at st q ns l) l"
    using find_splice_loop_stop [OF lev p q h, of 0 "(replicate MAX_HEIGHT 0, replicate MAX_HEIGHT None)"] l
    by (auto simp: ps find_splice_def split: prod.splits)
  then show ?thesis using next_stop [OF lev _ p, of l] l h by (simp add: stop_at_def)
qed

lemma last_of_chain:
  assumes "chain st l a ns" "distinct ns" "x \<in> set ns" "next_at st x l = None"
  shows "x = last ns"
proof -
  obtain u v where ns: "ns = u @ x # v" using assms(3) by (auto dest: split_list)
  have "chain st l x v" using chain_append [of st l a "u @ [x]" v] assms(1) ns by simp
  then have "v = []" using assms(4) by (cases v) simp_all
  then show ?thesis by (simp add: ns)
qed

lemma tail_splice_law:
  assumes lev: "leveled st ns" and q: "q = (\<lambda>n. compare_key st n k = Less)" and p: "sorted_wrt (\<lambda>x y. q y \<longrightarrow> q x) ns"
    and hint: "\<And>x. tail_hint st = Some x \<Longrightarrow> x \<in> set ns" and tail: "appended_at_tail h k st" and l: "l < h"
    and ps: "ps = ((replicate MAX_HEIGHT 0)[0 := the (tail_hint st)], replicate MAX_HEIGHT None)"
  shows "fst ps ! l = last (0 # before_at st q ns l) \<and> snd ps ! l = head_opt (behind_at st q ns l)"
proof -
  obtain x where x: "tail_hint st = Some x" "h = 1" "next_at st x 0 = None" "q x"
    using tail by (auto simp: appended_at_tail_def q split: option.splits)
  have last: "x = last ns" "ns \<noteq> []"
    using last_of_chain [OF leveled_chain_0 [OF lev] _ hint [OF x(1)] x(3)] hint [OF x(1)] lev by (auto simp: leveled_def)
  obtain ys where ns: "ns = ys @ [x]" using last append_butlast_last_id [of ns] by metis
  have all: "\<forall>n\<in>set ns. q n" using p x(4) by (auto simp: ns sorted_wrt_append)
  then have "filter q ns = ns" "filter (\<lambda>n. \<not> q n) ns = []" by (simp_all add: filter_id_conv filter_empty_conv)
  moreover have "l = 0" using l x(2) by simp
  ultimately show ?thesis using leveled_0 [OF lev] x(1) last by (simp add: ps MAX_HEIGHT_def)
qed

text \<open>After linking, each level visits the nodes of the new order that reach it.\<close>

lemma leveled_linked:
  assumes lev: "leveled st ns" and same: "same_but_links st st'" and node: "node \<notin> set ns" "node < length (sl_nodes st)" "0 < node"
    and h: "tower_height st node = h" "1 \<le> h" "h \<le> sl_height st"
    and new: "\<And>l. l < h \<Longrightarrow> chain st' l 0 (before_at st q ns l @ node # behind_at st q ns l)"
    and old: "\<And>l m. h \<le> l \<Longrightarrow> next_at st' m l = next_at st m l"
    and p: "sorted_wrt (\<lambda>x y. q y \<longrightarrow> q x) ns"
  shows "leveled st' (filter q ns @ node # filter (\<lambda>n. \<not> q n) ns)"
proof -
  let ?ns = "filter q ns @ node # filter (\<lambda>n. \<not> q n) ns"
  have tower: "tower_height st' n = tower_height st n" for n using same by (simp add: same_but_links_def)
  have at: "at_level st' ?ns l = before_at st q ns l @ (if l < h then [node] else []) @ behind_at st q ns l" for l
    using h(1) by (simp add: tower conj_commute)
  have "chain st' l 0 (at_level st' ?ns l)" if l: "l < MAX_HEIGHT" for l
  proof (cases "l < h")
    case False
    have "chain st l 0 (before_at st q ns l @ behind_at st q ns l)"
      unfolding split_level [OF p, symmetric] using lev l by (simp add: leveled_def)
    then show ?thesis unfolding at using False chain_cong [of 0 _ st' l st] old [of l] by simp
  qed (use new at in simp)
  moreover have "set ?ns = insert node (set ns)" by auto
  ultimately show ?thesis
    using lev same node h tower by (auto simp: leveled_def same_but_links_def simp del: filter_filter)
qed

lemma linked_levels:
  assumes lev: "leveled st ns" and p: "sorted_wrt (\<lambda>x y. q y \<longrightarrow> q x) ns"
    and node: "node \<notin> set ns" "node < length (sl_nodes st)" "0 < node" and h: "h = tower_height st node"
    and ps: "\<And>l. l < h \<Longrightarrow> fst ps ! l = last (0 # before_at st q ns l) \<and> snd ps ! l = head_opt (behind_at st q ns l)"
    and le: "h \<le> MAX_HEIGHT"
  obtains st' where "link_levels k node [0..<h] ps st = (ps, st')" "same_but_links st st'"
    "\<forall>l<h. chain st' l 0 (before_at st q ns l @ node # behind_at st q ns l)" "\<forall>l m. h \<le> l \<longrightarrow> next_at st' m l = next_at st m l"
proof -
  let ?A = "before_at st q ns" and ?B = "behind_at st q ns"
  have base: "\<forall>l<MAX_HEIGHT. chain st l 0 (?A l @ ?B l)"
    unfolding split_level [OF p, symmetric] using lev by (simp add: leveled_def)
  have nodes: "distinct (0 # ?A l @ ?B l) \<and> node \<notin> set (0 # ?A l @ ?B l) \<and>
      (\<forall>n\<in>set (node # 0 # ?A l @ ?B l). n < length (sl_nodes st) \<and> l < tower_height st n)" if "l < h" for l
    using lev that node h le unfolding split_level [OF p, symmetric] by (auto simp: leveled_def)
  show thesis
    using link_levels_law [OF base allI [OF impI [OF nodes]] allI [OF impI [OF ps]] le order_refl, where k = k] that by blast
qed

lemma sl_insert_law:
  assumes lev: "leveled st ns" and hint: "\<And>x. tail_hint st = Some x \<Longrightarrow> x \<in> set ns"
    and q: "q = (\<lambda>n. compare_key st n k = Less)" and p: "sorted_wrt (\<lambda>x y. q y \<longrightarrow> q x) ns"
    and st': "st' = insert_with_kv_digest k v d st" and ns': "ns' = filter q ns @ length (sl_nodes st) # filter (\<lambda>n. \<not> q n) ns"
  shows "leveled st' ns'" "length (sl_nodes st') = Suc (length (sl_nodes st))"
    "n < length (sl_nodes st) \<Longrightarrow> n_key (sl_nodes st' ! n) = n_key (sl_nodes st ! n) \<and> n_value (sl_nodes st' ! n) = n_value (sl_nodes st ! n) \<and>
      n_vt_byte (sl_nodes st' ! n) = n_vt_byte (sl_nodes st ! n) \<and> n_slot (sl_nodes st' ! n) = n_slot (sl_nodes st ! n)"
    "n_key (sl_nodes st' ! length (sl_nodes st)) = k \<and> n_value (sl_nodes st' ! length (sl_nodes st)) = v \<and>
      n_vt_byte (sl_nodes st' ! length (sl_nodes st)) = vt_byte_of (value_type k) d \<and>
      n_slot (sl_nodes st' ! length (sl_nodes st)) = (case d of Some (d, _) \<Rightarrow> d | None \<Rightarrow> 0)"
    "sl_comparator st' = sl_comparator st" "is_lexicographic st' = is_lexicographic st" "sl_len st' = sl_len st + 1"
    "tail_hint st' = Some x \<Longrightarrow> x \<in> set ns'"
proof -
  obtain h st1 where r: "random_height st = (h, st1)" by (cases "random_height st")
  note h = random_height_bounds [OF r]
  define st3 where "st3 = with_new_node k v h d st"
  let ?node = "length (sl_nodes st)"
  note fields = with_new_node_fields [of k v h d st, folded st3_def]
  have lev3: "leveled st3 ns" unfolding st3_def by (rule leveled_with_new_node [OF lev h(2)])
  have old: "n < ?node" if "n \<in> set (0 # ns)" for n using lev that by (auto simp: leveled_def)
  define q3 where "q3 = (\<lambda>n. compare_key st3 n k = Less)"
  have q3: "q3 n = q n" if "n \<in> set ns" for n using with_new_node_old(3) [OF old, of n k v h d k] that by (simp add: q q3_def st3_def)
  have p3: "sorted_wrt (\<lambda>x y. q3 y \<longrightarrow> q3 x) ns" by (rule sorted_wrt_mono_rel [OF _ p]) (simp add: q3)
  define ps where "ps = (if appended_at_tail h k st3 then ((replicate MAX_HEIGHT 0)[0 := the (tail_hint st3)], replicate MAX_HEIGHT None)
    else find_splice st3 k (replicate MAX_HEIGHT 0, replicate MAX_HEIGHT None))"
  have ps: "fst ps ! l = last (0 # before_at st3 q3 ns l) \<and> snd ps ! l = head_opt (behind_at st3 q3 ns l)" if "l < h" for l
    using tail_splice_law [OF lev3 q3_def p3 _ _ that] find_splice_law [OF lev3 q3_def p3, of l] hint that
    unfolding ps_def fields by simp
  obtain st4 where st4: "link_levels k ?node [0..<h] ps st3 = (ps, st4)" "same_but_links st3 st4"
    "\<forall>l<h. chain st4 l 0 (before_at st3 q3 ns l @ ?node # behind_at st3 q3 ns l)" "\<forall>l m. h \<le> l \<longrightarrow> next_at st4 m l = next_at st3 m l"
  proof -
    have "?node \<notin> set ns" "?node < length (sl_nodes st3)" "0 < ?node" "h = tower_height st3 ?node"
      using lev by (auto simp: leveled_def fields)
    from linked_levels [OF lev3 p3 this ps h(2), where k = k] that show thesis by blast
  qed
  have order: "ns' = filter q3 ns @ ?node # filter (\<lambda>n. \<not> q3 n) ns" unfolding ns' using q3 by (simp cong: filter_cong)
  have "leveled st4 ns'" unfolding order
    by (rule leveled_linked [OF lev3 st4(2) _ _ _ _ h(1)]) (use lev fields h st4(3,4) p3 in \<open>auto simp: leveled_def\<close>)
  then have lev4: "leveled (if snd ps ! 0 = None then st4\<lparr>tail_hint := Some ?node\<rparr> else st4) ns'"
    using leveled_cong [of "st4\<lparr>tail_hint := Some ?node\<rparr>" st4] by simp
  have fin: "st' = (let st5 = (if snd ps ! 0 = None then st4\<lparr>tail_hint := Some ?node\<rparr> else st4) in st5\<lparr>sl_len := sl_len st5 + 1\<rparr>)"
    unfolding st' by (rule sl_insert_unfold [OF r st3_def]) (use st4(1) in \<open>simp add: ps_def\<close>)
  show "leveled st' ns'" using lev4 unfolding fin Let_def by (subst leveled_cong) simp_all
  show "length (sl_nodes st') = Suc (length (sl_nodes st))"
    "n < length (sl_nodes st) \<Longrightarrow> n_key (sl_nodes st' ! n) = n_key (sl_nodes st ! n) \<and> n_value (sl_nodes st' ! n) = n_value (sl_nodes st ! n) \<and>
      n_vt_byte (sl_nodes st' ! n) = n_vt_byte (sl_nodes st ! n) \<and> n_slot (sl_nodes st' ! n) = n_slot (sl_nodes st ! n)"
    "n_key (sl_nodes st' ! length (sl_nodes st)) = k \<and> n_value (sl_nodes st' ! length (sl_nodes st)) = v \<and>
      n_vt_byte (sl_nodes st' ! length (sl_nodes st)) = vt_byte_of (value_type k) d \<and>
      n_slot (sl_nodes st' ! length (sl_nodes st)) = (case d of Some (d, _) \<Rightarrow> d | None \<Rightarrow> 0)"
    "sl_comparator st' = sl_comparator st" "is_lexicographic st' = is_lexicographic st" "sl_len st' = sl_len st + 1"
    using st4(2) fields unfolding fin same_but_links_def Let_def by (simp_all add: nth_append)
  show "tail_hint st' = Some x \<Longrightarrow> x \<in> set ns'"
    using st4(2) fields(6) hint unfolding fin same_but_links_def Let_def ns' by (auto split: if_splits)
qed

end
