(* ===== verification/Skiplist_Map.thy ===== *)
theory Skiplist_Map
  imports Skiplist "HOL-Library.Multiset"
begin

text \<open>
  The skip list of \<open>memtable/skiplist.rs\<close> as an ordered map: its entries are those of level 0, an insert
  puts an entry in front of the first one that is not smaller, a point lookup finds the newest visible
  version of a key, and the iterators are deques over the entries in their bounds.
\<close>

subsection \<open>Contents\<close>

fun visit :: "skip_map \<Rightarrow> nat \<Rightarrow> nat \<Rightarrow> nat list" where
  "visit st 0 a = []"
| "visit st (Suc fuel) a = (case next_at st a 0 of None \<Rightarrow> [] | Some n \<Rightarrow> n # visit st fuel n)"

definition level0 :: "skip_map \<Rightarrow> nat list" where
  "level0 st = visit st (length (sl_nodes st)) 0"

definition sl_entries :: "skip_map \<Rightarrow> internal_value list" where
  "sl_entries st = map (node_entry st) (level0 st)"

definition sl_ok :: "skip_map \<Rightarrow> bool" where
  "sl_ok st \<longleftrightarrow> lexicographic_ok st \<and> leveled st (level0 st) \<and> sl_len st = length (level0 st) \<and>
     sorted_wrt (\<lambda>a b. compare_nodes st a b \<noteq> Greater) (level0 st) \<and>
     (case tail_hint st of None \<Rightarrow> True | Some x \<Rightarrow> x \<in> set (level0 st))"

text \<open>Ordered insertion: in front of the first entry that is not smaller.\<close>

definition put_entry :: "comparator \<Rightarrow> internal_value \<Rightarrow> internal_value list \<Rightarrow> internal_value list" where
  "put_entry c e es = filter (\<lambda>x. entry_before c x e) es @ e # filter (\<lambda>x. \<not> entry_before c x e) es"

lemma visit_chain: "chain st 0 a ns \<Longrightarrow> length ns \<le> fuel \<Longrightarrow> visit st fuel a = ns"
proof (induction ns arbitrary: a fuel)
  case Nil
  then show ?case by (cases fuel) simp_all
next
  case (Cons n ns)
  then show ?case by (cases fuel) simp_all
qed

lemma level0_leveled: "leveled st ns \<Longrightarrow> level0 st = ns"
  unfolding level0_def by (rule visit_chain [OF leveled_chain_0]) (auto dest: leveled_length)

lemma sl_new_ok:
  assumes "bytewise \<longrightarrow> c = default_compare"
  shows "sl_ok (sl_new c bytewise seed)" "sl_entries (sl_new c bytewise seed) = []" "sl_comparator (sl_new c bytewise seed) = c"
proof -
  have "leveled (sl_new c bytewise seed) []" by (simp add: leveled_def sl_new_def next_at_def MAX_HEIGHT_def)
  moreover from this have "level0 (sl_new c bytewise seed) = []" by (rule level0_leveled)
  ultimately show "sl_ok (sl_new c bytewise seed)" "sl_entries (sl_new c bytewise seed) = []"
    using assms by (simp_all add: sl_ok_def sl_entries_def lexicographic_ok_def, simp_all add: sl_new_def)
qed (simp add: sl_new_def)

lemma key_node_entry [simp]: "key (node_entry st n) = n_key (sl_nodes st ! n)"
  by (simp add: node_entry_def)

lemma sorted_entries:
  "lexicographic_ok st \<Longrightarrow> sorted_wrt (\<lambda>a b. compare_nodes st a b \<noteq> Greater) (level0 st) \<longleftrightarrow>
     sorted_wrt (\<lambda>a b. compare_with (sl_comparator st) (key a) (key b) \<noteq> Greater) (sl_entries st)"
  by (simp add: sl_entries_def sorted_wrt_map compare_key_with(2))

context user_comparator begin

lemma compare_with_le_trans:
  "compare_with cmp a b \<noteq> Greater \<Longrightarrow> compare_with cmp b d = Less \<Longrightarrow> compare_with cmp a d = Less"
  "compare_with cmp a b \<noteq> Greater \<Longrightarrow> compare_with cmp b d \<noteq> Greater \<Longrightarrow> compare_with cmp a d \<noteq> Greater"
  using compare_with_trans [of a b d]
  by (cases "compare_with cmp a b"; cases "compare_with cmp b d"; auto simp: compare_with_def key_order split: if_splits)+

lemma put_entry_sorted:
  assumes "sorted_wrt (\<lambda>a b. compare_with cmp (key a) (key b) \<noteq> Greater) es"
  shows "sorted_wrt (\<lambda>a b. compare_with cmp (key a) (key b) \<noteq> Greater) (put_entry cmp e es)"
proof -
  have behind: "compare_with cmp (key e) (key b) \<noteq> Greater" if "\<not> entry_before cmp b e" for b
    using that compare_with_antisym [of "key b" "key e"] by (simp add: entry_before_def)
  have before: "compare_with cmp (key a) (key e) \<noteq> Greater" if "entry_before cmp a e" for a
    using that by (simp add: entry_before_def)
  show ?thesis
    unfolding put_entry_def sorted_wrt_append sorted_wrt.simps
    using assms before behind compare_with_le_trans(2) [OF before behind] by (simp add: sorted_wrt_filter)
qed

lemma prefix_test:
  assumes "lexicographic_ok st" "sl_comparator st = cmp" "sorted_wrt (\<lambda>a b. compare_nodes st a b \<noteq> Greater) ns"
  shows "sorted_wrt (\<lambda>x y. compare_key st y k = Less \<longrightarrow> compare_key st x k = Less) ns"
    "sorted_wrt (\<lambda>x y. compare_key st y k \<noteq> Greater \<longrightarrow> compare_key st x k \<noteq> Greater) ns"
proof -
  note keys = sorted_wrt_mono_rel [OF _ assms(3) [unfolded compare_key_with [OF assms(1)] assms(2)]]
  show "sorted_wrt (\<lambda>x y. compare_key st y k = Less \<longrightarrow> compare_key st x k = Less) ns"
    unfolding compare_key_with [OF assms(1)] assms(2) by (intro keys impI) (rule compare_with_le_trans(1))
  show "sorted_wrt (\<lambda>x y. compare_key st y k \<noteq> Greater \<longrightarrow> compare_key st x k \<noteq> Greater) ns"
    unfolding compare_key_with [OF assms(1)] assms(2) by (intro keys impI) (rule compare_with_le_trans(2))
qed

lemma insert_ok:
  assumes ok: "sl_ok st" and c: "sl_comparator st = cmp"
  shows "sl_ok (insert_with_kv_digest k v d st)" "sl_entries (insert_with_kv_digest k v d st) = put_entry cmp \<lparr>key = k, val = v\<rparr> (sl_entries st)"
    "sl_comparator (insert_with_kv_digest k v d st) = cmp"
proof -
  define ns where "ns = level0 st"
  define q where "q = (\<lambda>n. compare_key st n k = Less)"
  define ns' where "ns' = filter q ns @ length (sl_nodes st) # filter (\<lambda>n. \<not> q n) ns"
  let ?e = "\<lparr>key = k, val = v\<rparr>"
  have st: "lexicographic_ok st" "leveled st ns" "sl_len st = length ns" "sorted_wrt (\<lambda>a b. compare_nodes st a b \<noteq> Greater) ns"
    "\<And>x. tail_hint st = Some x \<Longrightarrow> x \<in> set ns" using ok by (auto simp: sl_ok_def ns_def)
  have p: "sorted_wrt (\<lambda>x y. q y \<longrightarrow> q x) ns" unfolding q_def by (rule prefix_test(1) [OF st(1) c st(4)])
  note law = sl_insert_law [OF st(2,5) q_def p refl ns'_def, where v = v and d = d]
  have level: "level0 (insert_with_kv_digest k v d st) = ns'" by (rule level0_leveled [OF law(1)])
  have old: "node_entry (insert_with_kv_digest k v d st) n = node_entry st n" if "n \<in> set ns" for n
    using st(2) that law(3) [of n] by (auto simp: leveled_def node_entry_def)
  have q: "q = (\<lambda>x. entry_before cmp x ?e) \<circ> node_entry st"
    by (auto simp: q_def compare_key_with(1) [OF st(1)] c entry_before_def)
  have "map (node_entry (insert_with_kv_digest k v d st)) ns' =
      map (node_entry st) (filter q ns) @ ?e # map (node_entry st) (filter (\<lambda>n. \<not> q n) ns)"
    using old law(4) by (simp add: ns'_def node_entry_def [of _ "length (sl_nodes st)"])
  also have "\<dots> = put_entry cmp ?e (sl_entries st)"
    unfolding put_entry_def sl_entries_def ns_def [symmetric] q filter_map by (simp add: comp_def)
  finally show entries: "sl_entries (insert_with_kv_digest k v d st) = put_entry cmp ?e (sl_entries st)"
    by (simp add: sl_entries_def level)
  show c': "sl_comparator (insert_with_kv_digest k v d st) = cmp" using law(5) c by simp
  have lex: "lexicographic_ok (insert_with_kv_digest k v d st)" using st(1) law(5,6) by (simp add: lexicographic_ok_def)
  have "sorted_wrt (\<lambda>a b. compare_nodes (insert_with_kv_digest k v d st) a b \<noteq> Greater) ns'"
    using put_entry_sorted st(4) sorted_entries [OF st(1)] sorted_entries [OF lex] by (simp add: entries level c c' ns_def)
  moreover have "length ns' = Suc (length ns)" by (simp add: ns'_def sum_length_filter_compl)
  ultimately show "sl_ok (insert_with_kv_digest k v d st)"
    using law(1,7,8) lex st(3) by (simp add: sl_ok_def level split: option.splits)
qed

end

subsection \<open>Searches\<close>

abbreviation last_opt :: "'a list \<Rightarrow> 'a option" where
  "last_opt xs \<equiv> (if xs = [] then None else Some (last xs))"

lemma seek_next:
  assumes "leveled st ns" "sorted_wrt (\<lambda>x y. p y \<longrightarrow> p x) ns"
  shows "next_at st (descend st p (sl_height st) 0) 0 = head_opt (filter (\<lambda>n. \<not> p n) ns)"
  using next_stop [OF assms(1) _ assms(2), of 0]
  unfolding descend_from_head [OF assms] stop_at_0 [OF assms(1)] leveled_0 [OF assms(1)] by (simp add: MAX_HEIGHT_def)

lemma seek_last:
  assumes "leveled st ns" "sorted_wrt (\<lambda>x y. p y \<longrightarrow> p x) ns"
  shows "unless_head (descend st p (sl_height st) 0) = last_opt (filter p ns)"
proof -
  have "last (filter p ns) \<noteq> 0" if "filter p ns \<noteq> []"
    using last_in_set [OF that] assms(1) by (auto simp: leveled_def)
  then show ?thesis by (cases "filter p ns = []") (simp_all add: descend_from_head [OF assms] unless_head_def)
qed

context user_comparator begin

lemma point_get_find:
  assumes ok: "sl_ok st" and c: "sl_comparator st = cmp"
  shows "point_get st k s = (case head_opt (filter (\<lambda>e. compare_with cmp (key e) \<lparr>user_key = k, seqno = s, value_type = Value\<rparr> \<noteq> Less) (sl_entries st)) of
    None \<Rightarrow> None | Some e \<Rightarrow> if ukey e = k then Some e else None)"
proof -
  let ?k = "\<lparr>user_key = k, seqno = s, value_type = Value\<rparr>"
  have st: "lexicographic_ok st" "leveled st (level0 st)" "sorted_wrt (\<lambda>a b. compare_nodes st a b \<noteq> Greater) (level0 st)"
    using ok by (auto simp: sl_ok_def)
  have "seek_ge_parts st k s = head_opt (filter (\<lambda>n. compare_key st n ?k \<noteq> Less) (level0 st))"
    using seek_next [OF st(2) prefix_test(1) [OF st(1) c st(3), of ?k]] by (simp add: seek_ge_parts_def compare_key_def)
  moreover have "filter (\<lambda>e. compare_with cmp (key e) ?k \<noteq> Less) (sl_entries st) =
      map (node_entry st) (filter (\<lambda>n. compare_key st n ?k \<noteq> Less) (level0 st))"
    by (simp add: sl_entries_def filter_map comp_def compare_key_with(1) [OF st(1)] c)
  ultimately show ?thesis
    by (cases "filter (\<lambda>n. compare_key st n ?k \<noteq> Less) (level0 st)") (simp_all add: point_get_def same_user_key_def)
qed

text \<open>A point lookup returns the newest visible version of the key.\<close>

lemma point_get_newest:
  assumes ok: "sl_ok st" and c: "sl_comparator st = cmp"
  shows "case point_get st k s of
      None \<Rightarrow> (\<forall>e\<in>set (sl_entries st). ukey e = k \<longrightarrow> s < eseqno e)
    | Some e \<Rightarrow> e \<in> set (sl_entries st) \<and> ukey e = k \<and> eseqno e \<le> s \<and>
        (\<forall>x\<in>set (sl_entries st). ukey x = k \<and> eseqno x \<le> s \<longrightarrow> eseqno x \<le> eseqno e)"
proof -
  let ?k = "\<lparr>user_key = k, seqno = s, value_type = Value\<rparr>"
  let ?F = "filter (\<lambda>e. compare_with cmp (key e) ?k \<noteq> Less) (sl_entries st)"
  have sorted: "sorted_wrt (\<lambda>a b. compare_with cmp (key a) (key b) \<noteq> Greater) ?F"
    using ok sorted_entries [of st] by (auto simp: sl_ok_def c intro: sorted_wrt_filter)
  have vis: "compare_with cmp (key e) ?k \<noteq> Less" if "ukey e = k" "eseqno e \<le> s" for e
    using that by (simp add: compare_with_def key_order not_less)
  show ?thesis
  proof (cases ?F)
    case Nil
    then have "compare_with cmp (key e) ?k = Less" if "e \<in> set (sl_entries st)" for e using that by (auto simp: filter_empty_conv)
    then show ?thesis using Nil vis by (force simp: point_get_find [OF assms] not_le [symmetric])
  next
    case (Cons e es)
    have e: "e \<in> set (sl_entries st)" "compare_with cmp (key e) ?k \<noteq> Less" using Cons by (auto simp: filter_eq_Cons_iff)
    have first: "x = e \<or> compare_with cmp (key e) (key x) \<noteq> Greater" if "x \<in> set (sl_entries st)" "ukey x = k" "eseqno x \<le> s" for x
    proof -
      have "x \<in> set ?F" using that vis by simp
      then show ?thesis using sorted unfolding Cons by auto
    qed
    show ?thesis
    proof (cases "ukey e = k")
      case True
      have "eseqno e \<le> s" using e(2) True by (simp add: compare_with_def key_order not_less)
      moreover have "eseqno x \<le> eseqno e" if "x \<in> set (sl_entries st)" "ukey x = k" "eseqno x \<le> s" for x
        using first [OF that] that(2) True by (auto simp: compare_with_def key_order not_less)
      ultimately show ?thesis using Cons True e(1) by (simp add: point_get_find [OF assms])
    next
      case False
      have "klt cmp k (ukey e)" using e(2) False by (auto simp: compare_with_def key_order)
      then have "compare_with cmp (key e) (key x) = Greater" if "ukey x = k" for x
        using that by (auto simp: compare_with_def key_order)
      then have "s < eseqno x" if "x \<in> set (sl_entries st)" "ukey x = k" for x
        using first [OF that(1,2)] that False by (auto simp: not_le [symmetric])
      then show ?thesis using Cons False by (simp add: point_get_find [OF assms])
    qed
  qed
qed

end

subsection \<open>Sequences of inserts\<close>

type_synonym sl_put = "internal_key \<times> user_value \<times> (u32 \<times> checksum_algorithm) option"

fun put_value :: "sl_put \<Rightarrow> internal_value" where
  "put_value (k, v, d) = \<lparr>key = k, val = v\<rparr>"

fun sl_inserts :: "sl_put list \<Rightarrow> skip_map \<Rightarrow> skip_map" where
  "sl_inserts [] st = st"
| "sl_inserts ((k, v, d) # puts) st = sl_inserts puts (insert_with_kv_digest k v d st)"

lemma put_entry_mset: "mset (put_entry c e es) = add_mset e (mset es)"
  by (simp add: put_entry_def)

lemma put_entries_mset: "mset (foldl (\<lambda>es e. put_entry c e es) es xs) = mset es + mset xs"
  by (induction xs arbitrary: es) (simp_all add: put_entry_mset)

context user_comparator begin

lemma inserts_ok:
  "sl_ok st \<Longrightarrow> sl_comparator st = cmp \<Longrightarrow>
     sl_ok (sl_inserts puts st) \<and> sl_comparator (sl_inserts puts st) = cmp \<and>
     sl_entries (sl_inserts puts st) = foldl (\<lambda>es e. put_entry cmp e es) (sl_entries st) (map put_value puts)"
proof (induction puts st rule: sl_inserts.induct)
  case (2 k v d puts st)
  note step = insert_ok [OF 2(2,3), of k v d]
  from 2(1) [OF step(1,3)] step(2) show ?case by simp
qed simp

end



end
