(* ===== verification/Skiplist_Iter.thy ===== *)
theory Skiplist_Iter
  imports Skiplist_Map
begin

text \<open>
  The iterators of \<open>memtable/skiplist.rs\<close>. Over a skip list whose entries have distinct keys, \<open>Iter\<close> and
  \<open>Range\<close> keep the contract of a double-ended iterator over the entries in their bounds.
\<close>

subsection \<open>The remaining nodes\<close>

definition sl_distinct :: "skip_map \<Rightarrow> bool" where
  "sl_distinct st \<longleftrightarrow> sl_ok st \<and> sorted_wrt (\<lambda>a b. compare_nodes st a b = Less) (level0 st)"

text \<open>
  What an iterator has left: nothing when it is done; the nodes from its front to its back once the back
  is placed; before that, the nodes from its front that are within the end bound.
\<close>

definition range_rest :: "sl_range \<Rightarrow> nat list" where
  "range_rest it =
     (if r_done it then []
      else case r_front it of
             None \<Rightarrow> []
           | Some f \<Rightarrow>
               (let zs = dropWhile (\<lambda>n. n \<noteq> f) (level0 (r_map it)) in
                if back_init it then takeWhile (\<lambda>n. Some n \<noteq> r_back it) zs @ [the (r_back it)]
                else takeWhile (within_end it) zs))"

definition range_inv :: "sl_range \<Rightarrow> nat list \<Rightarrow> bool" where
  "range_inv it R \<longleftrightarrow> sl_distinct (r_map it) \<and> user_comparator (sl_comparator (r_map it)) \<and>
     (if r_done it then R = []
      else if back_init it
      then R \<noteq> [] \<and> (\<exists>xs ys. level0 (r_map it) = xs @ R @ ys) \<and> r_front it = Some (hd R) \<and> r_back it = Some (last R) \<and>
        within_end it (last R)
      else \<exists>xs zs. level0 (r_map it) = xs @ zs \<and> r_front it = head_opt zs \<and> R = takeWhile (within_end it) zs)"

lemma head_opt_eq [simp]: "head_opt xs = None \<longleftrightarrow> xs = []" "None = head_opt xs \<longleftrightarrow> xs = []" "head_opt xs = Some x \<longleftrightarrow> (\<exists>ys. xs = x # ys)"
  "Some x = head_opt xs \<longleftrightarrow> (\<exists>ys. xs = x # ys)"
  by (cases xs; auto)+

lemma dropWhile_neq: "f \<notin> set xs \<Longrightarrow> dropWhile (\<lambda>n. n \<noteq> f) (xs @ f # ys) = f # ys"
  by (induction xs) auto

lemma takeWhile_neq: "b \<notin> set xs \<Longrightarrow> takeWhile (\<lambda>n. n \<noteq> b) (xs @ b # ys) = xs"
  by (induction xs) auto

lemma range_inv_rest:
  assumes "range_inv it R"
  shows "range_rest it = R"
proof -
  have "distinct (level0 (r_map it))" using assms by (auto simp: range_inv_def sl_distinct_def sl_ok_def leveled_def)
  note d = this
  show ?thesis
  proof (cases "r_done it")
    case False
    note live = this
    show ?thesis
    proof (cases "back_init it")
      case True
      then obtain xs ys where R: "R \<noteq> []" "level0 (r_map it) = xs @ R @ ys" "r_front it = Some (hd R)" "r_back it = Some (last R)"
        using assms live by (auto simp: range_inv_def)
      have "dropWhile (\<lambda>n. n \<noteq> hd R) (xs @ R @ ys) = R @ ys"
        using d R(1,2) dropWhile_neq [of "hd R" xs "tl R @ ys"] by (cases R) auto
      moreover have "takeWhile (\<lambda>n. n \<noteq> last R) (R @ ys) = butlast R"
        using d R(1,2) takeWhile_neq [of "last R" "butlast R" ys] by (cases R rule: rev_cases) auto
      ultimately show ?thesis using R live True by (simp add: range_rest_def)
    next
      case False
      then obtain xs zs where zs: "level0 (r_map it) = xs @ zs" "r_front it = head_opt zs" "R = takeWhile (within_end it) zs"
        using assms live by (auto simp: range_inv_def)
      then show ?thesis using d False live dropWhile_neq [of _ xs] by (cases zs) (auto simp: range_rest_def)
    qed
  qed (use assms in \<open>simp add: range_inv_def range_rest_def\<close>)
qed

subsection \<open>Order of the nodes\<close>

context user_comparator begin

lemma compare_nodes_order:
  assumes "sl_distinct st" "sl_comparator st = cmp" "level0 st = xs @ zs" "a \<in> set xs" "b \<in> set zs"
  shows "compare_nodes st a b = Less" "compare_nodes st b a \<noteq> Less" "a \<noteq> b"
proof -
  show less: "compare_nodes st a b = Less" using assms(1,3-5) by (auto simp: sl_distinct_def sorted_wrt_append)
  have lex: "lexicographic_ok st" using assms(1) by (simp add: sl_distinct_def sl_ok_def)
  show "compare_nodes st b a \<noteq> Less"
    using less compare_with_antisym by (auto simp: compare_key_with(2) [OF lex] assms(2))
  then show "a \<noteq> b" using less by auto
qed

lemma compare_nodes_self: "sl_distinct st \<Longrightarrow> sl_comparator st = cmp \<Longrightarrow> compare_nodes st a a \<noteq> Less"
  using compare_with_Equal [of "n_key (sl_nodes st ! a)" "n_key (sl_nodes st ! a)"]
  by (simp add: sl_distinct_def sl_ok_def compare_key_with(2) internal_key_eq_def)

lemma within_prefix:
  assumes "sl_distinct (r_map it)" "sl_comparator (r_map it) = cmp"
  shows "sorted_wrt (\<lambda>x y. within_end it y \<longrightarrow> within_end it x) (level0 (r_map it))"
proof -
  have "lexicographic_ok (r_map it)" "sorted_wrt (\<lambda>a b. compare_nodes (r_map it) a b \<noteq> Greater) (level0 (r_map it))"
    using assms(1) by (auto simp: sl_distinct_def sl_ok_def)
  note prefix_test [OF this(1) assms(2) this(2)]
  moreover have "sorted_wrt (\<lambda>x y. True) (level0 (r_map it))" by (induction "level0 (r_map it)") (simp_all add: sorted_wrt_true)
  ultimately show ?thesis by (cases "end_bound it") (simp_all add: within_end_def)
qed

lemma find_predecessor_at:
  assumes st: "sl_distinct st" "sl_comparator st = cmp" and ns: "level0 st = xs @ b # ys"
  shows "find_predecessor st b = last_opt xs"
proof -
  let ?p = "\<lambda>n. n \<noteq> b \<and> compare_nodes st n b = Less"
  have lev: "leveled st (xs @ b # ys)" using st(1) ns by (simp add: sl_distinct_def sl_ok_def)
  have before: "?p n" if "n \<in> set xs" for n using compare_nodes_order [OF st ns that, of b] by simp
  have behind: "\<not> ?p n" if "n \<in> set (b # ys)" for n
  proof (cases "n = b")
    case False
    then have "n \<in> set ys" using that by simp
    then show ?thesis using compare_nodes_order(2) [OF st, of "xs @ [b]" ys b n] ns by simp
  qed simp
  have split: "filter ?p (xs @ b # ys) = xs" using before behind by (simp add: filter_id_conv filter_empty_conv)
  have prefix: "sorted_wrt (\<lambda>x y. ?p y \<longrightarrow> ?p x) (xs @ b # ys)"
    unfolding sorted_wrt_append using before behind by (auto simp: sorted_wrt_true intro!: sorted_wrt_mono_rel [OF _ sorted_wrt_true])
  have "walk_level st ?p 0 (descend st ?p (sl_height st) 0) = stop_at st ?p (xs @ b # ys) 0"
  proof (rule walk_level_stop [OF lev _ prefix])
    show "descend st ?p (sl_height st) 0 = 0 \<or> descend st ?p (sl_height st) 0 \<in> set (at_level st (xs @ b # ys) 0) \<and> ?p (descend st ?p (sl_height st) 0)"
      unfolding descend_from_head [OF lev prefix] leveled_0 [OF lev] split using before by (cases xs rule: rev_cases) auto
  qed (simp add: MAX_HEIGHT_def)
  also have "\<dots> = descend st ?p (sl_height st) 0" unfolding stop_at_0 [OF lev] descend_from_head [OF lev prefix] ..
  finally show ?thesis using seek_last [OF lev prefix] unfolding split by (simp add: find_predecessor_def)
qed

end

subsection \<open>The steps\<close>

lemma next_in_order:
  assumes "sl_distinct st" "level0 st = xs @ f # zs"
  shows "next_at st f 0 = head_opt zs"
proof -
  have "chain st 0 0 ((xs @ [f]) @ zs)" using assms leveled_chain_0 [of st] by (simp add: sl_distinct_def sl_ok_def)
  from chain_next [OF chain_append [OF this]] show ?thesis by simp
qed

lemma within_end_cong: "r_map it' = r_map it \<Longrightarrow> end_bound it' = end_bound it \<Longrightarrow> within_end it' = within_end it"
  by (cases "end_bound it") (simp_all add: within_end_def fun_eq_iff)

lemma advance_front_fields [simp]:
  "r_map (advance_front f it) = r_map it" "end_bound (advance_front f it) = end_bound it"
  "r_back (advance_front f it) = r_back it" "back_init (advance_front f it) = back_init it"
  by (simp_all add: advance_front_def Let_def)

lemma advance_front_inv:
  assumes inv: "range_inv it (f # R)" and live: "\<not> r_done it"
  shows "range_inv (advance_front f it) R"
proof -
  have st: "sl_distinct (r_map it)" "user_comparator (sl_comparator (r_map it))" using inv by (auto simp: range_inv_def)
  then have d: "distinct (level0 (r_map it))" by (auto simp: sl_distinct_def sl_ok_def leveled_def)
  have within: "within_end (advance_front f it) = within_end it" by (rule within_end_cong) simp_all
  show ?thesis
  proof (cases "back_init it")
    case True
    then obtain xs ys where R: "level0 (r_map it) = xs @ f # R @ ys" "r_back it = Some (last (f # R))" "within_end it (last (f # R))"
      using inv live by (auto simp: range_inv_def)
    show ?thesis
    proof (cases R)
      case Nil
      then show ?thesis using True R(2) st by (simp add: range_inv_def advance_front_def)
    next
      case (Cons g R')
      have "f \<noteq> last R" using d R(1) Cons by auto
      moreover have "next_at (r_map it) f 0 = Some g" using next_in_order [OF st(1) R(1)] Cons by simp
      ultimately have adv: "advance_front f it = it\<lparr>r_front := Some g\<rparr>" using True R(2) Cons by (simp add: advance_front_def)
      have "\<exists>us vs. level0 (r_map it) = us @ R @ vs" using R(1) by (intro exI [of _ "xs @ [f]"] exI [of _ ys]) simp
      then show ?thesis using adv within R(2,3) True live st Cons by (simp add: range_inv_def)
    qed
  next
    case False
    then obtain xs zs where zs: "level0 (r_map it) = xs @ zs" "f # R = takeWhile (within_end it) zs" using inv live by (auto simp: range_inv_def)
    then obtain zs' where zs': "zs = f # zs'" "R = takeWhile (within_end it) zs'" by (cases zs) (auto split: if_splits)
    have "next_at (r_map it) f 0 = head_opt zs'" using next_in_order [OF st(1)] zs(1) zs'(1) by simp
    then have adv: "advance_front f it = it\<lparr>r_front := head_opt zs', r_done := (zs' = [])\<rparr>"
      using False live by (cases zs') (simp_all add: advance_front_def)
    have "\<exists>us vs. level0 (r_map it) = us @ vs \<and> head_opt zs' = head_opt vs \<and> R = takeWhile (within_end it) vs"
      using zs(1) zs' by (intro exI [of _ "xs @ [f]"] exI [of _ zs']) simp
    then show ?thesis using adv within False live st zs'(2) by (cases zs') (simp_all add: range_inv_def)
  qed
qed

lemma range_next_law:
  assumes inv: "range_inv it R"
  shows "case R of
      [] \<Rightarrow> fst (range_next it) = None \<and> range_inv (snd (range_next it)) []
    | f # R' \<Rightarrow> range_next it = (Some (node_entry (r_map it) f), advance_front f it) \<and> \<not> r_done it"
proof (cases "r_done it \<or> r_front it = None")
  case True
  then have "R = []" using inv by (auto simp: range_inv_def split: if_splits)
  then show ?thesis using True inv by (auto simp: range_next_def)
next
  case False
  then obtain f where f: "r_front it = Some f" "\<not> r_done it" by auto
  have st: "sl_distinct (r_map it)" "user_comparator (sl_comparator (r_map it))" using inv by (auto simp: range_inv_def)
  show ?thesis
  proof (cases "back_init it")
    case True
    then obtain xs ys R' where R: "R = f # R'" "level0 (r_map it) = xs @ R @ ys" "within_end it (last R)"
      using inv f by (cases R) (auto simp: range_inv_def)
    have "within_end it f"
      using user_comparator.within_prefix [OF st(2) st(1) refl] R by (cases R' rule: rev_cases) (auto simp: sorted_wrt_append)
    then show ?thesis using f R(1) by (simp add: range_next_def)
  next
    case False
    then obtain xs zs' where "level0 (r_map it) = xs @ zs'" "head_opt zs' = Some f" "R = takeWhile (within_end it) zs'"
      using inv f by (auto simp: range_inv_def)
    then obtain zs where zs: "level0 (r_map it) = xs @ f # zs" "R = takeWhile (within_end it) (f # zs)" by auto
    show ?thesis
    proof (cases "within_end it f")
      case True
      then show ?thesis using zs f by (simp add: range_next_def)
    next
      case False
      then show ?thesis using zs f st by (simp add: range_next_def range_inv_def)
    qed
  qed
qed

text \<open>Placing the back at the last node within the end bound.\<close>

lemma init_back_at:
  assumes "sl_distinct (r_map it)" "user_comparator (sl_comparator (r_map it))" "\<not> back_init it"
  shows "init_back it = it\<lparr>r_back := last_opt (filter (within_end it) (level0 (r_map it))), back_init := True\<rparr>"
proof -
  have "leveled (r_map it) (level0 (r_map it))" using assms(1) by (simp add: sl_distinct_def sl_ok_def)
  note seek_last [OF this user_comparator.within_prefix [OF assms(2,1) refl]]
  moreover have "within_end it = (case end_bound it of KUnbounded \<Rightarrow> (\<lambda>_. True)
      | KIncluded k \<Rightarrow> (\<lambda>n. compare_key (r_map it) n k \<noteq> Greater) | KExcluded k \<Rightarrow> (\<lambda>n. compare_key (r_map it) n k = Less))"
    by (cases "end_bound it") (simp_all add: within_end_def fun_eq_iff)
  ultimately show ?thesis using assms(3)
    by (cases "end_bound it") (simp_all add: init_back_def last_node_def seek_le_def seek_lt_def)
qed

lemma place_back:
  assumes inv: "range_inv it R" and live: "\<not> r_done it" "\<not> back_init it"
  shows "if R = [] then r_front (init_back it) = None \<or> r_back (init_back it) = None \<or>
      compare_nodes (r_map it) (the (r_back (init_back it))) (the (r_front (init_back it))) = Less
    else range_inv (init_back it) R"
proof -
  have st: "sl_distinct (r_map it)" "user_comparator (sl_comparator (r_map it))" using inv by (auto simp: range_inv_def)
  obtain xs zs where zs: "level0 (r_map it) = xs @ zs" "r_front it = head_opt zs" "R = takeWhile (within_end it) zs"
    using inv live by (auto simp: range_inv_def)
  note prefix = user_comparator.within_prefix [OF st(2,1) refl, unfolded zs(1)]
  note init = init_back_at [OF st live(2), unfolded zs(1)]
  have R: "R = filter (within_end it) zs" using filter_split(1) [of "within_end it" zs] prefix by (simp add: zs(3) sorted_wrt_append)
  show ?thesis
  proof (cases "R = []")
    case True
    have "compare_nodes (r_map it) b f = Less" if "zs = f # zs'" "b \<in> set (filter (within_end it) xs)" for b f zs'
      using user_comparator.compare_nodes_order(1) [OF st(2,1) refl zs(1), of b f] that by simp
    moreover have "filter (within_end it) (xs @ zs) = filter (within_end it) xs" using True R by simp
    ultimately show ?thesis using True zs(2) last_in_set [of "filter (within_end it) xs"]
      by (cases zs; cases "filter (within_end it) xs = []") (simp_all add: init)
  next
    case False
    have zsR: "zs = R @ dropWhile (within_end it) zs" unfolding zs(3) by simp
    have "last R \<in> set (filter (within_end it) zs)" using False last_in_set R by metis
    then have "within_end it (last R)" by simp
    moreover have "head_opt zs = Some (hd R)" using False zsR by (cases R) auto
    moreover have "last_opt (filter (within_end it) (xs @ zs)) = Some (last R)" using False R by simp
    moreover have "within_end (init_back it) = within_end it" by (rule within_end_cong) (simp_all add: init)
    moreover have "\<exists>us vs. level0 (r_map it) = us @ R @ vs" using zs(1) zsR by metis
    ultimately show ?thesis using False st live zs(2) by (simp add: range_inv_def init)
  qed
qed

lemma advance_back_inv:
  assumes inv: "range_inv it R" and live: "\<not> r_done it" "back_init it"
  shows "range_inv (advance_back (last R) it) (butlast R)"
proof -
  have st: "sl_distinct (r_map it)" "user_comparator (sl_comparator (r_map it))" using inv by (auto simp: range_inv_def)
  obtain xs ys where R: "R \<noteq> []" "level0 (r_map it) = xs @ R @ ys" "r_front it = Some (hd R)" "within_end it (last R)"
    using inv live by (auto simp: range_inv_def)
  have d: "distinct R" using st(1) R(2) by (auto simp: sl_distinct_def sl_ok_def leveled_def)
  obtain R' b where b: "R = R' @ [b]" using R(1) by (cases R rule: rev_cases) auto
  show ?thesis
  proof (cases "R' = []")
    case True
    then show ?thesis using R(3) st b by (simp add: range_inv_def advance_back_def)
  next
    case False
    have "level0 (r_map it) = (xs @ R') @ b # ys" using R(2) b by simp
    from user_comparator.find_predecessor_at [OF st(2,1) refl this] False
    have adv: "advance_back b it = it\<lparr>r_back := Some (last R')\<rparr>"
      using d b R(3) by (cases R') (auto simp: advance_back_def)
    have "within_end it (last R')"
      using user_comparator.within_prefix [OF st(2,1) refl] R(2,4) b False by (auto simp: sorted_wrt_append)
    moreover have "within_end (it\<lparr>r_back := Some (last R')\<rparr>) = within_end it" by (rule within_end_cong) simp_all
    moreover have "\<exists>us vs. level0 (r_map it) = us @ R' @ vs" using R(2) b by (intro exI [of _ xs] exI [of _ "b # ys"]) simp
    ultimately show ?thesis using adv False st live R(3) b by (simp add: range_inv_def)
  qed
qed

lemma init_back_fields [simp]:
  "r_map (init_back it) = r_map it" "r_done (init_back it) = r_done it" "back_init (init_back it)" "r_front (init_back it) = r_front it"
  by (simp_all add: init_back_def)

lemma placed:
  assumes inv: "range_inv it R" and live: "\<not> r_done it" and "R \<noteq> []"
  shows "range_inv (init_back it) R" "r_front it = Some (hd R)" "r_back (init_back it) = Some (last R)"
    "compare_nodes (r_map it) (last R) (hd R) \<noteq> Less"
proof -
  show inv': "range_inv (init_back it) R"
    using inv place_back [OF inv live] \<open>R \<noteq> []\<close> by (cases "back_init it") (auto simp: init_back_def)
  then show ends: "r_front it = Some (hd R)" "r_back (init_back it) = Some (last R)" using live by (auto simp: range_inv_def)
  have st: "sl_distinct (r_map it)" "user_comparator (sl_comparator (r_map it))" using inv by (auto simp: range_inv_def)
  from inv' live obtain xs ys where order: "level0 (r_map it) = xs @ R @ ys" by (auto simp: range_inv_def)
  obtain R' b where b: "R = R' @ [b]" using \<open>R \<noteq> []\<close> by (cases R rule: rev_cases) auto
  show "compare_nodes (r_map it) (last R) (hd R) \<noteq> Less"
  proof (cases R')
    case Nil
    then show ?thesis using b user_comparator.compare_nodes_self [OF st(2,1) refl] by simp
  next
    case (Cons f R'')
    have "level0 (r_map it) = (xs @ R') @ b # ys" using order b by simp
    from user_comparator.compare_nodes_order(2) [OF st(2,1) refl this, of f b] b Cons show ?thesis by simp
  qed
qed

lemma range_next_back_law:
  assumes inv: "range_inv it R"
  shows "fst (range_next_back it) = (if R = [] then None else Some (node_entry (r_map it) (last R))) \<and>
    range_inv (snd (range_next_back it)) (butlast R)"
proof (cases "r_done it")
  case True
  then show ?thesis using inv by (auto simp: range_next_back_def range_inv_def)
next
  case live: False
  show ?thesis
  proof (cases "R = []")
    case True
    have st: "sl_distinct (r_map it)" "user_comparator (sl_comparator (r_map it))" using inv by (auto simp: range_inv_def)
    have "\<not> back_init it" using inv True live by (auto simp: range_inv_def)
    from place_back [OF inv live this] True live st show ?thesis
      by (auto simp: range_next_back_def Let_def range_inv_def split: option.splits)
  next
    case False
    note R = placed [OF inv live False]
    have "range_inv (advance_back (last R) (init_back it)) (butlast R)" using advance_back_inv [OF R(1)] live by simp
    then show ?thesis using live R(2-4) False by (simp add: range_next_back_def Let_def)
  qed
qed

subsection \<open>The contract\<close>

abbreviation range_items :: "sl_range \<Rightarrow> internal_value list" where
  "range_items it \<equiv> map (node_entry (r_map it)) (range_rest it)"

lemma range_steps_frame:
  "r_map (snd (range_next it)) = r_map it" "r_map (snd (range_next_back it)) = r_map it"
  "end_bound (snd (range_next it)) = end_bound it" "end_bound (snd (range_next_back it)) = end_bound it"
  by (auto simp: range_next_def range_next_back_def init_back_def advance_back_def Let_def split: option.splits)

lemma range_next_refines:
  assumes "range_inv it (range_rest it)" "range_next it = (r, it')"
  shows "range_inv it' (range_rest it') \<and> pop_front (range_items it) = (r, range_items it')"
proof (cases "range_rest it")
  case Nil
  then have "r = None" "range_inv it' []" using range_next_law [OF assms(1)] assms(2) by auto
  then show ?thesis using Nil range_inv_rest [of it' "[]"] by simp
next
  case (Cons f R)
  then have "r = Some (node_entry (r_map it) f)" "it' = advance_front f it" "\<not> r_done it"
    using range_next_law [OF assms(1)] assms(2) by auto
  moreover have "range_inv it' R" using advance_front_inv [of it f R] assms(1) Cons calculation by simp
  ultimately show ?thesis using Cons range_inv_rest [of it' R] by simp
qed

lemma range_next_back_refines:
  assumes "range_inv it (range_rest it)" "range_next_back it = (r, it')"
  shows "range_inv it' (range_rest it') \<and> pop_back (range_items it) = (r, range_items it')"
proof -
  have law: "r = (if range_rest it = [] then None else Some (node_entry (r_map it) (last (range_rest it))))"
    "range_inv it' (butlast (range_rest it))" "r_map it' = r_map it"
    using range_next_back_law [OF assms(1)] range_steps_frame(2) [of it] assms(2) by auto
  then show ?thesis using range_inv_rest [OF law(2)]
    by (cases "range_rest it" rule: rev_cases) (simp_all add: pop_back_def)
qed

interpretation range_iter: double_ended_iterator range_next range_next_back "\<lambda>it. range_inv it (range_rest it)" range_items
  by unfold_locales (use range_next_refines range_next_back_refines in blast)+

text \<open>The iterator over all entries takes the same steps.\<close>

lemma iter_next_range: "end_bound it = KUnbounded \<Longrightarrow> iter_next it = range_next it"
  by (simp add: iter_next_def range_next_def within_end_def split: option.splits)

definition iter_inv :: "sl_range \<Rightarrow> bool" where
  "iter_inv it \<longleftrightarrow> range_inv it (range_rest it) \<and> end_bound it = KUnbounded \<and>
     (r_done it \<or> r_front it \<noteq> None \<or> level0 (r_map it) = [])"

lemma iter_next_back_range:
  assumes "iter_inv it"
  shows "iter_next_back it = range_next_back it"
proof (cases "r_done it")
  case True
  then show ?thesis by (simp add: iter_next_back_def range_next_back_def)
next
  case live: False
  have inv: "range_inv it (range_rest it)" and all: "end_bound it = KUnbounded" using assms by (simp_all add: iter_inv_def)
  then have st: "sl_distinct (r_map it)" "user_comparator (sl_comparator (r_map it))" by (auto simp: range_inv_def)
  have init: "init_back it = (if back_init it then it else it\<lparr>r_back := last_node (r_map it), back_init := True\<rparr>)"
    by (simp add: init_back_def all)
  show ?thesis
  proof (cases "range_rest it = []")
    case True
    have unplaced: "\<not> back_init it" using inv True live by (auto simp: range_inv_def)
    then have "level0 (r_map it) = []" using inv True live assms all
      by (auto simp: range_inv_def iter_inv_def within_end_def takeWhile_eq_Nil_iff)
    then have "r_back (init_back it) = None" using init_back_at [OF st unplaced] by simp
    then show ?thesis using live by (simp add: iter_next_back_def range_next_back_def Let_def flip: init)
  next
    case False
    then show ?thesis using placed [OF inv live False] live by (simp add: iter_next_back_def range_next_back_def Let_def flip: init)
  qed
qed

lemma iter_inv_step:
  assumes "iter_inv it"
  shows "iter_inv (snd (range_next it))" "iter_inv (snd (range_next_back it))"
proof -
  have inv: "range_inv it (range_rest it)" using assms by (simp add: iter_inv_def)
  have "range_inv (snd (range_next it)) (range_rest (snd (range_next it)))"
    "range_inv (snd (range_next_back it)) (range_rest (snd (range_next_back it)))"
    using range_next_refines [OF inv] range_next_back_refines [OF inv] by (metis prod.collapse)+
  then show "iter_inv (snd (range_next it))" "iter_inv (snd (range_next_back it))"
    using assms by (auto simp: iter_inv_def range_steps_frame, auto simp: range_next_def range_next_back_def advance_front_def
      advance_back_def Let_def split: option.splits if_splits)
qed

interpretation full_iter: double_ended_iterator iter_next iter_next_back iter_inv range_items
proof
  fix it r it'
  assume it: "iter_inv it"
  then have inv: "range_inv it (range_rest it)" and same: "iter_next it = range_next it" "iter_next_back it = range_next_back it"
    by (simp_all add: iter_inv_def iter_next_range iter_next_back_range)
  show "iter_inv it' \<and> pop_front (range_items it) = (r, range_items it')" if "iter_next it = (r, it')"
    using that range_next_refines [OF inv] iter_inv_step(1) [OF it] by (simp add: same)
  show "iter_inv it' \<and> pop_back (range_items it) = (r, range_items it')" if "iter_next_back it = (r, it')"
    using that range_next_back_refines [OF inv] iter_inv_step(2) [OF it] by (simp add: same)
qed

subsection \<open>The entries in bounds\<close>

definition in_key_bounds :: "comparator \<Rightarrow> key_bound \<Rightarrow> key_bound \<Rightarrow> internal_key \<Rightarrow> bool" where
  "in_key_bounds c lo hi k \<longleftrightarrow>
     (case lo of KIncluded b \<Rightarrow> compare_with c k b \<noteq> Less | KExcluded b \<Rightarrow> compare_with c k b = Greater | KUnbounded \<Rightarrow> True) \<and>
     (case hi of KIncluded b \<Rightarrow> compare_with c k b \<noteq> Greater | KExcluded b \<Rightarrow> compare_with c k b = Less | KUnbounded \<Rightarrow> True)"

lemma sorted_wrt_distinct:
  "sorted_wrt P xs \<Longrightarrow> distinct (map f xs) \<Longrightarrow> sorted_wrt (\<lambda>a b. P a b \<and> f a \<noteq> f b) xs"
  by (induction xs) auto

lemma sl_distinctI:
  assumes "sl_ok st" "user_comparator (sl_comparator st)" "distinct (map (\<lambda>e. (ukey e, eseqno e)) (sl_entries st))"
  shows "sl_distinct st"
proof -
  have ok: "lexicographic_ok st" "sorted_wrt (\<lambda>a b. compare_nodes st a b \<noteq> Greater) (level0 st)" using assms(1) by (simp_all add: sl_ok_def)
  let ?f = "\<lambda>n. (user_key (n_key (sl_nodes st ! n)), seqno (n_key (sl_nodes st ! n)))"
  have "distinct (map ?f (level0 st))" using assms(3) by (simp add: sl_entries_def comp_def)
  from sorted_wrt_distinct [OF ok(2) this]
  have "sorted_wrt (\<lambda>a b. compare_nodes st a b = Less) (level0 st)"
  proof (rule sorted_wrt_mono_rel [rotated])
    fix a b assume "compare_nodes st a b \<noteq> Greater \<and> ?f a \<noteq> ?f b"
    then show "compare_nodes st a b = Less"
      using user_comparator.compare_with_Equal [OF assms(2), of "n_key (sl_nodes st ! a)" "n_key (sl_nodes st ! b)"]
      by (cases "compare_nodes st a b") (auto simp: compare_key_with(2) [OF ok(1)] internal_key_eq_def)
  qed
  then show ?thesis using assms(1) by (simp add: sl_distinct_def)
qed

text \<open>Where a range starts: the nodes that pass its lower bound.\<close>

definition past_start :: "skip_map \<Rightarrow> key_bound \<Rightarrow> nat \<Rightarrow> bool" where
  "past_start st lo n =
     (case lo of KIncluded k \<Rightarrow> compare_key st n k \<noteq> Less | KExcluded k \<Rightarrow> compare_key st n k = Greater | KUnbounded \<Rightarrow> True)"

lemma range_front:
  assumes "sl_distinct st" "user_comparator (sl_comparator st)"
  shows "r_front (sl_range_of st lo hi) = head_opt (filter (past_start st lo) (level0 st)) \<and>
    (\<exists>xs. level0 st = xs @ filter (past_start st lo) (level0 st))"
proof -
  have st: "lexicographic_ok st" "leveled st (level0 st)" "sorted_wrt (\<lambda>a b. compare_nodes st a b \<noteq> Greater) (level0 st)"
    using assms(1) by (auto simp: sl_distinct_def sl_ok_def)
  note prefix = user_comparator.prefix_test [OF assms(2) st(1) refl st(3)]
  have split: "\<exists>xs. level0 st = xs @ filter (\<lambda>n. \<not> p n) (level0 st)" if "sorted_wrt (\<lambda>x y. p y \<longrightarrow> p x) (level0 st)" for p
    using filter_split(2) [OF that] by (metis takeWhile_dropWhile_id)
  show ?thesis
  proof (cases lo)
    case (KIncluded k)
    have "r_front (sl_range_of st lo hi) = head_opt (filter (\<lambda>n. \<not> compare_key st n k = Less) (level0 st))"
      using seek_next [OF st(2) prefix(1), of k] by (simp add: sl_range_of_def KIncluded seek_ge_def seek_ge_parts_def compare_key_def)
    moreover have "past_start st lo = (\<lambda>n. \<not> compare_key st n k = Less)" by (simp add: past_start_def KIncluded fun_eq_iff)
    ultimately show ?thesis using split [OF prefix(1)] by simp
  next
    case (KExcluded k)
    have "r_front (sl_range_of st lo hi) = head_opt (filter (\<lambda>n. \<not> compare_key st n k \<noteq> Greater) (level0 st))"
      using seek_next [OF st(2) prefix(2), of k] by (simp add: sl_range_of_def KExcluded seek_gt_def)
    moreover have "past_start st lo = (\<lambda>n. \<not> compare_key st n k \<noteq> Greater)" by (simp add: past_start_def KExcluded fun_eq_iff)
    ultimately show ?thesis using split [OF prefix(2)] by simp
  next
    case KUnbounded
    then show ?thesis using chain_next [OF leveled_chain_0 [OF st(2)]] by (simp add: sl_range_of_def past_start_def first_node_def)
  qed
qed

lemma range_of_items:
  assumes "sl_distinct st" "user_comparator (sl_comparator st)"
  shows "range_inv (sl_range_of st lo hi) (range_rest (sl_range_of st lo hi))"
    "range_items (sl_range_of st lo hi) = filter (\<lambda>e. in_key_bounds (sl_comparator st) lo hi (key e)) (sl_entries st)"
proof -
  let ?it = "sl_range_of st lo hi" and ?zs = "filter (past_start st lo) (level0 st)"
  have it: "r_map ?it = st" "\<not> r_done ?it" "\<not> back_init ?it" "end_bound ?it = hi" by (simp_all add: sl_range_of_def)
  have lex: "lexicographic_ok st" using assms(1) by (simp add: sl_distinct_def sl_ok_def)
  have "sorted_wrt (\<lambda>x y. within_end ?it y \<longrightarrow> within_end ?it x) ?zs"
    using user_comparator.within_prefix [of "sl_comparator st" ?it] assms it(1) by (simp add: sorted_wrt_filter)
  from filter_split(1) [OF this] have R: "takeWhile (within_end ?it) ?zs = filter (within_end ?it) ?zs" .
  obtain xs where "level0 st = xs @ ?zs" "r_front ?it = head_opt ?zs" using range_front [OF assms, of lo hi] by blast
  then have "\<exists>xs zs. level0 st = xs @ zs \<and> r_front ?it = head_opt zs \<and> filter (within_end ?it) ?zs = takeWhile (within_end ?it) zs"
    using R by (intro exI [of _ xs] exI [of _ ?zs]) simp
  then have inv: "range_inv ?it (filter (within_end ?it) ?zs)" using assms it unfolding range_inv_def by simp
  note rest = range_inv_rest [OF inv]
  show "range_inv ?it (range_rest ?it)" using inv rest by simp
  have "within_end ?it n \<and> past_start st lo n \<longleftrightarrow> in_key_bounds (sl_comparator st) lo hi (key (node_entry st n))" for n
    unfolding within_end_def it past_start_def in_key_bounds_def compare_key_with(1) [OF lex] by (cases lo; cases hi) auto
  then show "range_items ?it = filter (\<lambda>e. in_key_bounds (sl_comparator st) lo hi (key e)) (sl_entries st)"
    by (simp add: rest it(1) sl_entries_def filter_map comp_def conj_commute)
qed

lemma iter_items:
  assumes "sl_distinct st" "user_comparator (sl_comparator st)"
  shows "iter_inv (sl_iter st)" "range_items (sl_iter st) = sl_entries st"
proof -
  have same: "sl_iter st = sl_range_of st KUnbounded KUnbounded" by (simp add: sl_iter_def sl_range_of_def)
  have "leveled st (level0 st)" using assms(1) by (simp add: sl_distinct_def sl_ok_def)
  then have "first_node st = head_opt (level0 st)" using chain_next [OF leveled_chain_0] by (simp add: first_node_def)
  then show "iter_inv (sl_iter st)"
    using range_of_items(1) [OF assms, of KUnbounded KUnbounded] unfolding iter_inv_def same by (auto simp: sl_range_of_def)
  show "range_items (sl_iter st) = sl_entries st"
    using range_of_items(2) [OF assms, of KUnbounded KUnbounded] unfolding same by (simp add: in_key_bounds_def)
qed

end
