(* ===== verification/Kv_Residence.thy ===== *)
theory Kv_Residence
  imports Skiplist_Map
begin

text \<open>
  The residence check of \<open>memtable/skiplist.rs\<close>: digests stored at insert, packed beside the value type,
  are recomputed over the nodes before a flush.
\<close>

lemma packed_digest:
  assumes "n_vt_byte nd = vt_byte_of t d" "n_slot nd = (case d of Some (x, _) \<Rightarrow> x | None \<Rightarrow> 0)"
  shows "read_kv_digest nd =
      (case d of None \<Rightarrow> Absent | Some (x, algo) \<Rightarrow> if digest_size algo = 4 then Present x algo else CorruptAlgorithm (wire_tag algo))"
    "value_type_of_u8 (n_vt_byte nd AND VALUE_TYPE_MASK) = Some t"
proof -
  note defs = vt_byte_of_def KV_DIGEST_PRESENT_def VALUE_TYPE_MASK_def KV_ALGO_SHIFT_def KV_ALGO_MASK_def wire_tag_def
    from_wire_tag_def digest_size_def read_kv_digest_def value_type_of_u8_def
  show "read_kv_digest nd =
      (case d of None \<Rightarrow> Absent | Some (x, algo) \<Rightarrow> if digest_size algo = 4 then Present x algo else CorruptAlgorithm (wire_tag algo))"
  proof (cases d)
    case None
    then show ?thesis using assms by (cases t) (simp_all add: defs)
  next
    case (Some p)
    obtain x algo where "p = (x, algo)" by (cases p)
    then show ?thesis using assms Some by (cases t; cases algo) (simp_all add: defs)
  qed
  show "value_type_of_u8 (n_vt_byte nd AND VALUE_TYPE_MASK) = Some t"
  proof (cases d)
    case None
    then show ?thesis using assms by (cases t) (simp_all add: defs)
  next
    case (Some p)
    obtain x algo where "p = (x, algo)" by (cases p)
    then show ?thesis using assms Some by (cases t; cases algo) (simp_all add: defs)
  qed
qed

text \<open>A node written by an insert with the digest \<open>d\<close>.\<close>

fun holds_put :: "sl_put \<Rightarrow> sl_node \<Rightarrow> bool" where
  "holds_put (k, v, d) nd \<longleftrightarrow> n_key nd = k \<and> n_value nd = v \<and> n_vt_byte nd = vt_byte_of (value_type k) d \<and>
     n_slot nd = (case d of Some (x, _) \<Rightarrow> x | None \<Rightarrow> 0)"

lemma verify_node_put:
  assumes "holds_put (k, v, d) nd"
  shows "verify_node h (nd\<lparr>n_value := v'\<rparr>) =
    (case d of
       None \<Rightarrow> Inr ()
     | Some (x, algo) \<Rightarrow>
         if digest_size algo \<noteq> 4 then Inl (MemtableKvChecksumCorruptAlgorithm (seqno k) (wire_tag algo))
         else case kv_digest h \<lparr>key = k, val = v'\<rparr> algo of
                None \<Rightarrow> Inl FeatureUnsupported
              | Some r \<Rightarrow> if (ucast r :: u32) \<noteq> x then Inl (MemtableKvChecksumMismatch (seqno k) (ucast (ucast r :: u32)) (ucast x))
                          else Inr ())"
proof -
  have nd: "n_key nd = k" "n_vt_byte nd = vt_byte_of (value_type k) d" "n_slot nd = (case d of Some (x, _) \<Rightarrow> x | None \<Rightarrow> 0)"
    using assms by simp_all
  have "read_kv_digest (nd\<lparr>n_value := v'\<rparr>) = read_kv_digest nd"
    by (simp add: read_kv_digest_def Let_def split: option.splits)
  moreover have "node_internal_key_checked (nd\<lparr>n_value := v'\<rparr>) = Inr k"
    using packed_digest(2) [OF nd(2,3)] nd(1) by (simp add: node_internal_key_checked_def)
  ultimately show ?thesis using packed_digest(1) [OF nd(2,3)] nd(1)
    by (cases d) (auto simp: verify_node_def Let_def split: option.splits)
qed

text \<open>The check reports the first node, in key order, that fails.\<close>

fun first_error :: "(lsm_error + unit) list \<Rightarrow> lsm_error + unit" where
  "first_error [] = Inr ()"
| "first_error (Inl e # rs) = Inl e"
| "first_error (Inr u # rs) = first_error rs"

lemma first_error_ok: "set rs \<subseteq> {Inr ()} \<Longrightarrow> first_error rs = Inr ()"
  by (induction rs) simp_all

lemma first_error_at: "set as \<subseteq> {Inr ()} \<Longrightarrow> first_error (as @ Inl e # bs) = Inl e"
  by (induction as) simp_all

lemma verify_loop_chain:
  "chain st 0 a ns \<Longrightarrow> length ns < fuel \<Longrightarrow>
     verify_loop h st fuel (next_at st a 0) = first_error (map (\<lambda>n. verify_node h (sl_nodes st ! n)) ns)"
proof (induction ns arbitrary: a fuel)
  case Nil
  then show ?case by (cases fuel) simp_all
next
  case (Cons n ns)
  then obtain f where "fuel = Suc f" "length ns < f" by (cases fuel) auto
  with Cons show ?case by (cases "verify_node h (sl_nodes st ! n)") simp_all
qed

lemma verify_first_error:
  assumes "leveled st ns"
  shows "verify_kv_digests h st = first_error (map (\<lambda>n. verify_node h (sl_nodes st ! n)) ns)"
  unfolding verify_kv_digests_def first_node_def by (rule verify_loop_chain [OF leveled_chain_0 [OF assms] leveled_length [OF assms]])

text \<open>Every node of a skip list was written by one of its inserts.\<close>

context user_comparator begin

lemma insert_nodes:
  assumes ok: "sl_ok st" and c: "sl_comparator st = cmp" and n: "n \<in> set (level0 (insert_with_kv_digest k v d st))"
  shows "holds_put (k, v, d) (sl_nodes (insert_with_kv_digest k v d st) ! n) \<or>
    n \<in> set (level0 st) \<and> (\<forall>p. holds_put p (sl_nodes st ! n) \<longrightarrow> holds_put p (sl_nodes (insert_with_kv_digest k v d st) ! n))"
proof -
  define ns' where "ns' = filter (\<lambda>n. compare_key st n k = Less) (level0 st) @ length (sl_nodes st) #
    filter (\<lambda>n. \<not> compare_key st n k = Less) (level0 st)"
  have st: "lexicographic_ok st" "leveled st (level0 st)" "sorted_wrt (\<lambda>a b. compare_nodes st a b \<noteq> Greater) (level0 st)"
    "\<And>x. tail_hint st = Some x \<Longrightarrow> x \<in> set (level0 st)" using ok by (auto simp: sl_ok_def)
  note law = sl_insert_law [OF st(2,4) refl prefix_test(1) [OF st(1) c st(3)] refl ns'_def, where v = v and d = d]
  have "n = length (sl_nodes st) \<or> n \<in> set (level0 st)" using n level0_leveled [OF law(1)] by (auto simp: ns'_def)
  moreover have "n < length (sl_nodes st)" if "n \<in> set (level0 st)" using st(2) that by (auto simp: leveled_def)
  ultimately show ?thesis using law(3) [of n] law(4) by auto
qed

lemma inserts_nodes:
  assumes "sl_ok st" "sl_comparator st = cmp" "\<forall>n\<in>set (level0 st). \<exists>p\<in>P. holds_put p (sl_nodes st ! n)" "set puts \<subseteq> P"
  shows "\<forall>n\<in>set (level0 (sl_inserts puts st)). \<exists>p\<in>P. holds_put p (sl_nodes (sl_inserts puts st) ! n)"
  using assms
proof (induction puts st rule: sl_inserts.induct)
  case (2 k v d puts st)
  note step = insert_ok [OF 2(2,3), of k v d]
  have "\<forall>n\<in>set (level0 (insert_with_kv_digest k v d st)). \<exists>p\<in>P. holds_put p (sl_nodes (insert_with_kv_digest k v d st) ! n)"
    using insert_nodes [OF 2(2,3), of _ k v d] 2(4,5) by (meson list.set_intros(1) subsetD)
  from 2(1) [OF step(1,3) this] 2(5) show ?case by simp
qed simp

end

text \<open>A bit flip in the value of a node.\<close>

definition corrupt_value :: "nat \<Rightarrow> user_value \<Rightarrow> skip_map \<Rightarrow> skip_map" where
  "corrupt_value n v st = st\<lparr>sl_nodes := (sl_nodes st)[n := (sl_nodes st ! n)\<lparr>n_value := v\<rparr>]\<rparr>"

lemma leveled_corrupt: "leveled st ns \<Longrightarrow> leveled (corrupt_value n v st) ns"
proof -
  assume lev: "leveled st ns"
  have links: "next_at (corrupt_value n v st) m l = next_at st m l" for m l
    by (simp add: next_at_def corrupt_value_def list_update_nth)
  have tower: "tower_height (corrupt_value n v st) m = tower_height st m" for m by (simp add: corrupt_value_def list_update_nth)
  have "chain (corrupt_value n v st) l a xs = chain st l a xs" for l a xs by (rule chain_cong) (rule links)
  then show ?thesis using lev by (simp add: leveled_def tower) (simp add: corrupt_value_def)
qed

end
