(* ===== verification/Write_Batch.thy ===== *)
theory Write_Batch
  imports Internal_Key
begin

text \<open>
  \<open>write_batch.rs\<close>: a batch of operations that get one sequence number. Materializing a batch rejects
  different operations on one key and turns the rest into entries in the order they were added.
\<close>

datatype write_batch_entry =
    WInsert user_key user_value
  | WRemove user_key
  | WRemoveWeak user_key
  | WMerge user_key user_value

record write_batch =
  wb_entries :: "write_batch_entry list"

definition wb_new :: write_batch where
  "wb_new = \<lparr>wb_entries = []\<rparr>"

definition wb_insert :: "user_key \<Rightarrow> user_value \<Rightarrow> write_batch \<Rightarrow> write_batch" where
  "wb_insert k v b = b\<lparr>wb_entries := wb_entries b @ [WInsert k v]\<rparr>"

definition wb_remove :: "user_key \<Rightarrow> write_batch \<Rightarrow> write_batch" where
  "wb_remove k b = b\<lparr>wb_entries := wb_entries b @ [WRemove k]\<rparr>"

definition wb_remove_weak :: "user_key \<Rightarrow> write_batch \<Rightarrow> write_batch" where
  "wb_remove_weak k b = b\<lparr>wb_entries := wb_entries b @ [WRemoveWeak k]\<rparr>"

definition wb_merge :: "user_key \<Rightarrow> user_value \<Rightarrow> write_batch \<Rightarrow> write_batch" where
  "wb_merge k v b = b\<lparr>wb_entries := wb_entries b @ [WMerge k v]\<rparr>"

definition wb_len :: "write_batch \<Rightarrow> nat" where
  "wb_len b = length (wb_entries b)"

definition wb_is_empty :: "write_batch \<Rightarrow> bool" where
  "wb_is_empty b \<longleftrightarrow> wb_entries b = []"

definition wb_clear :: "write_batch \<Rightarrow> write_batch" where
  "wb_clear b = b\<lparr>wb_entries := []\<rparr>"

fun key_and_type :: "write_batch_entry \<Rightarrow> user_key \<times> value_type" where
  "key_and_type (WInsert k v) = (k, Value)"
| "key_and_type (WRemove k) = (k, Tombstone)"
| "key_and_type (WRemoveWeak k) = (k, WeakTombstone)"
| "key_and_type (WMerge k v) = (k, MergeOperand)"

text \<open>The scan with the operation types seen so far; \<open>True\<close> means that a key has two of them.\<close>

fun mixed_operations :: "write_batch_entry list \<Rightarrow> (user_key \<rightharpoonup> value_type) \<Rightarrow> bool" where
  "mixed_operations [] seen \<longleftrightarrow> False"
| "mixed_operations (e # es) seen \<longleftrightarrow>
     (let (k, t) = key_and_type e in
      case seen k of
        Some prev \<Rightarrow> prev \<noteq> t \<or> mixed_operations es seen
      | None \<Rightarrow> mixed_operations es (seen(k \<mapsto> t)))"

fun materialize_entry :: "seqno \<Rightarrow> write_batch_entry \<Rightarrow> lsm_error + internal_value" where
  "materialize_entry s (WInsert k v) = from_components k v s Value"
| "materialize_entry s (WRemove k) = new_tombstone k s"
| "materialize_entry s (WRemoveWeak k) = new_weak_tombstone k s"
| "materialize_entry s (WMerge k v) = new_merge_operand k v s"

fun materialize_entries :: "seqno \<Rightarrow> write_batch_entry list \<Rightarrow> lsm_error + internal_value list" where
  "materialize_entries s [] = Inr []"
| "materialize_entries s (e # es) =
     (case materialize_entry s e of
        Inl err \<Rightarrow> Inl err
      | Inr v \<Rightarrow> map_sum id (\<lambda>vs. v # vs) (materialize_entries s es))"

definition materialize :: "write_batch \<Rightarrow> seqno \<Rightarrow> lsm_error + internal_value list" where
  "materialize b s =
     (if mixed_operations (wb_entries b) Map.empty then Inl MixedOperationBatch
      else materialize_entries s (wb_entries b))"

subsection \<open>Lemmas\<close>

text \<open>The scan finds two different operations on one key, one of them possibly seen before.\<close>

lemma mixed_operations_iff:
  "mixed_operations es seen \<longleftrightarrow>
     (\<exists>x\<in>set es. \<exists>t. seen (fst (key_and_type x)) = Some t \<and> t \<noteq> snd (key_and_type x)) \<or>
     (\<exists>x\<in>set es. \<exists>y\<in>set es. fst (key_and_type x) = fst (key_and_type y) \<and> snd (key_and_type x) \<noteq> snd (key_and_type y))"
proof (induction es arbitrary: seen)
  case (Cons e es)
  obtain k t where e: "key_and_type e = (k, t)" by (cases "key_and_type e")
  let ?seen = "\<lambda>seen x. \<exists>u. seen (fst (key_and_type x)) = Some u \<and> u \<noteq> snd (key_and_type x)"
  let ?pair = "\<lambda>x y. fst (key_and_type x) = fst (key_and_type y) \<and> snd (key_and_type x) \<noteq> snd (key_and_type y)"
  have pairs: "(\<exists>x\<in>set (e # es). \<exists>y\<in>set (e # es). ?pair x y) \<longleftrightarrow> (\<exists>x\<in>set es. ?pair e x) \<or> (\<exists>x\<in>set es. \<exists>y\<in>set es. ?pair x y)"
    by (auto dest: sym)
  show ?case
  proof (cases "seen k")
    case None
    then have "?seen (seen(k \<mapsto> t)) x \<longleftrightarrow> ?pair e x \<or> ?seen seen x" for x by (simp add: e)
    moreover have "\<not> ?seen seen e" using None by (simp add: e)
    ultimately show ?thesis unfolding pairs using Cons.IH [of "seen(k \<mapsto> t)"] None by (simp add: e Let_def bex_disj_distrib disj_ac fun_upd_def)
  next
    case (Some u)
    then have "?seen seen e \<longleftrightarrow> u \<noteq> t" by (simp add: e)
    moreover have "?pair e x \<Longrightarrow> u = t \<Longrightarrow> ?seen seen x" for x using Some by (auto simp: e)
    ultimately show ?thesis unfolding pairs using Cons.IH [of seen] Some by (simp add: e Let_def) blast
  qed
qed simp

fun entry_value :: "write_batch_entry \<Rightarrow> user_value" where
  "entry_value (WInsert k v) = v"
| "entry_value (WRemove k) = []"
| "entry_value (WRemoveWeak k) = []"
| "entry_value (WMerge k v) = v"

lemma materialize_entry_Inr:
  "materialize_entry s e = Inr v \<Longrightarrow>
     key v = \<lparr>user_key = fst (key_and_type e), seqno = s, value_type = snd (key_and_type e)\<rparr> \<and> val v = entry_value e"
  by (cases e) (auto simp: from_components_Inr new_tombstone_def new_weak_tombstone_def new_merge_operand_def
      internal_value_new_def internal_key_new_def from_components_def split: if_splits sum.splits)

lemma materialize_entry_Inl: "materialize_entry s e = Inl err \<Longrightarrow> err = Panicked"
  by (cases e) (auto simp: new_tombstone_def new_weak_tombstone_def new_merge_operand_def
      internal_value_new_def internal_key_new_def from_components_def split: if_splits sum.splits)

lemma materialize_entries_Inr:
  "materialize_entries s es = Inr vs \<Longrightarrow>
     map (\<lambda>v. (ukey v, eseqno v, etype v, val v)) vs =
     map (\<lambda>e. (fst (key_and_type e), s, snd (key_and_type e), entry_value e)) es"
proof (induction es arbitrary: vs)
  case (Cons e es)
  then show ?case
    by (cases "materialize_entry s e"; cases "materialize_entries s es") (auto dest: materialize_entry_Inr)
qed simp

lemma materialize_entries_Inl: "materialize_entries s es = Inl err \<Longrightarrow> err = Panicked"
proof (induction es)
  case (Cons e es)
  then show ?case by (cases "materialize_entry s e"; cases "materialize_entries s es") (auto dest: materialize_entry_Inl)
qed simp



end
