(* ===== verification/Memtable.thy ===== *)
theory Memtable
  imports Skiplist_Iter Kv_Residence Interval_Tree Write_Batch
begin

text \<open>
  \<open>memtable/mod.rs\<close>: the memtable, a skip list of entries and an interval tree of range tombstones with
  an approximate size and the highest sequence number. The in-memory sizes of an entry and of a range
  tombstone are arguments, and so are the hash functions of the insert-time digests. Assertions of debug
  builds are left out; a panic of the interval tree is \<open>None\<close>.
\<close>

subsection \<open>Operations\<close>

record memtable =
  mt_id :: u64
  mt_comparator :: comparator
  mt_items :: skip_map
  mt_tombstones :: interval_tree
  approximate_size :: u64
  highest_seqno :: u64
  requested_rotation :: bool
  has_at_insert_digests :: bool

record mt_sizes =
  item_overhead :: nat
  rt_overhead :: nat

definition mt_new :: "u64 \<Rightarrow> comparator \<Rightarrow> bool \<Rightarrow> u64 \<Rightarrow> memtable" where
  "mt_new i c bytewise seed =
     \<lparr>mt_id = i, mt_comparator = c, mt_items = sl_new c bytewise seed, mt_tombstones = it_new, approximate_size = 0,
      highest_seqno = 0, requested_rotation = False, has_at_insert_digests = False\<rparr>"

definition flag_rotated :: "memtable \<Rightarrow> memtable" where
  "flag_rotated mt = mt\<lparr>requested_rotation := True\<rparr>"

definition mt_iter :: "memtable \<Rightarrow> sl_range" where
  "mt_iter mt = sl_iter (mt_items mt)"

definition range_internal :: "memtable \<Rightarrow> key_bound \<Rightarrow> key_bound \<Rightarrow> sl_range" where
  "range_internal mt lo hi = sl_range_of (mt_items mt) lo hi"

definition mt_get :: "memtable \<Rightarrow> user_key \<Rightarrow> seqno \<Rightarrow> internal_value option" where
  "mt_get mt k s = (if s = 0 then None else point_get (mt_items mt) k (s - 1))"

definition mt_len :: "memtable \<Rightarrow> nat" where
  "mt_len mt = sl_len (mt_items mt)"

definition range_tombstone_count :: "memtable \<Rightarrow> nat" where
  "range_tombstone_count mt = it_len (mt_tombstones mt)"

definition mt_is_empty :: "memtable \<Rightarrow> bool" where
  "mt_is_empty mt \<longleftrightarrow> sl_is_empty (mt_items mt) \<and> range_tombstone_count mt = 0"

definition item_size :: "mt_sizes \<Rightarrow> internal_value \<Rightarrow> u64" where
  "item_size sz e = of_nat (length (ukey e) + length (val e) + item_overhead sz)"

definition mt_insert :: "mt_sizes \<Rightarrow> internal_value \<Rightarrow> memtable \<Rightarrow> (u64 \<times> u64) \<times> memtable" where
  "mt_insert sz e mt =
     (let n = item_size sz e; before = approximate_size mt
      in ((n, before + n),
          mt\<lparr>approximate_size := before + n, mt_items := sl_insert (key e) (val e) (mt_items mt),
             highest_seqno := max (highest_seqno mt) (eseqno e)\<rparr>))"

definition mt_insert_with_kv_digest ::
  "mt_sizes \<Rightarrow> internal_value \<Rightarrow> (u32 \<times> checksum_algorithm) option \<Rightarrow> memtable \<Rightarrow> (u64 \<times> u64) \<times> memtable" where
  "mt_insert_with_kv_digest sz e digest mt =
     (let n = item_size sz e; before = approximate_size mt
      in ((n, before + n),
          mt\<lparr>approximate_size := before + n,
             has_at_insert_digests := (if digest \<noteq> None then True else has_at_insert_digests mt),
             mt_items := insert_with_kv_digest (key e) (val e) digest (mt_items mt),
             highest_seqno := max (highest_seqno mt) (eseqno e)\<rparr>))"

text \<open>One pass for the size and the highest sequence number of a batch, one for the inserts.\<close>

fun batch_totals :: "mt_sizes \<Rightarrow> internal_value list \<Rightarrow> u64 \<times> u64 \<Rightarrow> u64 \<times> u64" where
  "batch_totals sz [] acc = acc"
| "batch_totals sz (e # es) (total_size, max_seqno) =
     batch_totals sz es (total_size + item_size sz e, if max_seqno < eseqno e then eseqno e else max_seqno)"

definition insert_digest :: "hashers \<Rightarrow> checksum_algorithm option \<Rightarrow> internal_value \<Rightarrow> (u32 \<times> checksum_algorithm) option" where
  "insert_digest h kv_algo e =
     (case kv_algo of
        None \<Rightarrow> None
      | Some algo \<Rightarrow> map_option (\<lambda>d. (ucast d, algo)) (kv_digest h e algo))"

fun insert_items :: "hashers \<Rightarrow> checksum_algorithm option \<Rightarrow> internal_value list \<Rightarrow> skip_map \<Rightarrow> skip_map" where
  "insert_items h kv_algo [] st = st"
| "insert_items h kv_algo (e # es) st =
     insert_items h kv_algo es (insert_with_kv_digest (key e) (val e) (insert_digest h kv_algo e) st)"

definition insert_batch_with_kv_algo ::
  "mt_sizes \<Rightarrow> hashers \<Rightarrow> internal_value list \<Rightarrow> checksum_algorithm option \<Rightarrow> memtable \<Rightarrow> (u64 \<times> u64) \<times> memtable" where
  "insert_batch_with_kv_algo sz h es kv_algo mt =
     (if es = [] then ((0, approximate_size mt), mt)
      else let (total_size, max_seqno) = batch_totals sz es (0, 0); before = approximate_size mt
        in ((total_size, before + total_size),
            mt\<lparr>approximate_size := before + total_size,
               has_at_insert_digests := (if kv_algo \<noteq> None then True else has_at_insert_digests mt),
               mt_items := insert_items h kv_algo es (mt_items mt),
               highest_seqno := max (highest_seqno mt) max_seqno\<rparr>))"

definition insert_range_tombstone ::
  "mt_sizes \<Rightarrow> user_key \<Rightarrow> user_key \<Rightarrow> seqno \<Rightarrow> memtable \<Rightarrow> (u64 \<times> memtable) option" where
  "insert_range_tombstone sz start stop s mt =
     (if mt_comparator mt start stop \<noteq> Less then Some (0, mt)
      else if 65535 < length start \<or> 65535 < length stop then Some (0, mt)
      else let n = of_nat (length start + length stop + rt_overhead sz) in
        case it_insert (mt_comparator mt) (mt_tombstones mt) \<lparr>rt_start = start, rt_end = stop, rt_seqno = s\<rparr> of
          None \<Rightarrow> None
        | Some tree \<Rightarrow>
            Some (n, mt\<lparr>mt_tombstones := tree, approximate_size := approximate_size mt + n,
                        highest_seqno := max (highest_seqno mt) s\<rparr>))"

definition is_key_suppressed_by_range_tombstone :: "memtable \<Rightarrow> user_key \<Rightarrow> seqno \<Rightarrow> seqno \<Rightarrow> bool" where
  "is_key_suppressed_by_range_tombstone mt k key_seqno read_seqno =
     query_suppression (mt_comparator mt) (mt_tombstones mt) k key_seqno read_seqno"

definition range_tombstones_sorted :: "memtable \<Rightarrow> range_tombstone list" where
  "range_tombstones_sorted mt = iter_sorted (mt_tombstones mt)"

definition get_highest_seqno :: "memtable \<Rightarrow> seqno option" where
  "get_highest_seqno mt = (if mt_is_empty mt then None else Some (highest_seqno mt))"

definition verify_kv_residence :: "hashers \<Rightarrow> memtable \<Rightarrow> lsm_error + unit" where
  "verify_kv_residence h mt = (if \<not> has_at_insert_digests mt then Inr () else verify_kv_digests h (mt_items mt))"

subsection \<open>Histories\<close>

datatype mt_op =
    Put internal_value
  | PutDigest internal_value "(u32 \<times> checksum_algorithm) option"
  | PutBatch "internal_value list" "checksum_algorithm option"
  | PutRange user_key user_key seqno
  | FlagRotated

fun mt_step :: "mt_sizes \<Rightarrow> hashers \<Rightarrow> mt_op \<Rightarrow> memtable \<Rightarrow> memtable option" where
  "mt_step sz h (Put e) mt = Some (snd (mt_insert sz e mt))"
| "mt_step sz h (PutDigest e d) mt = Some (snd (mt_insert_with_kv_digest sz e d mt))"
| "mt_step sz h (PutBatch es algo) mt = Some (snd (insert_batch_with_kv_algo sz h es algo mt))"
| "mt_step sz h (PutRange a b s) mt = map_option snd (insert_range_tombstone sz a b s mt)"
| "mt_step sz h FlagRotated mt = Some (flag_rotated mt)"

fun mt_run :: "mt_sizes \<Rightarrow> hashers \<Rightarrow> mt_op list \<Rightarrow> memtable \<Rightarrow> memtable option" where
  "mt_run sz h [] mt = Some mt"
| "mt_run sz h (op # ops) mt = (case mt_step sz h op mt of None \<Rightarrow> None | Some mt' \<Rightarrow> mt_run sz h ops mt')"

text \<open>What a history has written: its entries, and the range tombstones it did not reject.\<close>

fun op_entries :: "mt_op \<Rightarrow> internal_value list" where
  "op_entries (Put e) = [e]"
| "op_entries (PutDigest e d) = [e]"
| "op_entries (PutBatch es algo) = es"
| "op_entries _ = []"

fun op_tombstones :: "comparator \<Rightarrow> mt_op \<Rightarrow> range_tombstone list" where
  "op_tombstones c (PutRange a b s) =
     (if c a b = Less \<and> length a \<le> 65535 \<and> length b \<le> 65535 then [\<lparr>rt_start = a, rt_end = b, rt_seqno = s\<rparr>] else [])"
| "op_tombstones c _ = []"

abbreviation written :: "mt_op list \<Rightarrow> internal_value list" where
  "written ops \<equiv> concat (map op_entries ops)"

abbreviation deleted_ranges :: "comparator \<Rightarrow> mt_op list \<Rightarrow> range_tombstone list" where
  "deleted_ranges c ops \<equiv> concat (map (op_tombstones c) ops)"

subsection \<open>The invariant\<close>

definition top_seqno :: "internal_value list \<Rightarrow> range_tombstone list \<Rightarrow> seqno" where
  "top_seqno es ts = Max (insert 0 (eseqno ` set es \<union> rt_seqno ` set ts))"

definition mt_ok :: "comparator \<Rightarrow> internal_value list \<Rightarrow> range_tombstone list \<Rightarrow> memtable \<Rightarrow> bool" where
  "mt_ok c es ts mt \<longleftrightarrow> mt_comparator mt = c \<and> sl_ok (mt_items mt) \<and> sl_comparator (mt_items mt) = c \<and>
     mset (sl_entries (mt_items mt)) = mset es \<and> user_comparator.it_wf c (mt_tombstones mt) \<and>
     set (inorder (it_root (mt_tombstones mt))) = set ts \<and>
     highest_seqno mt = top_seqno es ts"

lemma Max_insert_max: "finite S \<Longrightarrow> Max (insert (max a b) S) = Max (insert a (insert b S))"
  by (cases "S = {}") (simp_all add: max.assoc)

lemma batch_totals_seqno:
  "snd (batch_totals sz es acc) = Max (insert (snd acc) (eseqno ` set es))"
proof (induction es arbitrary: acc)
  case (Cons e es)
  obtain total_size m where acc: "acc = (total_size, m)" by (cases acc)
  have "(if m < eseqno e then eseqno e else m) = max m (eseqno e)" by (auto simp: max_def)
  then show ?case by (simp add: acc Cons.IH Max_insert_max del: Max_insert)
qed simp

lemma top_seqno_append:
  "top_seqno (es @ xs) ts = max (top_seqno es ts) (Max (insert 0 (eseqno ` set xs)))"
  "top_seqno es (ts @ us) = max (top_seqno es ts) (Max (insert 0 (rt_seqno ` set us)))"
proof -
  have top: "max (Max (insert 0 A)) (Max (insert 0 S)) = Max (insert 0 (A \<union> S))" if "finite A" "finite S" for A S :: "seqno set"
  proof -
    have "Max (insert 0 A \<union> insert 0 S) = max (Max (insert 0 A)) (Max (insert 0 S))" using that by (intro Max_Un) auto
    moreover have "insert 0 A \<union> insert 0 S = insert 0 (A \<union> S)" by auto
    ultimately show ?thesis by (simp only:)
  qed
  have "eseqno ` set (es @ xs) \<union> rt_seqno ` set ts = (eseqno ` set es \<union> rt_seqno ` set ts) \<union> eseqno ` set xs" by auto
  then show "top_seqno (es @ xs) ts = max (top_seqno es ts) (Max (insert 0 (eseqno ` set xs)))"
    unfolding top_seqno_def by (simp only: top finite_UnI finite_imageI finite_set)
  have "eseqno ` set es \<union> rt_seqno ` set (ts @ us) = (eseqno ` set es \<union> rt_seqno ` set ts) \<union> rt_seqno ` set us" by auto
  then show "top_seqno es (ts @ us) = max (top_seqno es ts) (Max (insert 0 (rt_seqno ` set us)))"
    unfolding top_seqno_def by (simp only: top finite_UnI finite_imageI finite_set)
qed

lemma top_seqno_one: "top_seqno (es @ [e]) ts = max (top_seqno es ts) (eseqno e)" "top_seqno es (ts @ [t]) = max (top_seqno es ts) (rt_seqno t)"
  by (simp_all add: top_seqno_append)

lemma entry_eta [simp]: "\<lparr>key = key e, val = val e\<rparr> = e"
  by simp

lemma insert_items_inserts: "insert_items h kv_algo es st = sl_inserts (map (\<lambda>e. (key e, val e, insert_digest h kv_algo e)) es) st"
  by (induction es arbitrary: st) simp_all

context user_comparator begin

lemma items_step:
  assumes "sl_ok st" "sl_comparator st = cmp" "mset (sl_entries st) = mset es"
  shows "sl_ok (sl_inserts puts st)" "sl_comparator (sl_inserts puts st) = cmp"
    "mset (sl_entries (sl_inserts puts st)) = mset (es @ map put_value puts)"
  using inserts_ok [OF assms(1,2), of puts] assms(3) by (simp_all add: put_entries_mset)

lemma mt_step_ok:
  assumes ok: "mt_ok cmp es ts mt"
  shows "\<exists>mt'. mt_step sz h op mt = Some mt' \<and> mt_ok cmp (es @ op_entries op) (ts @ op_tombstones cmp op) mt'"
proof -
  have mt: "mt_comparator mt = cmp" "sl_ok (mt_items mt)" "sl_comparator (mt_items mt) = cmp" "mset (sl_entries (mt_items mt)) = mset es"
    "it_wf (mt_tombstones mt)" "set (inorder (it_root (mt_tombstones mt))) = set ts"
    "highest_seqno mt = top_seqno es ts" using ok by (simp_all add: mt_ok_def)
  note items = items_step [OF mt(2-4)]
  show ?thesis
  proof (cases op)
    case (Put e)
    show ?thesis using mt items [of "[(key e, val e, None)]"] top_seqno_one(1) [of es e ts]
      by (simp add: Put mt_insert_def sl_insert_def mt_ok_def Let_def)
  next
    case (PutDigest e d)
    show ?thesis using mt items [of "[(key e, val e, d)]"] top_seqno_one(1) [of es e ts]
      by (simp add: PutDigest mt_insert_with_kv_digest_def mt_ok_def Let_def)
  next
    case (PutBatch xs algo)
    obtain n m where n: "batch_totals sz xs (0, 0) = (n, m)" by (cases "batch_totals sz xs (0, 0)")
    then have "top_seqno (es @ xs) ts = max (top_seqno es ts) m" using batch_totals_seqno [of sz xs "(0, 0)"] by (simp add: top_seqno_append)
    moreover note items [of "map (\<lambda>e. (key e, val e, insert_digest h algo e)) xs", folded insert_items_inserts]
    ultimately show ?thesis using ok mt n
      by (cases "xs = []") (simp_all add: PutBatch insert_batch_with_kv_algo_def mt_ok_def Let_def comp_def)
  next
    case (PutRange a b s)
    let ?t = "\<lparr>rt_start = a, rt_end = b, rt_seqno = s\<rparr>"
    obtain tree where tree: "it_insert cmp (mt_tombstones mt) ?t = Some tree" "it_wf tree"
      "set (inorder (it_root tree)) = insert ?t (set ts)" using it_insert_law [OF mt(5), of ?t] mt(6) by auto
    then show ?thesis using ok mt top_seqno_one(2) [of es ts ?t]
      by (simp add: PutRange insert_range_tombstone_def mt_ok_def Let_def not_less)
  next
    case FlagRotated
    then show ?thesis using ok by (simp add: flag_rotated_def mt_ok_def)
  qed
qed

lemma mt_run_ok:
  "mt_ok cmp es ts mt \<Longrightarrow>
     \<exists>mt'. mt_run sz h ops mt = Some mt' \<and> mt_ok cmp (es @ written ops) (ts @ deleted_ranges cmp ops) mt'"
proof (induction ops arbitrary: es ts mt)
  case (Cons op ops)
  from mt_step_ok [OF Cons.prems] obtain mt1 where one: "mt_step sz h op mt = Some mt1" "mt_ok cmp (es @ op_entries op) (ts @ op_tombstones cmp op) mt1"
    by blast
  from Cons.IH [OF one(2)] one(1) show ?case by simp
qed simp

lemma mt_new_ok:
  assumes "bytewise \<longrightarrow> cmp = default_compare"
  shows "mt_ok cmp [] [] (mt_new i cmp bytewise seed)"
  using sl_new_ok [OF assms, of seed] it_new_wf by (simp add: mt_ok_def mt_new_def top_seqno_def)

lemma mt_suppressed:
  assumes "mt_ok cmp es ts mt"
  shows "is_key_suppressed_by_range_tombstone mt k kq rq \<longleftrightarrow> (\<exists>t\<in>set ts. should_suppress_with cmp t k kq rq)"
proof -
  have "mt_comparator mt = cmp" "it_wf (mt_tombstones mt)" "set (inorder (it_root (mt_tombstones mt))) = set ts"
    using assms by (simp_all add: mt_ok_def)
  then show ?thesis using any_overlapping_law [of "it_root (mt_tombstones mt)" k kq rq]
    by (simp add: is_key_suppressed_by_range_tombstone_def query_suppression_def it_wf_def)
qed

lemma mt_highest:
  assumes "mt_ok cmp es ts mt"
  shows "get_highest_seqno mt = (if es = [] \<and> ts = [] then None else Some (top_seqno es ts))" "mt_len mt = length es"
proof -
  have mt: "sl_ok (mt_items mt)" "mset (sl_entries (mt_items mt)) = mset es" "it_wf (mt_tombstones mt)"
    "set (inorder (it_root (mt_tombstones mt))) = set ts" "highest_seqno mt = top_seqno es ts" using assms by (simp_all add: mt_ok_def)
  show len: "mt_len mt = length es" using mt(1) mset_eq_length [OF mt(2)] by (simp add: mt_len_def sl_ok_def sl_entries_def)
  have "it_len (mt_tombstones mt) = 0 \<longleftrightarrow> ts = []" using mt(3,4) by (auto simp: it_wf_def)
  then show "get_highest_seqno mt = (if es = [] \<and> ts = [] then None else Some (top_seqno es ts))"
    using len mt(5) by (simp add: get_highest_seqno_def mt_is_empty_def range_tombstone_count_def sl_is_empty_def mt_len_def)
qed

end

lemma le_minus_one: "s \<noteq> 0 \<Longrightarrow> x \<le> s - 1 \<longleftrightarrow> x < (s :: seqno)"
proof -
  assume "s \<noteq> 0"
  then have "unat (s - 1) = unat s - 1" "0 < unat s" by (simp_all add: unat_minus_one word_neq_0_conv unat_gt_0)
  then show ?thesis by (simp add: word_le_nat_alt word_less_nat_alt) linarith
qed

text \<open>What a snapshot read at \<open>s\<close> finds among the entries \<open>es\<close>: the newest version below \<open>s\<close>.\<close>

definition newest_below :: "internal_value list \<Rightarrow> user_key \<Rightarrow> seqno \<Rightarrow> internal_value option \<Rightarrow> bool" where
  "newest_below es k s r =
     (case r of
        None \<Rightarrow> \<forall>x\<in>set es. ukey x = k \<longrightarrow> s \<le> eseqno x
      | Some e \<Rightarrow> e \<in> set es \<and> ukey e = k \<and> eseqno e < s \<and>
          (\<forall>x\<in>set es. ukey x = k \<and> eseqno x < s \<longrightarrow> eseqno x \<le> eseqno e))"

lemma mt_get_newest:
  assumes c: "user_comparator c" and ok: "mt_ok c es ts mt"
  shows "newest_below es k s (mt_get mt k s)"
proof (cases "s = 0")
  case False
  have mt: "sl_ok (mt_items mt)" "sl_comparator (mt_items mt) = c" "set (sl_entries (mt_items mt)) = set es"
    using ok mset_eq_setD by (auto simp: mt_ok_def)
  have "s - 1 < x \<longleftrightarrow> s \<le> x" for x using le_minus_one [OF False, of x] by (simp add: not_le [symmetric])
  then show ?thesis
    using user_comparator.point_get_newest [OF c mt(1,2), of k "s - 1"]
    by (simp add: newest_below_def mt_get_def mt(3) False le_minus_one [OF False] split: option.splits)
qed (simp add: newest_below_def mt_get_def)

subsection \<open>Properties\<close>

text \<open>
  C3: a memtable answers as the history of its writes says, whatever single and batch inserts, digests,
  range deletions and rotations it has seen. No operation panics; a point read at a snapshot returns the
  newest version of the key below it; a key is reported as deleted by range exactly when an accepted
  range tombstone suppresses it; the tombstones to flush are the accepted ones; the length counts the
  entries, and the highest sequence number is that of everything written, absent only if nothing was.
\<close>

theorem memtable_reads:
  assumes "user_comparator c" "bytewise \<longrightarrow> c = default_compare"
  shows "\<exists>mt. mt_run sz h ops (mt_new i c bytewise seed) = Some mt \<and>
    (\<forall>k s. newest_below (written ops) k s (mt_get mt k s)) \<and>
    (\<forall>k kq rq. is_key_suppressed_by_range_tombstone mt k kq rq \<longleftrightarrow>
       (\<exists>t\<in>set (deleted_ranges c ops). should_suppress_with c t k kq rq)) \<and>
    set (range_tombstones_sorted mt) = set (deleted_ranges c ops) \<and> mt_len mt = length (written ops) \<and>
    get_highest_seqno mt =
      (if written ops = [] \<and> deleted_ranges c ops = [] then None else Some (top_seqno (written ops) (deleted_ranges c ops)))"
proof -
  obtain mt where mt: "mt_run sz h ops (mt_new i c bytewise seed) = Some mt" "mt_ok c (written ops) (deleted_ranges c ops) mt"
    using user_comparator.mt_run_ok [OF assms(1) user_comparator.mt_new_ok [OF assms]] by force
  have "set (range_tombstones_sorted mt) = set (deleted_ranges c ops)"
    using mt(2) by (simp add: range_tombstones_sorted_def iter_sorted_def inorder_push_eq mt_ok_def)
  then show ?thesis using mt mt_get_newest [OF assms(1) mt(2)] user_comparator.mt_suppressed [OF assms(1) mt(2)]
      user_comparator.mt_highest [OF assms(1) mt(2)] by blast
qed

theorem memtable_reads_witness:
  "let e = \<lparr>key = \<lparr>user_key = [3], seqno = 4, value_type = Value\<rparr>, val = [7]\<rparr>
   in \<exists>mt. mt_run \<lparr>item_overhead = 40, rt_overhead = 60\<rparr> \<lparr>h_xxh3 = (\<lambda>_. 0), h_crc32c = None\<rparr>
        [Put e, PutRange [2] [5] 9] (mt_new 0 default_compare True 1) = Some mt \<and>
      newest_below [e] [3] 5 (mt_get mt [3] 5) \<and> get_highest_seqno mt = Some 9"
proof -
  let ?e = "\<lparr>key = \<lparr>user_key = [3], seqno = 4, value_type = Value\<rparr>, val = [7]\<rparr>"
  have "top_seqno [?e] [\<lparr>rt_start = [2], rt_end = [5], rt_seqno = 9\<rparr>] = 9" by (simp add: top_seqno_def)
  then show ?thesis
    using memtable_reads [OF user_comparator_default, of True "\<lparr>item_overhead = 40, rt_overhead = 60\<rparr>"
      "\<lparr>h_xxh3 = (\<lambda>_. 0), h_crc32c = None\<rparr>" "[Put ?e, PutRange [2] [5] 9]" 0 1]
    by (auto simp: default_compare_def ord_cmp_def)
qed

text \<open>
  C8: scans of a memtable. If no two entries written have the same key and sequence number, then the
  iterator over all entries and the one over any range of internal keys behave, under every interleaving
  of calls from the front and from the back, as deques over the entries in their bounds, in the order of
  internal keys.
\<close>

theorem memtable_range:
  assumes "user_comparator c" "bytewise \<longrightarrow> c = default_compare"
    and run: "mt_run sz h ops (mt_new i c bytewise seed) = Some mt"
    and dist: "distinct (map (\<lambda>e. (ukey e, eseqno e)) (written ops))"
  shows "\<exists>es. mset es = mset (written ops) \<and> version_sorted c es \<and>
    (\<forall>ds. fst (iter_run iter_next iter_next_back ds (mt_iter mt)) = fst (deque_run ds es)) \<and>
    (\<forall>ds lo hi. fst (iter_run range_next range_next_back ds (range_internal mt lo hi)) =
       fst (deque_run ds (filter (\<lambda>e. in_key_bounds c lo hi (key e)) es)))"
proof -
  let ?st = "mt_items mt"
  have mt: "sl_ok ?st" "sl_comparator ?st = c" "mset (sl_entries ?st) = mset (written ops)"
    using user_comparator.mt_run_ok [OF assms(1) user_comparator.mt_new_ok [OF assms(1,2)], of sz h ops i seed] run by (auto simp: mt_ok_def)
  have c: "user_comparator (sl_comparator ?st)" using assms(1) mt(2) by simp
  have "mset (map (\<lambda>e. (ukey e, eseqno e)) (sl_entries ?st)) = mset (map (\<lambda>e. (ukey e, eseqno e)) (written ops))"
    using mt(3) by (simp only: mset_map)
  then have "distinct (map (\<lambda>e. (ukey e, eseqno e)) (sl_entries ?st))" using dist mset_eq_imp_distinct_iff by blast
  then have st: "sl_distinct ?st" by (rule sl_distinctI [OF mt(1) c])
  have lexi: "lexicographic_ok ?st" using mt(1) by (simp add: sl_ok_def)
  have "version_sorted c (sl_entries ?st)"
    using st unfolding sl_distinct_def sl_entries_def sorted_wrt_map entry_before_def key_node_entry compare_key_with(2) [OF lexi] mt(2) by simp
  moreover have "fst (iter_run iter_next iter_next_back ds (mt_iter mt)) = fst (deque_run ds (sl_entries ?st))" for ds
    using full_iter.run_refines [OF iter_items(1) [OF st c], of ds] iter_items(2) [OF st c]
    by (metis mt_iter_def fst_conv prod.collapse)
  moreover have "fst (iter_run range_next range_next_back ds (range_internal mt lo hi)) =
       fst (deque_run ds (filter (\<lambda>e. in_key_bounds c lo hi (key e)) (sl_entries ?st)))" for ds lo hi
    using range_iter.run_refines [OF range_of_items(1) [OF st c, of lo hi], of ds] range_of_items(2) [OF st c, of lo hi] mt(2)
    by (metis range_internal_def fst_conv prod.collapse)
  ultimately show ?thesis using mt(3) by blast
qed

theorem memtable_range_witness:
  "let e = (\<lambda>k s. \<lparr>key = \<lparr>user_key = [k], seqno = s, value_type = Value\<rparr>, val = []\<rparr>);
       mt = the (mt_run \<lparr>item_overhead = 40, rt_overhead = 60\<rparr> \<lparr>h_xxh3 = (\<lambda>_. 0), h_crc32c = None\<rparr>
         [Put (e 2 4), Put (e 1 6), Put (e 2 5)] (mt_new 0 default_compare True 1))
   in \<exists>es. mset es = {#e 2 4, e 1 6, e 2 5#} \<and> version_sorted default_compare es \<and>
      fst (iter_run iter_next iter_next_back [Back, Front, Back, Back] (mt_iter mt)) = fst (deque_run [Back, Front, Back, Back] es)"
proof -
  let ?e = "\<lambda>k s. \<lparr>key = \<lparr>user_key = [k], seqno = s, value_type = Value\<rparr>, val = []\<rparr>"
  let ?ops = "[Put (?e 2 4), Put (?e 1 6), Put (?e 2 5)]"
  obtain mt where mt: "mt_run \<lparr>item_overhead = 40, rt_overhead = 60\<rparr> \<lparr>h_xxh3 = (\<lambda>_. 0), h_crc32c = None\<rparr> ?ops
    (mt_new 0 default_compare True 1) = Some mt" by simp
  have "distinct (map (\<lambda>e. (ukey e, eseqno e)) (written ?ops))" by simp
  from memtable_range [OF user_comparator_default _ mt this] obtain es where
    es: "mset es = mset (written ?ops)" "version_sorted default_compare es"
    "\<forall>ds. fst (iter_run iter_next iter_next_back ds (mt_iter mt)) = fst (deque_run ds es)" by auto
  have "mset (written ?ops) = {#?e 2 4, ?e 1 6, ?e 2 5#}" by simp
  with es mt show ?thesis unfolding Let_def mt option.sel by metis
qed


subsection \<open>Residence digests\<close>

fun op_puts :: "hashers \<Rightarrow> mt_op \<Rightarrow> sl_put list" where
  "op_puts h (Put e) = [(key e, val e, None)]"
| "op_puts h (PutDigest e d) = [(key e, val e, d)]"
| "op_puts h (PutBatch es algo) = map (\<lambda>e. (key e, val e, insert_digest h algo e)) es"
| "op_puts h _ = []"

abbreviation puts_of :: "hashers \<Rightarrow> mt_op list \<Rightarrow> sl_put list" where
  "puts_of h ops \<equiv> concat (map (op_puts h) ops)"

text \<open>The digests a writer hands in: of 4 bytes and computed from the entry. Batches compute their own.\<close>

fun op_digests_ok :: "hashers \<Rightarrow> mt_op \<Rightarrow> bool" where
  "op_digests_ok h (PutDigest e d) =
     (case d of None \<Rightarrow> True | Some (x, algo) \<Rightarrow> digest_size algo = 4 \<and> map_option ucast (kv_digest h e algo) = Some x)"
| "op_digests_ok h (PutBatch es algo) = (case algo of None \<Rightarrow> True | Some a \<Rightarrow> digest_size a = 4)"
| "op_digests_ok h _ = True"

lemma sl_inserts_append: "sl_inserts (xs @ ys) st = sl_inserts ys (sl_inserts xs st)"
  by (induction xs st rule: sl_inserts.induct) simp_all

lemma mt_step_items:
  assumes "mt_step sz h op mt = Some mt'"
  shows "mt_items mt' = sl_inserts (op_puts h op) (mt_items mt) \<and>
    (has_at_insert_digests mt' \<or> \<not> has_at_insert_digests mt \<and> (\<forall>(k, v, d)\<in>set (op_puts h op). d = None))"
proof (cases op)
  case (PutBatch es algo)
  then show ?thesis using assms
    by (cases algo) (auto simp: insert_batch_with_kv_algo_def Let_def insert_items_inserts insert_digest_def split: prod.splits if_splits)
next
  case (PutDigest e d)
  then show ?thesis using assms by (cases d) (auto simp: mt_insert_with_kv_digest_def Let_def)
next
  case (PutRange a b s)
  then show ?thesis using assms by (auto simp: insert_range_tombstone_def Let_def split: if_splits option.splits)
qed (use assms in \<open>auto simp: mt_insert_def sl_insert_def flag_rotated_def Let_def\<close>)

lemma mt_run_items:
  "mt_run sz h ops mt = Some mt' \<Longrightarrow>
     mt_items mt' = sl_inserts (puts_of h ops) (mt_items mt) \<and>
     (has_at_insert_digests mt' \<or> \<not> has_at_insert_digests mt \<and> (\<forall>(k, v, d)\<in>set (puts_of h ops). d = None))"
proof (induction ops arbitrary: mt)
  case (Cons op ops)
  then obtain mt1 where mt1: "mt_step sz h op mt = Some mt1" "mt_run sz h ops mt1 = Some mt'" by (auto split: option.splits)
  from Cons.IH [OF mt1(2)] mt_step_items [OF mt1(1)] show ?case by (auto simp: sl_inserts_append)
qed simp

lemma puts_verify:
  assumes "\<forall>op\<in>set ops. op_digests_ok h op" "p \<in> set (puts_of h ops)" "holds_put p nd"
  shows "verify_node h nd = Inr ()"
proof -
  obtain k v d where p: "p = (k, v, d)" by (cases p) auto
  obtain op where op: "op \<in> set ops" "(k, v, d) \<in> set (op_puts h op)" "op_digests_ok h op" using assms(1,2) p by auto
  have "n_value nd = v" using assms(3) p by simp
  then have nd: "nd\<lparr>n_value := v\<rparr> = nd" by simp
  have "d = None \<or> (\<exists>x algo r. d = Some (x, algo) \<and> digest_size algo = 4 \<and> kv_digest h \<lparr>key = k, val = v\<rparr> algo = Some r \<and> x = ucast r)"
  proof (cases op)
    case (PutBatch es algo)
    then obtain e where e: "k = key e" "v = val e" "d = insert_digest h algo e" using op(2) by auto
    then show ?thesis using PutBatch op(3) by (cases algo; cases "kv_digest h e (the algo)") (simp_all add: insert_digest_def)
  qed (use op(2,3) in \<open>auto split: option.splits\<close>)
  then show ?thesis using verify_node_put [of k v d nd h v] assms(3) p nd by auto
qed

text \<open>
  C17: the residence check. If the digests handed in with entries are those of the entries, under a
  4-byte algorithm, then a memtable passes its check after every history of writes; and if afterwards the
  value of a node with a digest changes to one with another digest, the check fails with the mismatch
  error naming the sequence number of that entry and both digests.
\<close>

theorem memtable_residence:
  assumes "user_comparator c" "bytewise \<longrightarrow> c = default_compare"
    and run: "mt_run sz h ops (mt_new i c bytewise seed) = Some mt" and digests: "\<forall>op\<in>set ops. op_digests_ok h op"
  shows "verify_kv_residence h mt = Inr () \<and>
    (\<forall>n v stored algo r. n \<in> set (level0 (mt_items mt)) \<and> read_kv_digest (sl_nodes (mt_items mt) ! n) = Present stored algo \<and>
       kv_digest h \<lparr>key = n_key (sl_nodes (mt_items mt) ! n), val = v\<rparr> algo = Some r \<and> ucast r \<noteq> stored \<longrightarrow>
       verify_kv_residence h (mt\<lparr>mt_items := corrupt_value n v (mt_items mt)\<rparr>) =
         Inl (MemtableKvChecksumMismatch (seqno (n_key (sl_nodes (mt_items mt) ! n))) (ucast (ucast r :: u32)) (ucast stored)))"
proof -
  let ?st = "mt_items mt"
  have items: "?st = sl_inserts (puts_of h ops) (sl_new c bytewise seed)"
    and flag: "has_at_insert_digests mt \<or> (\<forall>(k, v, d)\<in>set (puts_of h ops). d = None)"
    using mt_run_items [OF run] by (auto simp: mt_new_def)
  have new: "level0 (sl_new c bytewise seed) = []" using sl_new_ok(2) [OF assms(2), of seed] by (simp add: sl_entries_def)
  have ok: "sl_ok ?st"
    using user_comparator.inserts_ok [OF assms(1) sl_new_ok(1) [OF assms(2)] sl_new_ok(3) [OF assms(2)]] by (simp add: items)
  then have lev: "leveled ?st (level0 ?st)" by (simp add: sl_ok_def)
  have holds: "\<exists>p\<in>set (puts_of h ops). holds_put p (sl_nodes ?st ! n)" if "n \<in> set (level0 ?st)" for n
    using user_comparator.inserts_nodes [OF assms(1), of "sl_new c bytewise seed" "set (puts_of h ops)" "puts_of h ops"]
      sl_new_ok [OF assms(2), of seed] that new by (simp add: items)
  then have intact: "verify_node h (sl_nodes ?st ! n) = Inr ()" if "n \<in> set (level0 ?st)" for n
    using puts_verify [OF digests] that by blast
  then have "verify_kv_digests h ?st = Inr ()" unfolding verify_first_error [OF lev] by (intro first_error_ok) auto
  moreover have "verify_kv_residence h (mt\<lparr>mt_items := corrupt_value n v ?st\<rparr>) =
      Inl (MemtableKvChecksumMismatch (seqno (n_key (sl_nodes ?st ! n))) (ucast (ucast r :: u32)) (ucast stored))"
    if n: "n \<in> set (level0 ?st)" and present: "read_kv_digest (sl_nodes ?st ! n) = Present stored algo"
      and r: "kv_digest h \<lparr>key = n_key (sl_nodes ?st ! n), val = v\<rparr> algo = Some r" "ucast r \<noteq> stored" for n v stored algo r
  proof -
    obtain k w d where p: "(k, w, d) \<in> set (puts_of h ops)" "holds_put (k, w, d) (sl_nodes ?st ! n)"
      using holds [OF n] by (metis prod_cases3)
    have d: "d = Some (stored, algo)" "digest_size algo = 4" "n_key (sl_nodes ?st ! n) = k"
      using packed_digest(1) [of "sl_nodes ?st ! n" "value_type k" d] p(2) present by (auto split: option.splits if_splits)
    obtain as bs where ns: "level0 ?st = as @ n # bs" "n \<notin> set as" using split_list_first [OF n] by blast
    have "n < length (sl_nodes ?st)" using lev n by (auto simp: leveled_def)
    then have "verify_node h (sl_nodes (corrupt_value n v ?st) ! n) =
        Inl (MemtableKvChecksumMismatch (seqno k) (ucast (ucast r :: u32)) (ucast stored))"
      using verify_node_put [OF p(2), of h v] r d by (simp add: corrupt_value_def)
    moreover have "sl_nodes (corrupt_value n v ?st) ! m = sl_nodes ?st ! m" if "m \<in> set as" for m
      using ns(2) that by (auto simp: corrupt_value_def list_update_nth)
    ultimately have "verify_kv_digests h (corrupt_value n v ?st) =
        Inl (MemtableKvChecksumMismatch (seqno k) (ucast (ucast r :: u32)) (ucast stored))"
      unfolding verify_first_error [OF leveled_corrupt [OF lev]] ns(1)
      using intact ns(1) by (auto intro!: first_error_at)
    moreover have "has_at_insert_digests mt" using flag p(1) d(1) by auto
    ultimately show ?thesis using d(3) by (simp add: verify_kv_residence_def)
  qed
  ultimately show ?thesis by (auto simp: verify_kv_residence_def)
qed

theorem memtable_residence_witness:
  "let e = \<lparr>key = \<lparr>user_key = [3], seqno = 4, value_type = Value\<rparr>, val = [7]\<rparr>; h = \<lparr>h_xxh3 = (\<lambda>bs. of_nat (length bs)), h_crc32c = None\<rparr>;
       mt = the (mt_run \<lparr>item_overhead = 40, rt_overhead = 60\<rparr> h [PutBatch [e] (Some Xxh3Low32)] (mt_new 0 default_compare True 1))
   in verify_kv_residence h mt = Inr () \<and>
      verify_kv_residence h (mt\<lparr>mt_items := corrupt_value 1 [] (mt_items mt)\<rparr>) = Inl (MemtableKvChecksumMismatch 4 14 15)"
proof -
  let ?e = "\<lparr>key = \<lparr>user_key = [3], seqno = 4, value_type = Value\<rparr>, val = [7]\<rparr>" and ?h = "\<lparr>h_xxh3 = (\<lambda>bs. of_nat (length bs)), h_crc32c = None\<rparr>"
  let ?run = "mt_run \<lparr>item_overhead = 40, rt_overhead = 60\<rparr> ?h [PutBatch [?e] (Some Xxh3Low32)] (mt_new 0 default_compare True 1)"
  obtain mt where mt: "?run = Some mt" by simp
  have "\<forall>op\<in>set [PutBatch [?e] (Some Xxh3Low32)]. op_digests_ok ?h op" by (simp add: digest_size_def)
  note residence = memtable_residence [OF user_comparator_default _ mt this]
  have "level0 (mt_items (the ?run)) = [1]" by code_simp
  moreover have "read_kv_digest (sl_nodes (mt_items (the ?run)) ! 1) = Present 15 Xxh3Low32" by code_simp
  moreover have "n_key (sl_nodes (mt_items (the ?run)) ! 1) = key ?e" by code_simp
  moreover have "kv_digest ?h \<lparr>key = key ?e, val = []\<rparr> Xxh3Low32 = Some 14" by code_simp
  moreover note residence [THEN conjunct1] and
    residence [THEN conjunct2, THEN spec [of _ 1], THEN spec [of _ "[]"], THEN spec [of _ 15], THEN spec [of _ Xxh3Low32], THEN spec [of _ 14]]
  ultimately show ?thesis unfolding Let_def mt option.sel by simp
qed

end
