(* ===== verification/Point_Reads.thy ===== *)
theory Point_Reads
  imports Runs Super_Versions Memtable
begin

text \<open>
  The point read path of \<open>tree/mod.rs\<close> and the list of sealed memtables of \<open>tree/sealed.rs\<close>: a read at a
  snapshot asks the active memtable, the sealed memtables from the newest on, and the tables level by
  level, stops at the first source that knows the key, and then asks every source for a range tombstone
  over what it found. Reading an entry from the blocks of a table is a parameter: the record
  \<open>table_point_lookup\<close> is the trait of that name, its first field the lookup in one table. The hash of the
  key only selects filter bits inside that lookup and is left out.
\<close>

subsection \<open>Tables and lookups\<close>

record 'b table =
  t_key_range :: key_range
  t_range_tombstones :: "range_tombstone list"
  t_blocks :: 'b

type_synonym 'b levels = "'b table list list list"
type_synonym 'b read_view = "(memtable, 'b levels) super_version"

record ('b, 'r) table_point_lookup =
  lookup :: "'b table \<Rightarrow> user_key \<Rightarrow> seqno \<Rightarrow> lsm_error + 'r option"
  entry_seqno :: "'r \<Rightarrow> seqno"
  filter_tombstone :: "'r \<Rightarrow> 'r option"

definition ignore_tombstone_value :: "internal_value \<Rightarrow> internal_value option" where
  "ignore_tombstone_value item = (if is_tombstone item then None else Some item)"

definition entry_lookup ::
  "('b table \<Rightarrow> user_key \<Rightarrow> seqno \<Rightarrow> lsm_error + internal_value option) \<Rightarrow> ('b, internal_value) table_point_lookup" where
  "entry_lookup get = \<lparr>lookup = get, entry_seqno = eseqno, filter_tombstone = ignore_tombstone_value\<rparr>"

type_synonym table_value_item = "value_type \<times> seqno \<times> user_value"

definition value_lookup ::
  "('b table \<Rightarrow> user_key \<Rightarrow> seqno \<Rightarrow> lsm_error + table_value_item option) \<Rightarrow> ('b, table_value_item) table_point_lookup" where
  "value_lookup get =
     \<lparr>lookup = get, entry_seqno = (\<lambda>(_, s, _). s),
      filter_tombstone = (\<lambda>(t, s, v). if is_tombstone_type t then None else Some (t, s, v))\<rparr>"

subsection \<open>Sealed memtables\<close>

definition sealed_add :: "memtable list \<Rightarrow> memtable \<Rightarrow> memtable list" where
  "sealed_add ms mt = ms @ [mt]"

definition sealed_remove :: "memtable list \<Rightarrow> u64 \<Rightarrow> memtable list" where
  "sealed_remove ms id_to_remove = filter (\<lambda>mt. mt_id mt \<noteq> id_to_remove) ms"

fun first_hit :: "user_key \<Rightarrow> seqno \<Rightarrow> memtable list \<Rightarrow> internal_value option" where
  "first_hit k s [] = None"
| "first_hit k s (mt # ms) = (case mt_get mt k s of Some e \<Rightarrow> Some e | None \<Rightarrow> first_hit k s ms)"

definition get_internal_entry_from_sealed_memtables :: "'b read_view \<Rightarrow> user_key \<Rightarrow> seqno \<Rightarrow> internal_value option" where
  "get_internal_entry_from_sealed_memtables sv k s = first_hit k s (rev (sealed_memtables sv))"

subsection \<open>The walk through the levels\<close>

text \<open>Level 0: every run, the highest sequence number wins; a hit right below the snapshot ends the search.\<close>

fun l0_search ::
  "('b, 'r) table_point_lookup \<Rightarrow> comparator \<Rightarrow> user_key \<Rightarrow> seqno \<Rightarrow> 'b table list list \<Rightarrow> 'r option \<Rightarrow> lsm_error + 'r option" where
  "l0_search pl c k s [] best = Inr best"
| "l0_search pl c k s (run # runs) best =
     (case get_for_key_cmp c t_key_range k run of
        None \<Rightarrow> l0_search pl c k s runs best
      | Some t \<Rightarrow>
          (case lookup pl t k s of
             Inl e \<Rightarrow> Inl e
           | Inr None \<Rightarrow> l0_search pl c k s runs best
           | Inr (Some item) \<Rightarrow>
               if (case best of Some current \<Rightarrow> entry_seqno pl item \<le> entry_seqno pl current | None \<Rightarrow> False)
               then l0_search pl c k s runs best
               else if entry_seqno pl item \<noteq> - 1 \<and> entry_seqno pl item + 1 = s then Inr (Some item)
               else l0_search pl c k s runs (Some item)))"

text \<open>Every other level: the first run with a table over the key decides.\<close>

fun level_search ::
  "('b, 'r) table_point_lookup \<Rightarrow> comparator \<Rightarrow> user_key \<Rightarrow> seqno \<Rightarrow> 'b table list list \<Rightarrow> lsm_error + 'r option" where
  "level_search pl c k s [] = Inr None"
| "level_search pl c k s (run # runs) =
     (case get_for_key_cmp c t_key_range k run of
        None \<Rightarrow> level_search pl c k s runs
      | Some t \<Rightarrow> lookup pl t k s)"

fun lower_levels ::
  "('b, 'r) table_point_lookup \<Rightarrow> comparator \<Rightarrow> user_key \<Rightarrow> seqno \<Rightarrow> 'b levels \<Rightarrow> lsm_error + 'r option" where
  "lower_levels pl c k s [] = Inr None"
| "lower_levels pl c k s (level # levels) =
     (case level_search pl c k s level of
        Inl e \<Rightarrow> Inl e
      | Inr (Some item) \<Rightarrow> Inr (filter_tombstone pl item)
      | Inr None \<Rightarrow> lower_levels pl c k s levels)"

fun find_in_tables ::
  "('b, 'r) table_point_lookup \<Rightarrow> comparator \<Rightarrow> user_key \<Rightarrow> seqno \<Rightarrow> 'b levels \<Rightarrow> lsm_error + 'r option" where
  "find_in_tables pl c k s [] = Inr None"
| "find_in_tables pl c k s (level # levels) =
     (case l0_search pl c k s level None of
        Inl e \<Rightarrow> Inl e
      | Inr (Some item) \<Rightarrow> Inr (filter_tombstone pl item)
      | Inr None \<Rightarrow> lower_levels pl c k s levels)"

subsection \<open>Suppression by range tombstones\<close>

definition table_suppresses :: "comparator \<Rightarrow> user_key \<Rightarrow> seqno \<Rightarrow> seqno \<Rightarrow> 'b table \<Rightarrow> bool" where
  "table_suppresses c k key_seqno read_seqno t \<longleftrightarrow>
     (let rts = t_range_tombstones t; kr = t_key_range t
      in rts \<noteq> [] \<and> c (kr_min kr) k \<noteq> Greater \<and> c k (kr_max kr) \<noteq> Greater \<and>
         list_ex (\<lambda>rt. visible_at rt read_seqno \<and> c (rt_start rt) k \<noteq> Greater \<and> c k (rt_end rt) = Less \<and> key_seqno < rt_seqno rt)
           (take (partition_point (\<lambda>rt. c (rt_start rt) k \<noteq> Greater) rts) rts))"

definition is_suppressed_by_range_tombstones :: "'b read_view \<Rightarrow> user_key \<Rightarrow> seqno \<Rightarrow> seqno \<Rightarrow> comparator \<Rightarrow> bool" where
  "is_suppressed_by_range_tombstones sv k key_seqno read_seqno c \<longleftrightarrow>
     is_key_suppressed_by_range_tombstone (active_memtable sv) k key_seqno read_seqno \<or>
     list_ex (\<lambda>mt. is_key_suppressed_by_range_tombstone mt k key_seqno read_seqno) (rev (sealed_memtables sv)) \<or>
     list_ex (table_suppresses c k key_seqno read_seqno) (concat (concat (v_data (sv_version sv))))"

subsection \<open>The two reads\<close>

definition get_internal_entry_from_version ::
  "('b, internal_value) table_point_lookup \<Rightarrow> 'b read_view \<Rightarrow> user_key \<Rightarrow> seqno \<Rightarrow> comparator \<Rightarrow> lsm_error + internal_value option" where
  "get_internal_entry_from_version pl sv k s c =
     (let unless_suppressed = (\<lambda>e. if is_suppressed_by_range_tombstones sv k (eseqno e) s c then None else Some e)
      in case mt_get (active_memtable sv) k s of
           Some entry \<Rightarrow> Inr (Option.bind (ignore_tombstone_value entry) unless_suppressed)
         | None \<Rightarrow>
             (case get_internal_entry_from_sealed_memtables sv k s of
                Some entry \<Rightarrow> Inr (Option.bind (ignore_tombstone_value entry) unless_suppressed)
              | None \<Rightarrow>
                  (case find_in_tables pl c k s (v_data (sv_version sv)) of
                     Inl e \<Rightarrow> Inl e
                   | Inr found \<Rightarrow> Inr (Option.bind found unless_suppressed))))"

definition value_item :: "internal_value \<Rightarrow> table_value_item" where
  "value_item e = (etype e, eseqno e, val e)"

definition get_value ::
  "('b, table_value_item) table_point_lookup \<Rightarrow> 'b read_view \<Rightarrow> user_key \<Rightarrow> seqno \<Rightarrow> comparator \<Rightarrow> lsm_error + table_value_item option" where
  "get_value pl sv k s c =
     (let unless_suppressed = (\<lambda>e. if is_suppressed_by_range_tombstones sv k (eseqno e) s c then None else Some (value_item e))
      in case mt_get (active_memtable sv) k s of
           Some entry \<Rightarrow> Inr (Option.bind (ignore_tombstone_value entry) unless_suppressed)
         | None \<Rightarrow>
             (case get_internal_entry_from_sealed_memtables sv k s of
                Some entry \<Rightarrow> Inr (Option.bind (ignore_tombstone_value entry) unless_suppressed)
              | None \<Rightarrow>
                  (case find_in_tables pl c k s (v_data (sv_version sv)) of
                     Inl e \<Rightarrow> Inl e
                   | Inr None \<Rightarrow> Inr None
                   | Inr (Some (t, found_seqno, v)) \<Rightarrow>
                       Inr (if is_suppressed_by_range_tombstones sv k found_seqno s c then None else Some (t, found_seqno, v)))))"

lemma entry_lookup_simps [simp]:
  "lookup (entry_lookup get) = get" "entry_seqno (entry_lookup get) = eseqno"
  "filter_tombstone (entry_lookup get) = ignore_tombstone_value"
  by (simp_all add: entry_lookup_def)

subsection \<open>What the sources hold\<close>

text \<open>
  The entries of a table are what its lookup answers from. A table is in order when they lie within its
  key range, its range tombstones are sorted by start, and cover no key outside the range.
\<close>

type_synonym 'b contents = "'b table \<Rightarrow> internal_value list"

definition table_ok :: "comparator \<Rightarrow> 'b contents \<Rightarrow> 'b table \<Rightarrow> bool" where
  "table_ok c es t \<longleftrightarrow>
     (\<forall>e\<in>set (es t). in_range c (t_key_range t) (ukey e)) \<and>
     sorted_wrt (\<lambda>a b. kle c (rt_start a) (rt_start b)) (t_range_tombstones t) \<and>
     (\<forall>rt\<in>set (t_range_tombstones t). \<forall>k. contains_key_with c rt k \<longrightarrow> in_range c (t_key_range t) k)"

definition lookup_ok :: "('b, internal_value) table_point_lookup \<Rightarrow> 'b contents \<Rightarrow> 'b table \<Rightarrow> bool" where
  "lookup_ok pl es t \<longleftrightarrow> (\<forall>k s. \<exists>r. lookup pl t k s = Inr r \<and> newest_below (es t) k s r)"

definition level_entries :: "'b contents \<Rightarrow> 'b table list list \<Rightarrow> internal_value list" where
  "level_entries es level = concat (map es (concat level))"

text \<open>Below level 0, a key lies in the range of at most one table of a level.\<close>

definition level_disjoint :: "comparator \<Rightarrow> 'b table list list \<Rightarrow> bool" where
  "level_disjoint c level \<longleftrightarrow>
     sorted_wrt (\<lambda>t u. \<forall>k. \<not> (in_range c (t_key_range t) k \<and> in_range c (t_key_range u) k)) (concat level)"

definition levels_ok ::
  "('b, internal_value) table_point_lookup \<Rightarrow> comparator \<Rightarrow> 'b contents \<Rightarrow> 'b levels \<Rightarrow> bool" where
  "levels_ok pl c es levels \<longleftrightarrow>
     (\<forall>level\<in>set levels. \<forall>run\<in>set level. run_ok c t_key_range run \<and> (\<forall>t\<in>set run. table_ok c es t \<and> lookup_ok pl es t)) \<and>
     (\<forall>level\<in>set (tl levels). level_disjoint c level)"

text \<open>The sources of a read from the newest on, and that a newer one has no older version of a key.\<close>

definition mt_entries :: "memtable \<Rightarrow> internal_value list" where
  "mt_entries mt = sl_entries (mt_items mt)"

definition read_sources :: "'b contents \<Rightarrow> 'b read_view \<Rightarrow> internal_value list list" where
  "read_sources es sv =
     mt_entries (active_memtable sv) # map mt_entries (rev (sealed_memtables sv)) @
     map (level_entries es) (v_data (sv_version sv))"

definition no_newer :: "internal_value list \<Rightarrow> internal_value list \<Rightarrow> bool" where
  "no_newer xs ys \<longleftrightarrow> (\<forall>x\<in>set xs. \<forall>y\<in>set ys. ukey x = ukey y \<longrightarrow> eseqno y \<le> eseqno x)"

definition read_view_ok ::
  "('b, internal_value) table_point_lookup \<Rightarrow> comparator \<Rightarrow> 'b contents \<Rightarrow> 'b read_view \<Rightarrow> bool" where
  "read_view_ok pl c es sv \<longleftrightarrow>
     (\<forall>mt\<in>set (active_memtable sv # sealed_memtables sv). mt_ok c (mt_entries mt) (range_tombstones_sorted mt) mt) \<and>
     levels_ok pl c es (v_data (sv_version sv)) \<and> sorted_wrt no_newer (read_sources es sv)"

definition view_tombstones :: "'b read_view \<Rightarrow> range_tombstone list" where
  "view_tombstones sv =
     concat (map range_tombstones_sorted (active_memtable sv # sealed_memtables sv)) @
     concat (map t_range_tombstones (concat (concat (v_data (sv_version sv)))))"

subsection \<open>The newest version across sources\<close>

lemma newest_below_None: "newest_below es k s None \<longleftrightarrow> (\<forall>x\<in>set es. ukey x = k \<longrightarrow> s \<le> eseqno x)"
  by (simp add: newest_below_def)

lemma newest_below_Some:
  "newest_below es k s (Some e) \<longleftrightarrow> e \<in> set es \<and> ukey e = k \<and> eseqno e < s \<and>
     (\<forall>x\<in>set es. ukey x = k \<and> eseqno x < s \<longrightarrow> eseqno x \<le> eseqno e)"
  by (simp add: newest_below_def)

lemma newest_below_skip:
  assumes "newest_below xs k s None" "newest_below ys k s r"
  shows "newest_below (xs @ ys) k s r"
  using assms by (cases r) (auto simp: newest_below_None newest_below_Some not_less [symmetric])

lemma newest_below_first:
  assumes "newest_below xs k s (Some e)" "no_newer xs ys"
  shows "newest_below (xs @ ys) k s (Some e)"
  using assms by (auto simp: newest_below_Some no_newer_def)

lemma newest_below_skip_right:
  assumes "newest_below xs k s r" "newest_below ys k s None"
  shows "newest_below (xs @ ys) k s r"
  using assms by (cases r) (auto simp: newest_below_None newest_below_Some not_less [symmetric])

lemma newest_below_merge:
  assumes "newest_below xs k s best" "newest_below ys k s (Some e)"
  shows "case best of Some b \<Rightarrow> eseqno e \<le> eseqno b | None \<Rightarrow> False \<Longrightarrow> newest_below (xs @ ys) k s best"
    and "\<not> (case best of Some b \<Rightarrow> eseqno e \<le> eseqno b | None \<Rightarrow> False) \<Longrightarrow> newest_below (xs @ ys) k s (Some e)"
  using assms by (cases best; fastforce simp: newest_below_None newest_below_Some not_less [symmetric])+

text \<open>No version below \<open>s\<close> is newer than one right below \<open>s\<close>.\<close>

lemma newest_below_top:
  assumes "newest_below xs k s (Some e)" "set xs \<subseteq> set ys" "eseqno e + 1 = s"
  shows "newest_below ys k s (Some e)"
proof -
  have "x \<le> eseqno e" if "x < s" for x
    using le_minus_one [of s x] that assms(3) by fastforce
  then show ?thesis using assms(1,2) by (auto simp: newest_below_Some)
qed

text \<open>Where only one part of a source holds the key, reading that part is reading the source.\<close>

lemma newest_below_restrict:
  assumes "newest_below xs k s r" "set xs \<subseteq> set ys" "\<And>y. y \<in> set ys \<Longrightarrow> ukey y = k \<Longrightarrow> y \<in> set xs"
  shows "newest_below ys k s r"
proof (cases r)
  case None
  then show ?thesis using assms(1,3) unfolding newest_below_None None by blast
next
  case (Some e)
  then show ?thesis using assms unfolding newest_below_Some Some by blast
qed

lemma newest_below_absent: "\<forall>y\<in>set ys. ukey y \<noteq> k \<Longrightarrow> newest_below ys k s None"
  by (simp add: newest_below_None)

text \<open>The first source that knows the key decides.\<close>

fun first_source :: "internal_value option list \<Rightarrow> internal_value option" where
  "first_source [] = None"
| "first_source (r # rs) = (case r of Some e \<Rightarrow> Some e | None \<Rightarrow> first_source rs)"

lemma newest_below_sources:
  assumes "list_all2 (\<lambda>xs r. newest_below xs k s r) sources rs" "sorted_wrt no_newer sources"
  shows "newest_below (concat sources) k s (first_source rs)"
  using assms
proof (induction rule: list_all2_induct)
  case (Cons xs sources r rs)
  show ?case
  proof (cases r)
    case None
    then show ?thesis using Cons by (simp add: newest_below_skip)
  next
    case (Some e)
    moreover have "no_newer xs (concat sources)" using Cons.prems by (auto simp: no_newer_def)
    ultimately show ?thesis using Cons.hyps(1) by (simp add: newest_below_first)
  qed
qed (simp add: newest_below_None)

lemma first_source_append: "first_source (as @ bs) = (case first_source as of Some e \<Rightarrow> Some e | None \<Rightarrow> first_source bs)"
  by (induction as) (auto split: option.splits)

lemma first_hit_sources: "first_hit k s ms = first_source (map (\<lambda>mt. mt_get mt k s) ms)"
  by (induction ms) (auto split: option.splits)

subsection \<open>Levels\<close>

context user_comparator
begin

lemma run_owner:
  assumes "run_ok cmp kr run"
  shows "case get_for_key_cmp cmp kr k run of
      None \<Rightarrow> \<forall>u\<in>set run. \<not> in_range cmp (kr u) k
    | Some t \<Rightarrow> \<exists>as bs. run = as @ t # bs \<and> in_range cmp (kr t) k \<and> (\<forall>u\<in>set as \<union> set bs. \<not> in_range cmp (kr u) k)"
  using assms
proof (induction run)
  case (Cons t run)
  note ok = Cons.prems[unfolded run_ok_Cons]
  show ?case
  proof (cases "in_range cmp (kr t) k")
    case True
    have "\<not> in_range cmp (kr u) k" if "u \<in> set run" for u
    proof -
      have "klt cmp (kr_max (kr t)) (kr_min (kr u))" using ok that by blast
      moreover have "kle cmp k (kr_max (kr t))" using True by (simp add: in_range_def)
      ultimately have "klt cmp k (kr_min (kr u))" by (rule keys.le_less_trans [rotated])
      then show ?thesis by (simp add: in_range_def keys.not_le)
    qed
    then have "t # run = [] @ t # run \<and> in_range cmp (kr t) k \<and> (\<forall>u\<in>set [] \<union> set run. \<not> in_range cmp (kr u) k)"
      using True by simp
    then have "\<exists>as bs. t # run = as @ t # bs \<and> in_range cmp (kr t) k \<and> (\<forall>u\<in>set as \<union> set bs. \<not> in_range cmp (kr u) k)"
      by blast
    then show ?thesis by (simp add: get_for_key_law [OF Cons.prems] True)
  next
    case False
    have get: "get_for_key_cmp cmp kr k (t # run) = get_for_key_cmp cmp kr k run"
      using ok by (simp add: get_for_key_law [OF Cons.prems] get_for_key_law False)
    show ?thesis
    proof (cases "get_for_key_cmp cmp kr k run")
      case None
      then show ?thesis using Cons.IH ok False by (simp add: get)
    next
      case (Some u)
      then obtain as bs where "run = as @ u # bs" "in_range cmp (kr u) k" "\<forall>w\<in>set as \<union> set bs. \<not> in_range cmp (kr w) k"
        using Cons.IH ok by auto
      then have "t # run = (t # as) @ u # bs \<and> in_range cmp (kr u) k \<and> (\<forall>w\<in>set (t # as) \<union> set bs. \<not> in_range cmp (kr w) k)"
        using False by simp
      then show ?thesis unfolding get Some option.case by blast
    qed
  qed
qed (simp add: get_for_key_law run_ok_def ranges_ascend_def)

text \<open>The entries with key \<open>k\<close> of a run are those of the table over the key.\<close>

lemma run_entries_owner:
  assumes ok: "run_ok cmp t_key_range run" "\<forall>t\<in>set run. table_ok cmp es t"
    and y: "u \<in> set run" "y \<in> set (es u)" "ukey y = k"
  shows "\<exists>t. get_for_key_cmp cmp t_key_range k run = Some t \<and> y \<in> set (es t)"
proof -
  have r: "in_range cmp (t_key_range u) k" using ok(2) y by (auto simp: table_ok_def)
  show ?thesis
  proof (cases "get_for_key_cmp cmp t_key_range k run")
    case None
    then show ?thesis using run_owner [OF ok(1), of k] r y(1) by auto
  next
    case (Some t)
    then obtain as bs where "run = as @ t # bs" "\<forall>u\<in>set as \<union> set bs. \<not> in_range cmp (t_key_range u) k"
      using run_owner [OF ok(1), of k] by auto
    then have "u = t" using r y(1) by auto
    then show ?thesis using Some y(2) by blast
  qed
qed

lemma get_for_key_member: "run_ok cmp kr run \<Longrightarrow> get_for_key_cmp cmp kr k run = Some t \<Longrightarrow> t \<in> set run \<and> in_range cmp (kr t) k"
  using run_owner [of kr run k] by auto

lemma run_newest:
  assumes ok: "run_ok cmp t_key_range run" "\<forall>t\<in>set run. table_ok cmp es t"
  shows "get_for_key_cmp cmp t_key_range k run = None \<Longrightarrow> newest_below (concat (map es run)) k s None"
    and "get_for_key_cmp cmp t_key_range k run = Some t \<Longrightarrow> newest_below (es t) k s r \<Longrightarrow> newest_below (concat (map es run)) k s r"
proof -
  assume "get_for_key_cmp cmp t_key_range k run = None"
  then show "newest_below (concat (map es run)) k s None"
    using run_entries_owner [OF ok] by (intro newest_below_absent) fastforce
next
  assume t: "get_for_key_cmp cmp t_key_range k run = Some t" "newest_below (es t) k s r"
  have "t \<in> set run" using get_for_key_member [OF ok(1) t(1)] by simp
  then have sub: "set (es t) \<subseteq> set (concat (map es run))" by auto
  have own: "y \<in> set (es t)" if "y \<in> set (concat (map es run))" "ukey y = k" for y
    using run_entries_owner [OF ok, of _ y k] that t(1) by auto
  show "newest_below (concat (map es run)) k s r" by (rule newest_below_restrict [OF t(2) sub own])
qed

lemma lookup_okD: "lookup_ok (entry_lookup get) es t \<Longrightarrow> \<exists>r. get t k s = Inr r \<and> newest_below (es t) k s r"
  by (simp add: lookup_ok_def)

text \<open>Level 0: the search keeps a newest version of the runs it has passed.\<close>

lemma l0_search_newest:
  assumes "\<forall>run\<in>set runs. run_ok cmp t_key_range run \<and> (\<forall>t\<in>set run. table_ok cmp es t \<and> lookup_ok (entry_lookup get) es t)"
    and "newest_below passed k s best"
  shows "\<exists>r. l0_search (entry_lookup get) cmp k s runs best = Inr r \<and> newest_below (passed @ level_entries es runs) k s r"
  using assms
proof (induction runs arbitrary: passed best)
  case (Cons run runs)
  let ?run = "concat (map es run)"
  have ok: "run_ok cmp t_key_range run" "\<forall>t\<in>set run. table_ok cmp es t" using Cons.prems(1) by simp_all
  have step: "\<exists>r. l0_search (entry_lookup get) cmp k s runs b = Inr r \<and>
      newest_below (passed @ level_entries es (run # runs)) k s r" if "newest_below (passed @ ?run) k s b" for b
    using Cons.IH [OF _ that] Cons.prems(1) by (simp add: level_entries_def)
  show ?case
  proof (cases "get_for_key_cmp cmp t_key_range k run")
    case None
    then show ?thesis using step [of best] newest_below_skip_right [OF Cons.prems(2) run_newest(1) [OF ok None]] by simp
  next
    case (Some t)
    obtain r where r: "get t k s = Inr r" "newest_below (es t) k s r"
      using Cons.prems(1) get_for_key_member [OF ok(1) Some] lookup_okD [of get es t k s] by auto
    have run: "newest_below ?run k s r" by (rule run_newest(2) [OF ok Some r(2)])
    show ?thesis
    proof (cases r)
      case None
      then show ?thesis
        using step [of best] newest_below_skip_right [OF Cons.prems(2) run [unfolded None]] Some r(1)
        by simp
    next
      case item: (Some e)
      note cases = newest_below_merge [OF Cons.prems(2) run [unfolded item]]
      show ?thesis
      proof (cases "case best of Some b \<Rightarrow> eseqno e \<le> eseqno b | None \<Rightarrow> False")
        case True
        then show ?thesis using step [of best] cases(1) Some r(1) item by (cases best) simp_all
      next
        case older: False
        have e: "newest_below (passed @ ?run) k s (Some e)" using cases(2) older by simp
        show ?thesis
        proof (cases "eseqno e \<noteq> - 1 \<and> eseqno e + 1 = s")
          case True
          then have "newest_below (passed @ level_entries es (run # runs)) k s (Some e)"
            using newest_below_top [OF e, of "passed @ level_entries es (run # runs)"] by (auto simp: level_entries_def)
          then show ?thesis using True older Some r(1) item by (cases best) simp_all
        next
          case False
          then show ?thesis using step [OF e] older Some r(1) item by (cases best) auto
        qed
      qed
    qed
  qed
qed (simp add: level_entries_def)

lemma level_search_newest:
  assumes "\<forall>run\<in>set level. run_ok cmp t_key_range run \<and> (\<forall>t\<in>set run. table_ok cmp es t \<and> lookup_ok (entry_lookup get) es t)"
    and "level_disjoint cmp level"
  shows "\<exists>r. level_search (entry_lookup get) cmp k s level = Inr r \<and> newest_below (level_entries es level) k s r"
  using assms
proof (induction level)
  case (Cons run level)
  have ok: "run_ok cmp t_key_range run" "\<forall>t\<in>set run. table_ok cmp es t" using Cons.prems(1) by simp_all
  have eq: "level_entries es (run # level) = concat (map es run) @ level_entries es level" by (simp add: level_entries_def)
  show ?case
  proof (cases "get_for_key_cmp cmp t_key_range k run")
    case None
    have "level_disjoint cmp level" using Cons.prems(2) by (simp add: level_disjoint_def sorted_wrt_append)
    then obtain r where "level_search (entry_lookup get) cmp k s level = Inr r" "newest_below (level_entries es level) k s r"
      using Cons by auto
    then show ?thesis unfolding eq using newest_below_skip [OF run_newest(1) [OF ok None]] None by simp
  next
    case (Some t)
    have t: "t \<in> set run" "in_range cmp (t_key_range t) k" using get_for_key_member [OF ok(1) Some] by simp_all
    then obtain r where r: "get t k s = Inr r" "newest_below (es t) k s r"
      using Cons.prems(1) lookup_okD [of get es t k s] by auto
    have "ukey y \<noteq> k" if y: "y \<in> set (level_entries es level)" for y
    proof -
      obtain run' u where u: "run' \<in> set level" "u \<in> set run'" "y \<in> set (es u)"
        using y by (auto simp: level_entries_def)
      then have "\<not> in_range cmp (t_key_range u) k"
        using Cons.prems(2) t by (auto simp: level_disjoint_def sorted_wrt_append)
      moreover have "in_range cmp (t_key_range u) (ukey y)" using Cons.prems(1) u by (auto simp: table_ok_def)
      ultimately show ?thesis by auto
    qed
    then have "newest_below (level_entries es level) k s None" by (simp add: newest_below_absent)
    then have "newest_below (level_entries es (run # level)) k s r"
      unfolding eq by (rule newest_below_skip_right [OF run_newest(2) [OF ok Some r(2)]])
    then show ?thesis using Some r(1) by simp
  qed
qed (simp add: level_entries_def newest_below_None)

abbreviation newest_of :: "user_key \<Rightarrow> seqno \<Rightarrow> internal_value list list \<Rightarrow> internal_value option list \<Rightarrow> bool" where
  "newest_of k s \<equiv> list_all2 (\<lambda>xs r. newest_below xs k s r)"

lemma lower_levels_newest:
  assumes "\<forall>level\<in>set levels. \<forall>run\<in>set level. run_ok cmp t_key_range run \<and>
      (\<forall>t\<in>set run. table_ok cmp es t \<and> lookup_ok (entry_lookup get) es t)"
    and "\<forall>level\<in>set levels. level_disjoint cmp level"
  shows "\<exists>rs. newest_of k s (map (level_entries es) levels) rs \<and>
      lower_levels (entry_lookup get) cmp k s levels = Inr (Option.bind (first_source rs) ignore_tombstone_value)"
  using assms
proof (induction levels)
  case (Cons level levels)
  obtain r where r: "level_search (entry_lookup get) cmp k s level = Inr r" "newest_below (level_entries es level) k s r"
    using level_search_newest [of level es get k s] Cons.prems by auto
  obtain rs where rs: "newest_of k s (map (level_entries es) levels) rs"
      "lower_levels (entry_lookup get) cmp k s levels = Inr (Option.bind (first_source rs) ignore_tombstone_value)"
    using Cons by auto
  have "newest_of k s (map (level_entries es) (level # levels)) (r # rs)" using r(2) rs(1) by simp
  moreover have "lower_levels (entry_lookup get) cmp k s (level # levels) =
      Inr (Option.bind (first_source (r # rs)) ignore_tombstone_value)"
    using r(1) rs(2) by (cases r) simp_all
  ultimately show ?case by blast
qed simp

lemma find_in_tables_newest:
  assumes "levels_ok (entry_lookup get) cmp es levels"
  shows "\<exists>rs. newest_of k s (map (level_entries es) levels) rs \<and>
      find_in_tables (entry_lookup get) cmp k s levels = Inr (Option.bind (first_source rs) ignore_tombstone_value)"
proof (cases levels)
  case (Cons level rest)
  have ok: "\<forall>run\<in>set level. run_ok cmp t_key_range run \<and> (\<forall>t\<in>set run. table_ok cmp es t \<and> lookup_ok (entry_lookup get) es t)"
      "\<forall>level\<in>set rest. \<forall>run\<in>set level. run_ok cmp t_key_range run \<and>
        (\<forall>t\<in>set run. table_ok cmp es t \<and> lookup_ok (entry_lookup get) es t)"
      "\<forall>level\<in>set rest. level_disjoint cmp level"
    using assms by (simp_all add: levels_ok_def Cons)
  have "newest_below [] k s None" by (simp add: newest_below_None)
  then obtain r where r: "l0_search (entry_lookup get) cmp k s level None = Inr r" "newest_below (level_entries es level) k s r"
    using l0_search_newest [OF ok(1), of "[]" k s None] by auto
  obtain rs where rs: "newest_of k s (map (level_entries es) rest) rs"
      "lower_levels (entry_lookup get) cmp k s rest = Inr (Option.bind (first_source rs) ignore_tombstone_value)"
    using lower_levels_newest [OF ok(2,3), of k s] by auto
  have "newest_of k s (map (level_entries es) levels) (r # rs)" using r(2) rs(1) by (simp add: Cons)
  moreover have "find_in_tables (entry_lookup get) cmp k s levels =
      Inr (Option.bind (first_source (r # rs)) ignore_tombstone_value)"
    using r(1) rs(2) by (cases r) (simp_all add: Cons)
  ultimately show ?thesis by blast
qed simp

subsection \<open>Suppression\<close>

lemma table_suppresses_iff:
  assumes "table_ok cmp es t"
  shows "table_suppresses cmp k kq rq t \<longleftrightarrow> (\<exists>rt\<in>set (t_range_tombstones t). should_suppress_with cmp rt k kq rq)"
proof -
  let ?rts = "t_range_tombstones t" and ?p = "\<lambda>rt. kle cmp (rt_start rt) k"
  have sorted: "sorted_wrt (\<lambda>a b. ?p b \<longrightarrow> ?p a) ?rts"
    by (rule sorted_wrt_mono_rel [of _ "\<lambda>a b. kle cmp (rt_start a) (rt_start b)"])
      (use assms in \<open>auto simp: table_ok_def intro: keys.order_trans\<close>)
  have "partition_point ?p ?rts = length (takeWhile ?p ?rts)"
    using sorted by (intro partition_point_takeWhile) (metis sorted_wrt_iff_nth_less le_neq_implies_less)
  then have take: "take (partition_point ?p ?rts) ?rts = filter ?p ?rts"
    using filter_split(1) [OF sorted] by (metis takeWhile_eq_take)
  have "in_range cmp (t_key_range t) k" if "rt \<in> set ?rts" "contains_key_with cmp rt k" for rt
    using assms that by (auto simp: table_ok_def)
  then show ?thesis
    unfolding table_suppresses_def Let_def cmp_neq_Greater take
    by (auto simp: list_ex_iff should_suppress_with_def contains_key_with_def in_range_def cmp_neq_Greater)
qed

lemma bex_concat_map: "(\<exists>x\<in>set (concat (map f xs)). P x) \<longleftrightarrow> (\<exists>y\<in>set xs. \<exists>x\<in>set (f y). P x)"
  by simp

lemma suppressed_iff:
  assumes "read_view_ok pl cmp es sv"
  shows "is_suppressed_by_range_tombstones sv k kq rq cmp \<longleftrightarrow>
    (\<exists>rt\<in>set (view_tombstones sv). should_suppress_with cmp rt k kq rq)"
proof -
  have mt: "is_key_suppressed_by_range_tombstone mt k kq rq \<longleftrightarrow>
      (\<exists>rt\<in>set (range_tombstones_sorted mt). should_suppress_with cmp rt k kq rq)"
    if "mt \<in> set (active_memtable sv # sealed_memtables sv)" for mt
    using assms that by (intro mt_suppressed [where es = "mt_entries mt"]) (auto simp: read_view_ok_def)
  have tab: "table_suppresses cmp k kq rq t \<longleftrightarrow> (\<exists>rt\<in>set (t_range_tombstones t). should_suppress_with cmp rt k kq rq)"
    if "t \<in> set (concat (concat (v_data (sv_version sv))))" for t
    using assms that by (intro table_suppresses_iff [where es = es]) (auto simp: read_view_ok_def levels_ok_def)
  have "is_suppressed_by_range_tombstones sv k kq rq cmp \<longleftrightarrow>
      (\<exists>mt\<in>set (active_memtable sv # sealed_memtables sv). is_key_suppressed_by_range_tombstone mt k kq rq) \<or>
      (\<exists>t\<in>set (concat (concat (v_data (sv_version sv)))). table_suppresses cmp k kq rq t)"
    by (simp add: is_suppressed_by_range_tombstones_def list_ex_iff disj_assoc)
  also have "\<dots> \<longleftrightarrow>
      (\<exists>mt\<in>set (active_memtable sv # sealed_memtables sv). \<exists>rt\<in>set (range_tombstones_sorted mt). should_suppress_with cmp rt k kq rq) \<or>
      (\<exists>t\<in>set (concat (concat (v_data (sv_version sv)))). \<exists>rt\<in>set (t_range_tombstones t). should_suppress_with cmp rt k kq rq)"
    by (intro arg_cong2 [where f = "(\<or>)"] bex_cong refl mt tab)
  also have "\<dots> \<longleftrightarrow> (\<exists>rt\<in>set (view_tombstones sv). should_suppress_with cmp rt k kq rq)"
    by (simp only: view_tombstones_def set_append bex_Un bex_concat_map)
  finally show ?thesis .
qed

subsection \<open>The read as a whole\<close>

lemma version_read:
  assumes ok: "read_view_ok (entry_lookup get) cmp es sv"
  shows "\<exists>r. newest_below (concat (read_sources es sv)) k s r \<and>
    get_internal_entry_from_version (entry_lookup get) sv k s cmp =
      Inr (case r of None \<Rightarrow> None
           | Some e \<Rightarrow> if is_tombstone e \<or> (\<exists>rt\<in>set (view_tombstones sv). should_suppress_with cmp rt k (eseqno e) s)
                     then None else Some e)"
proof -
  let ?ms = "active_memtable sv # rev (sealed_memtables sv)" and ?get = "\<lambda>mt. mt_get mt k s"
  obtain rs where rs: "newest_of k s (map (level_entries es) (v_data (sv_version sv))) rs"
      "find_in_tables (entry_lookup get) cmp k s (v_data (sv_version sv)) = Inr (Option.bind (first_source rs) ignore_tombstone_value)"
    using find_in_tables_newest [of get es "v_data (sv_version sv)" k s] ok by (auto simp: read_view_ok_def)
  have "newest_below (mt_entries mt) k s (?get mt)" if "mt \<in> set ?ms" for mt
    using ok that by (intro mt_get_newest [OF user_comparator_axioms, where ts = "range_tombstones_sorted mt"])
      (auto simp: read_view_ok_def)
  then have "newest_of k s (map mt_entries ?ms) (map ?get ?ms)" 
    unfolding list.rel_map by (intro list.rel_refl_strong) blast
  then have "newest_of k s (read_sources es sv) (map ?get ?ms @ rs)"
    unfolding read_sources_def using list_all2_appendI [OF _ rs(1)] by fastforce
  then have newest: "newest_below (concat (read_sources es sv)) k s (first_source (map ?get ?ms @ rs))"
    using ok by (intro newest_below_sources) (simp_all add: read_view_ok_def)
  show ?thesis
  proof (intro exI conjI, rule newest)
    show "get_internal_entry_from_version (entry_lookup get) sv k s cmp =
      Inr (case first_source (map ?get ?ms @ rs) of None \<Rightarrow> None
           | Some e \<Rightarrow> if is_tombstone e \<or> (\<exists>rt\<in>set (view_tombstones sv). should_suppress_with cmp rt k (eseqno e) s)
                     then None else Some e)"
      unfolding get_internal_entry_from_version_def Let_def rs(2) suppressed_iff [OF ok]
        get_internal_entry_from_sealed_memtables_def first_hit_sources
      by (auto simp: first_source_append ignore_tombstone_value_def split: option.split bind_split)
  qed
qed

end

text \<open>A memtable written by any history meets its part of the contract.\<close>

lemma mt_ok_self:
  assumes "user_comparator c" "mt_ok c es ts mt"
  shows "mt_ok c (mt_entries mt) (range_tombstones_sorted mt) mt"
proof -
  have "set (sl_entries (mt_items mt)) = set es" using assms(2) mset_eq_setD by (auto simp: mt_ok_def)
  moreover have "set (range_tombstones_sorted mt) = set (inorder (it_root (mt_tombstones mt)))"
    by (simp add: range_tombstones_sorted_def iter_sorted_def inorder_push_eq)
  ultimately show ?thesis using assms(2) by (simp add: mt_ok_def mt_entries_def top_seqno_def)
qed

text \<open>The value path filters and suppresses exactly as the entry path does.\<close>

lemma value_lookup_simps [simp]:
  "lookup (value_lookup getv) = getv" "entry_seqno (value_lookup getv) (value_item e) = eseqno e"
  "filter_tombstone (value_lookup getv) (value_item e) = map_option value_item (ignore_tombstone_value e)"
  by (simp_all add: value_lookup_def value_item_def ignore_tombstone_value_def is_tombstone_def)

abbreviation as_value :: "lsm_error + internal_value option \<Rightarrow> lsm_error + table_value_item option" where
  "as_value \<equiv> map_sum id (map_option value_item)"

lemma l0_search_value:
  assumes "\<forall>t k s. getv t k s = as_value (get t k s)"
  shows "l0_search (value_lookup getv) c k s runs (map_option value_item best) = as_value (l0_search (entry_lookup get) c k s runs best)"
proof (induction runs arbitrary: best)
  case (Cons run runs)
  show ?case
  proof (cases "get_for_key_cmp c t_key_range k run")
    case (Some t)
    consider e where "get t k s = Inl e" | "get t k s = Inr None" | e where "get t k s = Inr (Some e)"
      by (metis old.sum.exhaust option.exhaust)
    then show ?thesis using assms Some Cons.IH [of best] Cons.IH [of "Some e" for e] by cases (cases best; simp)+
  qed (use Cons.IH [of best] in simp)
qed simp

lemma level_search_value:
  assumes "\<forall>t k s. getv t k s = as_value (get t k s)"
  shows "level_search (value_lookup getv) c k s level = as_value (level_search (entry_lookup get) c k s level)"
  using assms by (induction level) (simp_all split: option.split)

lemma find_in_tables_value:
  assumes "\<forall>t k s. getv t k s = as_value (get t k s)"
  shows "find_in_tables (value_lookup getv) c k s levels = as_value (find_in_tables (entry_lookup get) c k s levels)"
proof -
  have lower: "lower_levels (value_lookup getv) c k s ls = as_value (lower_levels (entry_lookup get) c k s ls)" for ls
    by (induction ls) (auto simp: level_search_value [OF assms] split: sum.split option.split)
  show ?thesis
    using l0_search_value [OF assms, where best = None]
    by (cases levels) (auto simp: lower split: sum.split option.split)
qed

subsection \<open>Tables held as lists\<close>

text \<open>A table whose blocks are simply the list of its entries, and the lookup that reads all of it.\<close>

type_synonym list_table = "internal_value list table"

fun newest_in :: "internal_value list \<Rightarrow> user_key \<Rightarrow> seqno \<Rightarrow> internal_value option" where
  "newest_in [] k s = None"
| "newest_in (e # es) k s =
     (case newest_in es k s of
        None \<Rightarrow> if ukey e = k \<and> eseqno e < s then Some e else None
      | Some b \<Rightarrow> if ukey e = k \<and> eseqno b < eseqno e \<and> eseqno e < s then Some e else Some b)"

definition list_get :: "list_table \<Rightarrow> user_key \<Rightarrow> seqno \<Rightarrow> lsm_error + internal_value option" where
  "list_get t k s = Inr (newest_in (t_blocks t) k s)"

lemma newest_in_below: "newest_below es k s (newest_in es k s)"
proof (induction es)
  case (Cons e es)
  then show ?case
    by (cases "newest_in es k s") (auto simp: newest_below_None newest_below_Some not_less intro: order.trans)
qed (simp add: newest_below_None)

lemma list_get_ok: "lookup_ok (entry_lookup list_get) t_blocks t"
  by (simp add: lookup_ok_def list_get_def newest_in_below)

lemma covers_key_range:
  assumes "user_comparator c" "kle c (kr_min r) (rt_start rt)" "kle c (rt_end rt) (kr_max r)" "contains_key_with c rt k"
  shows "in_range c r k"
  using user_comparator.kle_trans [OF assms(1)] user_comparator.klt_kle [OF assms(1)] assms(2-4)
  unfolding in_range_def contains_key_with_def kle_def klt_def by blast

text \<open>The memtable a history of operations leaves, over the byte order.\<close>

definition memtable_of :: "mt_op list \<Rightarrow> memtable" where
  "memtable_of ops =
     the (mt_run \<lparr>item_overhead = 0, rt_overhead = 0\<rparr> \<lparr>h_xxh3 = (\<lambda>_. 0), h_crc32c = None\<rparr> ops (mt_new 0 default_compare True 1))"

lemma memtable_of_ok:
  shows "mt_ok default_compare (mt_entries (memtable_of ops)) (range_tombstones_sorted (memtable_of ops)) (memtable_of ops)"
    and "set (mt_entries (memtable_of ops)) = set (written ops)"
proof -
  have "mt_ok default_compare [] [] (mt_new 0 default_compare True 1)"
    by (rule user_comparator.mt_new_ok [OF user_comparator_default]) simp
  then obtain mt where mt: "memtable_of ops = mt" "mt_ok default_compare (written ops) (deleted_ranges default_compare ops) mt"
    using user_comparator.mt_run_ok [OF user_comparator_default] unfolding memtable_of_def
    by (metis append_Nil option.sel)
  show "mt_ok default_compare (mt_entries (memtable_of ops)) (range_tombstones_sorted (memtable_of ops)) (memtable_of ops)"
    unfolding mt(1) by (rule mt_ok_self [OF user_comparator_default mt(2)])
  show "set (mt_entries (memtable_of ops)) = set (written ops)"
    using mt(2) by (intro mset_eq_setD) (simp add: mt(1) mt_ok_def mt_entries_def)
qed

subsection \<open>Properties\<close>



end
