(* ===== verification/Secded.thy ===== *)
theory Secded
  imports Le_Bytes
begin

text \<open>
  \<open>secded.rs\<close>: the Hsiao (72, 64) code of the page checks. Eight check bits protect a 64-bit word; one
  flipped bit is corrected and two are detected. The tables are built as the source builds them, and a
  block's parity is one check byte for every eight bytes, the last word padded with zeros. Assertions
  that fail are \<open>None\<close>.
\<close>

datatype secded_outcome = Clean | Corrected | Uncorrectable

unbundle bit_operations_syntax

subsection \<open>Bytes and words\<close>

text \<open>\<open>u8::count_ones\<close>.\<close>

definition count_ones :: "u8 \<Rightarrow> nat" where
  "count_ones b = length (filter (bit b) [0..<8])"

subsection \<open>The code\<close>

definition DATA_BITS :: nat where
  "DATA_BITS = 64"

function build_cols_loop :: "u8 list \<Rightarrow> nat \<Rightarrow> u8 \<Rightarrow> u8 list" where
  "build_cols_loop cols filled byte =
     (let ones = count_ones byte;
          take_it = (ones mod 2 = 1 \<and> ones \<ge> 3);
          cols' = (if take_it then cols[filled := byte] else cols);
          filled' = (if take_it then filled + 1 else filled)
      in if byte = - 1 \<or> filled' = DATA_BITS then cols' else build_cols_loop cols' filled' (byte + 1))"
  by pat_completeness auto
termination
proof (relation "measure (\<lambda>(cols, filled, byte). 255 - unat byte)", simp, goal_cases)
  case (1 cols filled byte)
  then have "byte < - 1" by (simp add: word_order.not_eq_extremum)
  then have "unat byte < 255" by (simp add: word_less_nat_alt unsigned_minus_1_eq_mask mask_eq_exp_minus_1)
  then show ?case by (simp add: unat_word_ariths)
qed

declare build_cols_loop.simps [simp del]

definition build_data_cols :: "u8 list" where
  "build_data_cols = build_cols_loop (replicate DATA_BITS 0) 0 0"

definition table_entry :: "u8 list \<Rightarrow> nat \<Rightarrow> nat \<Rightarrow> u8" where
  "table_entry cols lane b =
     foldl (\<lambda>acc i. if (b div 2 ^ i) mod 2 = 1 then acc XOR cols ! (lane * 8 + i) else acc) 0 [0..<8]"

definition build_tables :: "u8 list list" where
  "build_tables = map (\<lambda>lane. map (table_entry build_data_cols lane) [0..<256]) [0..<8]"

definition check_byte :: "u64 \<Rightarrow> u8" where
  "check_byte word =
     (let b = to_le_bytes word; look = (\<lambda>lane. build_tables ! lane ! unat (b ! lane))
      in look 0 XOR look 1 XOR look 2 XOR look 3 XOR look 4 XOR look 5 XOR look 6 XOR look 7)"

definition encode_word :: "u8 list \<Rightarrow> u8 list \<Rightarrow> u8 list option" where
  "encode_word data parity_out =
     (if length data \<noteq> 8 \<or> length parity_out < 1 then None
      else Some (parity_out[0 := check_byte (from_le_bytes data)]))"

definition decode_word :: "u8 list \<Rightarrow> u8 list \<Rightarrow> (secded_outcome \<times> u8 list) option" where
  "decode_word data parity =
     (if length data \<noteq> 8 \<or> length parity < 1 then None
      else
        (let word = from_le_bytes data; syndrome = parity ! 0 XOR check_byte word
         in Some
             (if syndrome = 0 then (Clean, data)
              else if count_ones syndrome = 1 then (Corrected, data)
              else if count_ones syndrome mod 2 = 1
              then (case find (\<lambda>i. build_data_cols ! i = syndrome) [0..<DATA_BITS] of
                      Some i \<Rightarrow> (Corrected, to_le_bytes (word XOR push_bit i 1))
                    | None \<Rightarrow> (Uncorrectable, data))
              else (Uncorrectable, data))))"

subsection \<open>Blocks\<close>

definition block_parity_len :: "nat \<Rightarrow> nat" where
  "block_parity_len payload_len = (payload_len + 7) div 8"

function word_chunks :: "'a list \<Rightarrow> 'a list list" where
  "word_chunks [] = []"
| "word_chunks (x # xs) = take 8 (x # xs) # word_chunks (drop 8 (x # xs))"
  by pat_completeness auto
termination
  by (relation "measure length") auto

definition pad_word :: "u8 list \<Rightarrow> u8 list" where
  "pad_word chunk = chunk @ replicate (8 - length chunk) 0"

fun encode_chunks :: "u8 list list \<Rightarrow> u8 list option" where
  "encode_chunks [] = Some []"
| "encode_chunks (chunk # chunks) =
     (case encode_word (pad_word chunk) [0] of
        None \<Rightarrow> None
      | Some check \<Rightarrow> map_option (\<lambda>out. check @ out) (encode_chunks chunks))"

definition encode_block_parity :: "u8 list \<Rightarrow> u8 list option" where
  "encode_block_parity payload = encode_chunks (word_chunks payload)"

text \<open>The loop over the chunks: the outcome so far, and the payload as written back.\<close>

fun correct_chunks :: "bool \<Rightarrow> u8 list list \<Rightarrow> u8 list \<Rightarrow> (secded_outcome \<times> u8 list) option" where
  "correct_chunks any [] parity = Some (if any then Corrected else Clean, [])"
| "correct_chunks any (chunk # chunks) parity =
     (case decode_word (pad_word chunk) (take 1 parity) of
        None \<Rightarrow> None
      | Some (Clean, _) \<Rightarrow> map_option (\<lambda>(r, out). (r, chunk @ out)) (correct_chunks any chunks (drop 1 parity))
      | Some (Corrected, word) \<Rightarrow>
          map_option (\<lambda>(r, out). (r, take (length chunk) word @ out)) (correct_chunks True chunks (drop 1 parity))
      | Some (Uncorrectable, _) \<Rightarrow> Some (Uncorrectable, chunk @ concat chunks))"

definition try_correct_block :: "u8 list \<Rightarrow> u8 list \<Rightarrow> (secded_outcome \<times> u8 list) option" where
  "try_correct_block payload parity =
     (if length parity < block_parity_len (length payload) then Some (Uncorrectable, payload)
      else correct_chunks False (word_chunks payload) parity)"

subsection \<open>The columns\<close>

lemma data_cols:
  "length build_data_cols = 64 \<and> distinct build_data_cols \<and>
   list_all (\<lambda>b. odd (count_ones b) \<and> count_ones b \<noteq> 1) build_data_cols"
  by code_simp

lemma data_col:
  assumes "i < 64"
  shows "odd (count_ones (build_data_cols ! i))" "count_ones (build_data_cols ! i) \<noteq> 1"
  using data_cols assms by (auto simp: list_all_length)

lemma data_col_inj: "i < 64 \<Longrightarrow> j < 64 \<Longrightarrow> build_data_cols ! i = build_data_cols ! j \<longleftrightarrow> i = j"
  using data_cols nth_eq_iff_index_eq by fastforce

lemma find_data_col: "i < 64 \<Longrightarrow> find (\<lambda>j. build_data_cols ! j = build_data_cols ! i) [0..<DATA_BITS] = Some i"
  by (auto simp: find_Some_iff DATA_BITS_def data_col_inj intro!: exI [of _ i])

lemma odd_count_ones_xor: "odd (count_ones (a XOR b)) \<longleftrightarrow> odd (count_ones a) \<noteq> odd (count_ones b)"
proof -
  have "odd (length (filter (bit (a XOR b)) xs)) \<longleftrightarrow> odd (length (filter (bit a) xs)) \<noteq> odd (length (filter (bit b) xs))" for xs
    by (induction xs) (auto simp: bit_xor_iff)
  then show ?thesis by (simp add: count_ones_def)
qed

lemma count_ones_0 [simp]: "count_ones 0 = 0"
  by (simp add: count_ones_def)

lemma check_bits: "list_all (\<lambda>j. count_ones (push_bit j 1) = 1) [0..<8]"
  by code_simp

lemma count_ones_check_bit: "j < 8 \<Longrightarrow> count_ones (push_bit j 1) = 1"
  using check_bits by (simp only: list_all_iff set_upt) simp

subsection \<open>The check byte is linear\<close>

definition xor_sum :: "(nat \<Rightarrow> u8) \<Rightarrow> nat \<Rightarrow> u8 \<Rightarrow> u8" where
  "xor_sum f n b = foldl (\<lambda>acc i. if bit b i then acc XOR f i else acc) 0 [0..<n]"

lemma xor_sum_flip:
  assumes "j < 8"
  shows "n \<le> 8 \<Longrightarrow> xor_sum f n (b XOR push_bit j 1) = xor_sum f n b XOR (if j < n then f j else 0)"
proof (induction n)
  case (Suc n)
  then have "bit (b XOR push_bit j 1) n \<longleftrightarrow> bit b n \<noteq> (j = n)" by (auto simp: bit_xor_iff bit_exp_iff)
  then show ?case using Suc by (auto simp: xor_sum_def xor.assoc xor.commute xor.left_commute)
qed (simp add: xor_sum_def)

lemma table_lookup:
  assumes "lane < 8"
  shows "build_tables ! lane ! unat b = xor_sum (\<lambda>i. build_data_cols ! (lane * 8 + i)) 8 b"
proof -
  have "unat b < 256" using unsigned_less [of b] by simp
  then have "build_tables ! lane ! unat b = table_entry build_data_cols lane (unat b)" using assms by (simp add: build_tables_def)
  moreover have "(unat b div 2 ^ i) mod 2 = 1 \<longleftrightarrow> bit b i" for i
    using bit_unsigned_iff [where ?'a = nat, of b i] by (simp add: bit_iff_odd odd_iff_mod_2_eq_one)
  ultimately show ?thesis by (simp add: table_entry_def xor_sum_def)
qed

lemma to_le_bytes_flip:
  assumes "k < 64" "lane < 8"
  shows "to_le_bytes (w XOR push_bit k 1) ! lane =
    (if k div 8 = lane then to_le_bytes w ! lane XOR push_bit (k mod 8) 1 else to_le_bytes w ! lane)"
proof (rule bit_word_eqI)
  fix n assume n: "n < LENGTH(8)"
  have "8 * lane + n = k \<longleftrightarrow> k div 8 = lane \<and> n = k mod 8" using n by auto
  then show "bit (to_le_bytes (w XOR push_bit k 1) ! lane) n =
    bit (if k div 8 = lane then to_le_bytes w ! lane XOR push_bit (k mod 8) 1 else to_le_bytes w ! lane) n"
    using n assms by (auto simp: to_le_bytes_nth bit_simps)
qed

lemma lane_flip:
  assumes "k < 64" "lane < 8"
  shows "build_tables ! lane ! unat (to_le_bytes (w XOR push_bit k 1) ! lane) =
    build_tables ! lane ! unat (to_le_bytes w ! lane) XOR (if k div 8 = lane then build_data_cols ! k else 0)"
proof (cases "k div 8 = lane")
  case True
  then have "lane * 8 + k mod 8 = k" by auto
  then show ?thesis using True xor_sum_flip [of "k mod 8" 8]
    by (simp only: table_lookup [OF assms(2)] to_le_bytes_flip [OF assms] if_True) simp
next
  case False
  then show ?thesis by (simp only: to_le_bytes_flip [OF assms] if_False) simp
qed

lemma xor_lanes:
  fixes d :: u8 and j :: nat
  assumes "j < 8"
  shows "(a0 XOR (if j = 0 then d else 0)) XOR (a1 XOR (if j = 1 then d else 0)) XOR (a2 XOR (if j = 2 then d else 0)) XOR
    (a3 XOR (if j = 3 then d else 0)) XOR (a4 XOR (if j = 4 then d else 0)) XOR (a5 XOR (if j = 5 then d else 0)) XOR
    (a6 XOR (if j = 6 then d else 0)) XOR (a7 XOR (if j = 7 then d else 0)) =
    (a0 XOR a1 XOR a2 XOR a3 XOR a4 XOR a5 XOR a6 XOR a7) XOR d"
proof -
  have "j = 0 \<or> j = 1 \<or> j = 2 \<or> j = 3 \<or> j = 4 \<or> j = 5 \<or> j = 6 \<or> j = 7" using assms by linarith
  then show ?thesis by (elim disjE) (simp_all add: xor.assoc xor.commute xor.left_commute)
qed

lemma check_byte_flip:
  assumes "k < 64"
  shows "check_byte (w XOR push_bit k 1) = check_byte w XOR build_data_cols ! k"
proof -
  have k: "k div 8 < 8" using assms by simp
  have lanes: "(0::nat) < 8" "(1::nat) < 8" "(2::nat) < 8" "(3::nat) < 8" "(4::nat) < 8" "(5::nat) < 8" "(6::nat) < 8" "(7::nat) < 8"
    by simp_all
  show ?thesis unfolding check_byte_def Let_def lanes [THEN lane_flip [OF assms]] by (rule xor_lanes [OF k])
qed

subsection \<open>Words from bytes\<close>

definition flip_bit :: "nat \<Rightarrow> u8 list \<Rightarrow> u8 list" where
  "flip_bit k bs = bs[k div 8 := bs ! (k div 8) XOR push_bit (k mod 8) 1]"

lemma from_le_bytes_flip:
  assumes "length bs = 8" "k < 64"
  shows "from_le_bytes (flip_bit k bs) = from_le_bytes bs XOR push_bit k 1"
proof (rule bit_word_eqI)
  fix n assume n: "n < LENGTH(64)"
  have "n = k \<longleftrightarrow> n div 8 = k div 8 \<and> n mod 8 = k mod 8" by (metis div_mult_mod_eq)
  then show "bit (from_le_bytes (flip_bit k bs)) n = bit (from_le_bytes bs XOR push_bit k 1) n"
    using n assms by (auto simp: flip_bit_def bit_from_le_bytes bit_simps nth_list_update)
qed

subsection \<open>Syndromes\<close>

declare push_bit_of_1 [simp del]

text \<open>A code word is eight data bytes and the check byte; the syndrome of a flipped bit is its column.\<close>

definition decode_codeword :: "u8 list \<Rightarrow> (secded_outcome \<times> u8 list) option" where
  "decode_codeword cw = decode_word (take 8 cw) (drop 8 cw)"

definition syndrome_of :: "u8 list \<Rightarrow> u8" where
  "syndrome_of cw = cw ! 8 XOR check_byte (from_le_bytes (take 8 cw))"

definition column :: "nat \<Rightarrow> u8" where
  "column k = (if k < 64 then build_data_cols ! k else push_bit (k - 64) 1)"

lemma odd_column: "k < 72 \<Longrightarrow> odd (count_ones (column k))"
  by (simp add: column_def data_col count_ones_check_bit)

lemma column_inj:
  assumes "k < 72" "k' < 72" "column k = column k'"
  shows "k = k'"
proof -
  have one: "count_ones (column k) = 1 \<longleftrightarrow> \<not> k < 64" "count_ones (column k') = 1 \<longleftrightarrow> \<not> k' < 64"
    using assms(1,2) data_col(2) count_ones_check_bit by (auto simp: column_def)
  have "k = k'" if "\<not> k < 64" "\<not> k' < 64"
  proof -
    have "bit (push_bit (k - 64) 1 :: u8) (k - 64)" using assms(1) that(1) by (simp add: push_bit_of_1 bit_exp_iff)
    then have "bit (push_bit (k' - 64) 1 :: u8) (k - 64)" using assms(3) that by (simp add: column_def)
    then have "k - 64 = k' - 64" by (simp add: push_bit_of_1 bit_exp_iff)
    then show ?thesis using that by linarith
  qed
  then show ?thesis using assms one by (auto simp: column_def data_col_inj split: if_splits)
qed

lemma length_flip_bit [simp]: "length (flip_bit k bs) = length bs"
  by (simp add: flip_bit_def)

lemma syndrome_flip:
  assumes "length cw = 9" "k < 72"
  shows "syndrome_of (flip_bit k cw) = syndrome_of cw XOR column k"
proof (cases "k < 64")
  case True
  then have k: "k div 8 < 8" by simp
  then have "take 8 (flip_bit k cw) = flip_bit k (take 8 cw)" "flip_bit k cw ! 8 = cw ! 8"
    by (simp_all add: flip_bit_def take_update_swap)
  moreover have "from_le_bytes (flip_bit k (take 8 cw)) = from_le_bytes (take 8 cw) XOR push_bit k 1"
    using assms(1) by (intro from_le_bytes_flip [OF _ True]) simp
  ultimately show ?thesis
    using True check_byte_flip [OF True] by (simp only: syndrome_of_def column_def if_True) (simp add: xor.assoc)
next
  case False
  then have j: "k = (k - 64) + 8 * 8" "k - 64 < 8" using assms(2) by simp_all
  have "k div 8 = 8" "k mod 8 = k - 64"
    using div_mult_self2 [of 8 "k - 64" 8] mod_mult_self2 [of "k - 64" 8 8] j by simp_all
  then have "flip_bit k cw ! 8 = cw ! 8 XOR column k" "take 8 (flip_bit k cw) = take 8 cw"
    using assms False by (simp_all add: flip_bit_def column_def)
  then show ?thesis by (simp only: syndrome_of_def xor.assoc xor.commute [of "column k"])
qed

lemma decode_by_syndrome:
  assumes "length cw = 9"
  shows "decode_codeword cw = Some
    (if syndrome_of cw = 0 then (Clean, take 8 cw)
     else if count_ones (syndrome_of cw) = 1 then (Corrected, take 8 cw)
     else if odd (count_ones (syndrome_of cw))
     then (case find (\<lambda>i. build_data_cols ! i = syndrome_of cw) [0..<DATA_BITS] of
             Some i \<Rightarrow> (Corrected, to_le_bytes (from_le_bytes (take 8 cw) XOR push_bit i 1))
           | None \<Rightarrow> (Uncorrectable, take 8 cw))
     else (Uncorrectable, take 8 cw))"
  using assms by (simp add: decode_codeword_def decode_word_def syndrome_of_def Let_def odd_iff_mod_2_eq_one)

lemma decode_clean: "length cw = 9 \<Longrightarrow> syndrome_of cw = 0 \<Longrightarrow> decode_codeword cw = Some (Clean, take 8 cw)"
  by (simp add: decode_by_syndrome)

lemma decode_single:
  assumes "length cw = 9" "syndrome_of cw = 0" "k < 72"
  shows "decode_codeword (flip_bit k cw) = Some (Corrected, take 8 cw)"
proof -
  have s: "syndrome_of (flip_bit k cw) = column k" using syndrome_flip [OF assms(1,3)] assms(2) by simp
  have ne: "column k \<noteq> 0" using odd_column [OF assms(3)] by auto
  show ?thesis
  proof (cases "k < 64")
    case True
    then have "k div 8 < 8" by simp
    then have "take 8 (flip_bit k cw) = flip_bit k (take 8 cw)" by (simp add: flip_bit_def take_update_swap)
    moreover have "from_le_bytes (flip_bit k (take 8 cw)) = from_le_bytes (take 8 cw) XOR push_bit k 1"
      using assms(1) by (intro from_le_bytes_flip [OF _ True]) simp
    ultimately have "to_le_bytes (from_le_bytes (take 8 (flip_bit k cw)) XOR push_bit k 1) = take 8 cw"
      using assms(1) by (simp add: xor.assoc to_from_le_bytes)
    moreover have "count_ones (column k) \<noteq> 1" "odd (count_ones (column k))" using True data_col by (simp_all add: column_def)
    moreover have "find (\<lambda>i. build_data_cols ! i = column k) [0..<DATA_BITS] = Some k"
      using True find_data_col by (simp add: column_def)
    ultimately show ?thesis using assms(1) ne by (simp add: decode_by_syndrome s)
  next
    case False
    then have "count_ones (column k) = 1" using assms(3) count_ones_check_bit by (simp add: column_def)
    moreover have "take 8 (flip_bit k cw) = take 8 cw" using False by (simp add: flip_bit_def)
    ultimately show ?thesis using assms(1) ne by (simp add: decode_by_syndrome s)
  qed
qed

lemma decode_double:
  assumes "length cw = 9" "syndrome_of cw = 0" "k < 72" "k' < 72" "k \<noteq> k'"
  shows "decode_codeword (flip_bit k (flip_bit k' cw)) = Some (Uncorrectable, take 8 (flip_bit k (flip_bit k' cw)))"
proof -
  let ?s = "column k' XOR column k"
  have s: "syndrome_of (flip_bit k (flip_bit k' cw)) = ?s"
    using syndrome_flip [of "flip_bit k' cw" k] syndrome_flip [of cw k'] assms by simp
  have "?s \<noteq> 0"
  proof
    have "column k = column k' XOR ?s" by (simp flip: xor.assoc)
    also assume "?s = 0"
    finally show False using column_inj [OF assms(3,4)] assms(5) by simp
  qed
  moreover have "even (count_ones ?s)" using odd_column [OF assms(3)] odd_column [OF assms(4)] odd_count_ones_xor by blast
  moreover from this have "count_ones ?s \<noteq> 1" by auto
  ultimately show ?thesis using assms(1) by (simp add: decode_by_syndrome s)
qed

subsection \<open>Blocks\<close>

definition check_of :: "u8 list \<Rightarrow> u8" where
  "check_of chunk = check_byte (from_le_bytes (pad_word chunk))"

lemma length_pad_word [simp]: "length chunk \<le> 8 \<Longrightarrow> length (pad_word chunk) = 8"
  by (simp add: pad_word_def)

lemma encode_chunks_law: "\<forall>chunk\<in>set chunks. length chunk \<le> 8 \<Longrightarrow> encode_chunks chunks = Some (map check_of chunks)"
  by (induction chunks) (simp_all add: encode_word_def check_of_def)

lemma concat_word_chunks: "concat (word_chunks xs) = xs"
  by (induction xs rule: word_chunks.induct) (simp_all del: drop_Suc_Cons take_Suc_Cons)

lemma word_chunks_size: "chunk \<in> set (word_chunks xs) \<Longrightarrow> length chunk \<le> 8"
  by (induction xs rule: word_chunks.induct) auto

lemma length_word_chunks: "length (word_chunks xs) = block_parity_len (length xs)"
proof (induction xs rule: word_chunks.induct)
  case (2 x xs)
  then show ?case by (cases "length xs < 7") (auto simp: block_parity_len_def le_div_geq)
qed (simp add: block_parity_len_def)

text \<open>\<open>near chunk chunk'\<close>: at most one bit of the word differs.\<close>

definition near :: "u8 list \<Rightarrow> u8 list \<Rightarrow> bool" where
  "near chunk chunk' \<longleftrightarrow> chunk' = chunk \<or> (\<exists>k<8 * length chunk. chunk' = flip_bit k chunk)"

lemma decode_near:
  assumes "near chunk chunk'" "length chunk \<le> 8"
  shows "decode_word (pad_word chunk') [check_of chunk] =
    Some (if chunk' = chunk then Clean else Corrected, pad_word chunk)"
proof -
  let ?cw = "pad_word chunk @ [check_of chunk]"
  have len: "length (pad_word chunk) = 8" using assms(2) by simp
  have cw: "length ?cw = 9" "syndrome_of ?cw = 0" using len by (simp_all add: syndrome_of_def check_of_def nth_append)
  have decode: "decode_word ws [check_of chunk] = decode_codeword (ws @ [check_of chunk])" if "length ws = 8" for ws
    using that by (simp add: decode_codeword_def)
  show ?thesis
  proof (cases "chunk' = chunk")
    case True
    then show ?thesis using decode [OF len] decode_clean [OF cw] len by simp
  next
    case False
    then obtain k where k: "k < 8 * length chunk" "chunk' = flip_bit k chunk" using assms(1) by (auto simp: near_def)
    then have "k div 8 < length chunk" by simp
    then have "pad_word chunk' = flip_bit k (pad_word chunk)" "flip_bit k ?cw = flip_bit k (pad_word chunk) @ [check_of chunk]"
      using k(2) len by (simp_all add: pad_word_def flip_bit_def list_update_append nth_append)
    moreover have "k < 72" using k(1) assms(2) by simp
    ultimately show ?thesis
      using False decode [of "pad_word chunk'"] decode_single [OF cw, of k] len by simp
  qed
qed

lemma correct_chunks_law:
  assumes "list_all2 near chunks chunks'" "\<forall>chunk\<in>set chunks. length chunk \<le> 8"
  shows "correct_chunks any chunks' (map check_of chunks) =
    Some (if any \<or> chunks' \<noteq> chunks then Corrected else Clean, concat chunks)"
  using assms
proof (induction chunks chunks' arbitrary: any rule: list_all2_induct)
  case (Cons chunk chunks chunk' chunks')
  have near: "near chunk chunk'" "length chunk \<le> 8" using Cons by auto
  then have "length chunk' = length chunk" by (auto simp: near_def)
  then have "take (length chunk') (pad_word chunk) = chunk" by (simp add: pad_word_def)
  then show ?case using Cons.IH Cons.prems decode_near [OF near] by simp
qed simp

text \<open>
  C18: the code corrects every single flipped bit and detects every pair. For an 8-byte word and the
  check byte encoding gives it, decoding the code word is clean and returns the word; with any one of
  the 72 bits flipped it reports a correction and returns the word; with any two flipped it reports an
  uncorrectable word and leaves the data as it found it.
\<close>

theorem secded_single_double:
  assumes "length data = 8" "k < 72" "k' < 72" "k \<noteq> k'"
  shows "\<exists>p. encode_word data [0] = Some [p] \<and>
    decode_codeword (data @ [p]) = Some (Clean, data) \<and>
    decode_codeword (flip_bit k (data @ [p])) = Some (Corrected, data) \<and>
    decode_codeword (flip_bit k (flip_bit k' (data @ [p]))) =
      Some (Uncorrectable, take 8 (flip_bit k (flip_bit k' (data @ [p]))))"
proof -
  let ?p = "check_byte (from_le_bytes data)"
  have cw: "length (data @ [?p]) = 9" "syndrome_of (data @ [?p]) = 0" "take 8 (data @ [?p]) = data"
    using assms(1) by (simp_all add: syndrome_of_def nth_append)
  show ?thesis
    using decode_clean [OF cw(1,2)] decode_single [OF cw(1,2) assms(2)] decode_double [OF cw(1,2) assms(2-4)] assms(1) cw(3)
    by (intro exI [of _ ?p]) (simp add: encode_word_def)
qed

theorem secded_single_double_witness:
  "\<exists>p. encode_word [1, 2, 3, 4, 5, 6, 7, 8] [0] = Some [p] \<and>
    decode_codeword (flip_bit 9 ([1, 2, 3, 4, 5, 6, 7, 8] @ [p])) = Some (Corrected, [1, 2, 3, 4, 5, 6, 7, 8])"
  using secded_single_double [of "[1, 2, 3, 4, 5, 6, 7, 8]" 9 70] by auto

text \<open>
  C27: a block heals. Encoding always gives a trailer of the length the reader derives, and a payload in
  which every 8-byte word differs from the encoded one in at most one bit is restored from it, reported
  clean exactly when nothing had changed.
\<close>

theorem secded_block_heals:
  assumes "list_all2 near (word_chunks payload) (word_chunks payload')"
  shows "\<exists>parity. encode_block_parity payload = Some parity \<and> length parity = block_parity_len (length payload) \<and>
    try_correct_block payload' parity = Some (if payload' = payload then Clean else Corrected, payload)"
proof -
  let ?cs = "word_chunks payload" and ?cs' = "word_chunks payload'"
  have size: "\<forall>chunk\<in>set ?cs. length chunk \<le> 8" using word_chunks_size by blast
  have enc: "encode_block_parity payload = Some (map check_of ?cs)"
    unfolding encode_block_parity_def by (rule encode_chunks_law [OF size])
  have eq: "?cs' = ?cs \<longleftrightarrow> payload' = payload" using concat_word_chunks by metis
  have "length ?cs' = length ?cs" using assms by (simp add: list_all2_lengthD)
  then have "\<not> length (map check_of ?cs) < block_parity_len (length payload')"
    using length_word_chunks [of payload'] by simp
  then have "try_correct_block payload' (map check_of ?cs) = Some (if payload' = payload then Clean else Corrected, payload)"
    using correct_chunks_law [OF assms size, of False] eq by (simp add: try_correct_block_def concat_word_chunks)
  then show ?thesis using enc by (intro exI [of _ "map check_of ?cs"]) (simp add: length_word_chunks)
qed

theorem secded_block_heals_witness:
  "\<exists>parity. encode_block_parity [10, 20, 30] = Some parity \<and> length parity = 1 \<and>
    try_correct_block [10, 22, 30] parity = Some (Corrected, [10, 20, 30])"
proof -
  have "flip_bit 9 [10, 20, 30] = [10, 22, 30]" by code_simp
  then have "near [10, 20, 30] [10, 22, 30]" by (auto simp: near_def intro!: exI [of _ 9])
  then have "list_all2 near (word_chunks [10, 20, 30]) (word_chunks [10, 22, 30])" by simp
  from secded_block_heals [OF this] show ?thesis by (simp add: block_parity_len_def)
qed

end
