(* ===== verification/Spec2Isabelle.thy ===== *)
theory Spec2Isabelle
  imports Internal_Key Seqno_Counter Interval_Tree Mvcc_Stream Merge_Heap Seeking_Merger Seqno_Zeroer Runs Super_Versions Point_Reads Secded
begin

text \<open>
  A verification library for the LSM-tree storage engine under \<open>src/\<close>. File names below are relative to
  \<open>src/src/\<close>.

  \<^bold>\<open>The program.\<close> A tree maps user keys, ordered by a comparator, to versions with sequence numbers. Writes
  go to a memtable (a skip list of versions and an interval tree of range tombstones), which is sealed and
  flushed to tables; tables form runs, runs form levels, and compaction merges levels. A super version is
  one consistent view of memtables and tables; a history of them serves snapshot reads. Scans merge the
  sources, drop what range tombstones delete and collapse versions.

  \<^bold>\<open>Foundations.\<close>
  \<^item> \<open>Prelude\<close>: machine integers as words, byte strings, Rust's \<open>Ordering\<close>, binary search, the error type.
  \<^item> \<open>Le_Bytes\<close>: little-endian bytes of integers with their round trips.
  \<^item> \<open>User_Comparator\<close> (\<open>comparator.rs\<close>): the trait's contract as the locale \<open>user_comparator\<close>, a linear order
    whose equality is byte equality; the byte order is an instance. Everything below holds for every
    comparator that keeps the contract, unless a statement names the byte order.
  \<^item> \<open>Internal_Key\<close> (\<open>value_type.rs\<close>, \<open>key.rs\<close>, \<open>value.rs\<close>): versioned entries, newest first within a key.
  \<^item> \<open>Seqno_Counter\<close> (\<open>seqno.rs\<close>): the generator's contract as a locale, discharged by the atomic counter;
    numbers handed out increase and stay below the reserved range.
  \<^item> \<open>Range_Tombstone\<close>, \<open>Key_Range\<close> (\<open>range_tombstone.rs\<close>, \<open>key_range.rs\<close>): half-open deletions, closed key
    ranges, clipping, coalescing, the successor of a key.
  \<^item> \<open>Double_Ended\<close> (\<open>double_ended_peekable.rs\<close>): the contract of double-ended iterators as a locale; an
    iterator that keeps it behaves as a deque of what is left under any interleaving of both ends.

  \<^bold>\<open>Write path.\<close>
  \<^item> \<open>Write_Batch\<close> (\<open>write_batch.rs\<close>): batches at one sequence number and the refusal of mixed operations.
  \<^item> \<open>Kv_Checksum\<close> (\<open>table/block/kv_checksum.rs\<close>, \<open>runtime_config/types.rs\<close>): digests of entries and the
    footer of digests of a block; the two hash functions are the parameter record \<open>hashers\<close>.
  \<^item> \<open>Skiplist\<close>, \<open>Skiplist_Map\<close>, \<open>Skiplist_Iter\<close>, \<open>Kv_Residence\<close> (\<open>memtable/skiplist.rs\<close>): towers, searches and
    inserts; that inserts refine ordered insertion into a list; the iterators as deques; the check of
    digests fixed at insert. A search along a level carries the number of nodes as fuel, which is enough
    because no level visits a node twice; linking a level may retry once, which is enough because without
    a concurrent writer the first compare-and-swap succeeds.
  \<^item> \<open>Interval_Tree\<close> (\<open>memtable/interval_tree.rs\<close>): the augmented AVL tree, its balance and its queries.
  \<^item> \<open>Memtable\<close> (\<open>memtable/mod.rs\<close>): all insert paths, reads and scans after any history of operations.

  \<^bold>\<open>Read path.\<close>
  \<^item> \<open>Active_Tombstones\<close>, \<open>Tombstone_Filter\<close> (\<open>active_tombstone_set.rs\<close>, \<open>range_tombstone_filter.rs\<close>): the
    sweep over open tombstones in both directions (a locale per direction) and the filter built on it.
  \<^item> \<open>Merge_Heap\<close> (\<open>heap.rs\<close>, \<open>merge.rs\<close>), \<open>Loser_Tree\<close> and \<open>Seeking_Merger\<close> (\<open>loser_tree.rs\<close>,
    \<open>seeking_merger.rs\<close>): the two k-way merges, that they agree, and re-seeking.
  \<^item> \<open>Mvcc_Stream\<close> (\<open>mvcc_stream.rs\<close>): one result per key, merge operands resolved; the user's merge
    operator is a parameter.
  \<^item> \<open>Runs\<close> (\<open>version/run.rs\<close>, \<open>version/optimize.rs\<close>): searches in runs and the repacking of runs.
  \<^item> \<open>Super_Versions\<close> (\<open>version/super_version.rs\<close>): installs, pruning, the retention floor and the routing of
    snapshots; the manifest files are a parameter record of operations any of which may fail.
  \<^item> \<open>Point_Reads\<close> (\<open>tree/mod.rs\<close>, \<open>tree/sealed.rs\<close>): a point read of a version answers from all its sources
    as if they were one. The lookup in one table is a parameter.

  \<^bold>\<open>Compaction and storage.\<close>
  \<^item> \<open>Compaction_Stream\<close>, \<open>Compaction_Reads\<close> (\<open>compaction/stream.rs\<close>): what is kept and dropped, and that every
    read at or above the watermark is unchanged. The user's compaction filter is a parameter.
  \<^item> \<open>Seqno_Zeroer\<close> (\<open>compaction/seqno_zeroer.rs\<close>): zeroing sequence numbers on the last level.
  \<^item> \<open>Secded\<close> (\<open>secded.rs\<close>): single errors are corrected, double errors detected.

  \<^bold>\<open>Conventions.\<close> Stateful code passes its state explicitly, as a record. Fallible code returns
  \<open>lsm_error + 'a\<close>; a panic is \<open>None\<close> or an error value. Atomic operations are single steps and operations
  run one after another: interleavings are sequences of whole operations.

  \<^bold>\<open>Not modelled.\<close> Block and table formats and their I/O (\<open>table/\<close>, \<open>sfa/\<close>, \<open>manifest*\<close>), the value log
  (\<open>vlog/\<close>, \<open>blob_tree/\<close>), file systems and I/O (\<open>fs/\<close>, \<open>io/\<close>, \<open>file*\<close>), caches, compression, encryption and
  Reed-Solomon parity, which call third-party codecs, recovery tools (\<open>repair.rs\<close>, \<open>salvage.rs\<close>, \<open>scrub.rs\<close>,
  \<open>verify.rs\<close>, \<open>inspect.rs\<close>, \<open>checkpoint.rs\<close>), compaction strategies and the worker's threads and locks,
  configuration, metrics and back-pressure. They are I/O, wrappers of external code, or concurrency below
  the level of whole operations.
\<close>

end
